(* ===== verification/Ternion_Prelude.thy ===== *)
theory Ternion_Prelude
  imports Main
    "HOL-Library.Word"
    "HOL-Library.Monad_Syntax"
    "HOL-Library.AList"
    "HOL-Library.List_Lexorder"
    "HOL-Library.Char_ord"
    "HOL-Library.Code_Target_Nat"
begin

text \<open>
  Shared vocabulary of the Ternion development: the Go types the sources use, Go's slice
  expressions with their run-time panics, maps with zero values, and the generic lemmas on
  64-bit words and lists that the component theories rely on.

  Conventions.
  \<^item> A Go \<^verbatim>\<open>uint64\<close> is a \<open>64 word\<close>: \<open>+\<close> and \<open>-\<close> wrap around as in Go.
  \<^item> A Go \<^verbatim>\<open>string\<close> is a \<open>string\<close> (a list of 8-bit characters), a \<^verbatim>\<open>[]byte\<close> is a
    \<open>byte list\<close>; values are immutable here, so Go's defensive copies are identities.
  \<^item> Code that can panic (an index or a slice bound out of range) returns an option;
    \<open>None\<close> is the panic.
\<close>

named_theorems u64_nat \<open>facts that move comparisons of 64-bit words to the naturals\<close>
named_theorems frame \<open>which fields of a state an operation leaves alone\<close>

type_synonym u64 = "64 word"
type_synonym u32 = "32 word"
type_synonym byte = "8 word"

subsection \<open>Words\<close>

lemma unat_plus_one_max:
  fixes x :: "'a::len word"
  assumes "x \<noteq> - 1"
  shows "unat (x + 1) = Suc (unat x)"
proof -
  have "1 + x \<noteq> 0" using assms by (metis add_eq_0_iff)
  from unatSuc [OF this] show ?thesis by (simp add: add.commute)
qed

lemma unat_add_one [simp]:
  fixes x :: "'a::len word"
  assumes "x < y"
  shows "unat (x + 1) = Suc (unat x)"
  by (rule unat_plus_one_max) (use assms word_order.extremum_strict in blast)

lemma word_less_add_one:
  fixes x :: "'a::len word"
  assumes "x \<noteq> - 1"
  shows "x < x + 1"
  using unat_plus_one_max [OF assms] by (simp add: word_less_nat_alt)

lemma unat_minus_one_pos:
  fixes x :: "'a::len word"
  assumes "0 < x"
  shows "unat (x - 1) = unat x - 1"
  using assms by (simp add: unat_minus_one word_gt_0)

lemma word_pos_if_less:
  fixes x :: "'a::len word"
  assumes "y < x"
  shows "0 < x"
  by (rule order.strict_trans1 [OF word_zero_le assms])

lemma unat_sub_le:
  fixes x :: "'a::len word"
  assumes "y \<le> x"
  shows "unat (x - y) = unat x - unat y"
  using assms by (simp add: unat_sub)

lemma unat_of_nat_u64: "k < 2 ^ 64 \<Longrightarrow> unat (of_nat k :: u64) = k"
  by (simp add: unat_of_nat take_bit_nat_eq_self)

lemma unat_add_of_nat:
  fixes x :: u64
  assumes "unat x + k < 2 ^ 64"
  shows "unat (x + of_nat k) = unat x + k"
proof -
  have "unat (of_nat k :: u64) = k" using assms by (intro unat_of_nat_u64) linarith
  then show ?thesis using assms by (simp add: unat_word_ariths)
qed

lemma unat_inj_u64: "unat (x :: u64) = unat y \<Longrightarrow> x = y"
  by (rule unsigned_word_eqI)

lemma u64_le_cases:
  fixes k :: u64
  assumes "k \<le> i" and "0 < i"
  shows "k \<le> i - 1 \<or> k = i"
proof (rule disjCI)
  assume "k \<noteq> i"
  then have "unat k \<noteq> unat i" using unat_inj_u64 by blast
  then show "k \<le> i - 1"
    using assms by (simp add: word_le_nat_alt unat_minus_one_pos)
qed

lemma unat_max_u64: "unat (- 1 :: u64) = 2 ^ 64 - 1"
  by (simp add: unsigned_minus_1_eq_mask mask_eq_exp_minus_1)

declare word_le_nat_alt [u64_nat] word_less_nat_alt [u64_nat]

subsection \<open>Slices\<close>

text \<open>\<^verbatim>\<open>xs[i]\<close> panics when \<open>i\<close> is not below the length.\<close>

definition go_index :: "'a list \<Rightarrow> u64 \<Rightarrow> 'a option" where
  "go_index xs i = (if unat i < length xs then Some (xs ! unat i) else None)"

text \<open>\<^verbatim>\<open>xs[i:]\<close>, \<^verbatim>\<open>xs[:j]\<close> and \<^verbatim>\<open>xs[i:j]\<close>; a bound beyond the length panics.\<close>

definition go_from :: "'a list \<Rightarrow> u64 \<Rightarrow> 'a list option" where
  "go_from xs i = (if unat i \<le> length xs then Some (drop (unat i) xs) else None)"

definition go_upto :: "'a list \<Rightarrow> u64 \<Rightarrow> 'a list option" where
  "go_upto xs j = (if unat j \<le> length xs then Some (take (unat j) xs) else None)"

definition go_slice :: "'a list \<Rightarrow> u64 \<Rightarrow> u64 \<Rightarrow> 'a list option" where
  "go_slice xs i j =
     (if i \<le> j \<and> unat j \<le> length xs then Some (drop (unat i) (take (unat j) xs)) else None)"

lemma go_index_Some [simp]: "unat i < length xs \<Longrightarrow> go_index xs i = Some (xs ! unat i)"
  by (simp add: go_index_def)

lemma go_index_SomeD: "go_index xs i = Some x \<Longrightarrow> unat i < length xs \<and> x = xs ! unat i"
  by (auto simp: go_index_def split: if_splits)

subsection \<open>Maps with zero values\<close>

text \<open>Reading a missing key of a Go map gives the zero value of the element type.\<close>

definition map_get :: "('k \<rightharpoonup> 'v::zero) \<Rightarrow> 'k \<Rightarrow> 'v" where
  "map_get m k = (case m k of None \<Rightarrow> 0 | Some v \<Rightarrow> v)"

definition map_delete :: "('k \<rightharpoonup> 'v) \<Rightarrow> 'k \<Rightarrow> ('k \<rightharpoonup> 'v)" where
  "map_delete m k = m(k := None)"

lemma map_get_empty [simp]: "map_get Map.empty k = 0"
  by (simp add: map_get_def)

lemma map_get_upd [simp]: "map_get (m(k \<mapsto> v)) j = (if j = k then v else map_get m j)"
  by (simp add: map_get_def)

lemma map_delete_apply [simp]: "map_delete m k j = (if j = k then None else m j)"
  by (simp add: map_delete_def)

lemma map_delete_SomeD: "map_delete m k j = Some v \<Longrightarrow> m j = Some v \<and> j \<noteq> k"
  by (simp split: if_splits)

subsection \<open>Loops that thread a state and append what each round emits\<close>

fun for_each :: "('a \<Rightarrow> 's \<Rightarrow> ('s \<times> 'b list) option) \<Rightarrow> 'a list \<Rightarrow> 's \<Rightarrow> ('s \<times> 'b list) option" where
  "for_each f [] s = Some (s, [])"
| "for_each f (x # xs) s =
     do { (s1, as1) \<leftarrow> f x s;
          (s2, as2) \<leftarrow> for_each f xs s1;
          Some (s2, as1 @ as2) }"

text \<open>A property every round keeps is kept by the loop; what every round emits, the loop emits.\<close>

lemma for_each_invariant:
  assumes "for_each f xs s = Some (s', as)" and "I s"
    and "\<And>x s s' as. x \<in> set xs \<Longrightarrow> I s \<Longrightarrow> f x s = Some (s', as) \<Longrightarrow> I s' \<and> (\<forall>a\<in>set as. P a)"
  shows "I s' \<and> (\<forall>a\<in>set as. P a)"
  using assms
proof (induction xs arbitrary: s as)
  case Nil
  then show ?case by simp
next
  case (Cons x xs)
  from Cons.prems(1) obtain s1 as1 as2 where
    fx: "f x s = Some (s1, as1)" and rest: "for_each f xs s1 = Some (s', as2)" and as: "as = as1 @ as2"
    by (auto simp: Option.bind_eq_Some_conv)
  have s1: "I s1" "\<forall>a\<in>set as1. P a" using Cons.prems(3) [OF _ Cons.prems(2) fx] by auto
  have "I s' \<and> (\<forall>a\<in>set as2. P a)"
    by (rule Cons.IH [OF rest s1(1)], rule Cons.prems(3)) auto
  then show ?case using s1(2) as by auto
qed

lemma for_each_total:
  assumes "I s" and "\<And>x s. x \<in> set xs \<Longrightarrow> I s \<Longrightarrow> \<exists>s' as. f x s = Some (s', as) \<and> I s'"
  shows "\<exists>s' as. for_each f xs s = Some (s', as) \<and> I s'"
  using assms
proof (induction xs arbitrary: s)
  case Nil
  then show ?case by simp
next
  case (Cons x xs)
  from Cons.prems(2) [OF _ Cons.prems(1), of x] obtain s1 as1 where
    fx: "f x s = Some (s1, as1)" "I s1" by auto
  from Cons.IH [OF fx(2)] Cons.prems(2) obtain s2 as2 where
    "for_each f xs s1 = Some (s2, as2)" "I s2" by (meson list.set_intros(2))
  then show ?case using fx by auto
qed

subsection \<open>Fallible steps\<close>

text \<open>Sequencing of fallible steps.\<close>

definition andThen :: "'e + 'a \<Rightarrow> ('a \<Rightarrow> 'e + 'b) \<Rightarrow> 'e + 'b" where
  "andThen r f = (case r of Inl e \<Rightarrow> Inl e | Inr x \<Rightarrow> f x)"

lemma andThen_simps [simp]: "andThen (Inl e) f = Inl e" "andThen (Inr x) f = f x"
  by (simp_all add: andThen_def)

lemma andThen_Inr: "andThen r f = Inr y \<longleftrightarrow> (\<exists>x. r = Inr x \<and> f x = Inr y)"
  by (cases r) simp_all

end
