(* ===== verification/Raft_Types.thy ===== *)
theory Raft_Types
  imports Ternion_Prelude
begin

text \<open>
  The data model of the consensus core, \<^verbatim>\<open>src/internal/raft/raft.go\<close>: roles, log entries, the
  events \<^verbatim>\<open>Step\<close> consumes, the actions it emits, and the state of one \<^verbatim>\<open>Node\<close>. A Go struct is a
  record whose fields carry a short prefix (\<^verbatim>\<open>n.term\<close> is \<open>n_term n\<close>, \<^verbatim>\<open>entry.Index\<close> is
  \<open>e_Index entry\<close>); the closed interfaces \<^verbatim>\<open>Event\<close> and \<^verbatim>\<open>Action\<close> are datatypes with one
  constructor per implementing struct. A \<^verbatim>\<open>map[K]struct{}\<close> is a set, a \<^verbatim>\<open>map[K]V\<close> that is only
  looked up is a partial map, and the one map the code iterates over (\<^verbatim>\<open>pendingReads\<close>) is an
  association list.
\<close>

subsection \<open>Identifiers, roles and log entries\<close>

type_synonym NodeID = string
type_synonym SessionID = "byte list"
type_synonym ProposalID = u64
type_synonym ReadID = u64
type_synonym EntryType = byte

datatype Role = Follower | PreCandidate | Candidate | Leader

text \<open>\<^verbatim>\<open>EntryType\<close> is a \<^verbatim>\<open>uint8\<close> with these named values; the type holds the other values too.\<close>

abbreviation EntryNoOp :: EntryType where "EntryNoOp \<equiv> 0"
abbreviation EntryOpenSession :: EntryType where "EntryOpenSession \<equiv> 1"
abbreviation EntryCloseSession :: EntryType where "EntryCloseSession \<equiv> 2"
abbreviation EntrySet :: EntryType where "EntrySet \<equiv> 3"
abbreviation EntryDelete :: EntryType where "EntryDelete \<equiv> 4"

text \<open>The zero value of \<^verbatim>\<open>SessionID [16]byte\<close>.\<close>

definition zeroSessionID :: SessionID where
  "zeroSessionID = replicate 16 0"

record LogEntry =
  e_Index :: u64
  e_Term :: u64
  e_Type :: EntryType
  e_SessionID :: SessionID
  e_Sequence :: u64
  e_Key :: string
  e_Value :: "byte list"

subsection \<open>Events\<close>

record ProposeSession =
  ps_ProposalID :: ProposalID
  ps_Type :: EntryType
  ps_SessionID :: SessionID

record ProposeSet =
  pset_ProposalID :: ProposalID
  pset_SessionID :: SessionID
  pset_Sequence :: u64
  pset_Key :: string
  pset_Value :: "byte list"

record ProposeDelete =
  pdel_ProposalID :: ProposalID
  pdel_SessionID :: SessionID
  pdel_Sequence :: u64
  pdel_Key :: string

record PreVoteRequest =
  pvq_From :: NodeID
  pvq_Term :: u64
  pvq_LastLogIndex :: u64
  pvq_LastLogTerm :: u64

record PreVoteResponse =
  pvr_From :: NodeID
  pvr_Term :: u64
  pvr_CurrentTerm :: u64
  pvr_Granted :: bool

record VoteRequest =
  vq_From :: NodeID
  vq_Term :: u64
  vq_LastLogIndex :: u64
  vq_LastLogTerm :: u64

record VoteResponse =
  vr_From :: NodeID
  vr_Term :: u64
  vr_Granted :: bool

record AppendEntries =
  ae_From :: NodeID
  ae_Term :: u64
  ae_RequestID :: u64
  ae_PrevLogIndex :: u64
  ae_PrevLogTerm :: u64
  ae_Entries :: "LogEntry list"
  ae_LeaderCommit :: u64
  ae_ReadID :: ReadID

record AppendEntriesResponse =
  ar_From :: NodeID
  ar_Term :: u64
  ar_RequestID :: u64
  ar_Success :: bool
  ar_MatchIndex :: u64
  ar_ConflictTerm :: u64
  ar_ConflictIndex :: u64
  ar_ReadID :: ReadID

record InstallSnapshot =
  is_From :: NodeID
  is_Term :: u64
  is_RequestID :: u64
  is_SnapshotIndex :: u64
  is_SnapshotTerm :: u64
  is_Length :: u64
  is_Checksum :: u32
  is_Offset :: u64
  is_Data :: "byte list"
  is_Done :: bool
  is_Success :: bool
  is_NextOffset :: u64
  is_Installed :: bool

record InstallSnapshotResponse =
  ir_From :: NodeID
  ir_Term :: u64
  ir_RequestID :: u64
  ir_SnapshotIndex :: u64
  ir_Success :: bool
  ir_NextOffset :: u64
  ir_Done :: bool

datatype Event =
    ElectionTimeout
  | HeartbeatTimeout
  | CheckQuorumTimeout
  | HardStatePersisted u64
  | LogEntriesPersisted u64
  | CommitIndexPersisted u64
  | RecoverCommitted
  | SnapshotCompacted u64 u64
  | EvProposeSession ProposeSession
  | EvProposeSet ProposeSet
  | EvProposeDelete ProposeDelete
  | ConfirmRead ReadID
  | EvPreVoteRequest PreVoteRequest
  | EvPreVoteResponse PreVoteResponse
  | EvVoteRequest VoteRequest
  | EvVoteResponse VoteResponse
  | EvAppendEntries AppendEntries
  | EvAppendEntriesResponse AppendEntriesResponse
  | AppendEntriesFailed NodeID u64
  | EvInstallSnapshot InstallSnapshot
  | EvInstallSnapshotResponse InstallSnapshotResponse

subsection \<open>Actions\<close>

record SendInstallSnapshot =
  sis_To :: NodeID
  sis_Term :: u64
  sis_RequestID :: u64
  sis_SnapshotIndex :: u64
  sis_SnapshotTerm :: u64
  sis_Offset :: u64

datatype Action =
    PersistHardState u64 u64 NodeID \<comment> \<open>\<^verbatim>\<open>PersistenceID\<close>, \<^verbatim>\<open>Term\<close>, \<^verbatim>\<open>VotedFor\<close>\<close>
  | PersistLogEntries u64 u64 "LogEntry list" \<comment> \<open>\<^verbatim>\<open>PersistenceID\<close>, \<^verbatim>\<open>TruncateFrom\<close>, \<^verbatim>\<open>Entries\<close>\<close>
  | PersistCommitIndex u64 u64 \<comment> \<open>\<^verbatim>\<open>PersistenceID\<close>, \<^verbatim>\<open>CommitIndex\<close>\<close>
  | SendPreVoteRequest NodeID PreVoteRequest
  | SendPreVoteResponse NodeID PreVoteResponse
  | SendVoteRequest NodeID VoteRequest
  | SendVoteResponse NodeID VoteResponse
  | SendAppendEntries NodeID AppendEntries
  | SendAppendEntriesResponse NodeID AppendEntriesResponse
  | ActSendInstallSnapshot SendInstallSnapshot
  | SendInstallSnapshotResponse NodeID InstallSnapshotResponse
  | ResetElectionTimer
  | ResetHeartbeatTimer
  | ResetCheckQuorumTimer
  | BecameLeader u64
  | LostLeadership u64
  | ApplyEntry LogEntry
  | BecameReadReady u64
  | ProposalAccepted ProposalID u64
  | ProposalRejected ProposalID NodeID
  | ReadConfirmed ReadID u64
  | ReadRejected ReadID NodeID

subsection \<open>Node state\<close>

record HardState =
  hs_Term :: u64
  hs_VotedFor :: NodeID

record RecoveredState =
  rs_HardState :: HardState
  rs_Log :: "LogEntry list"
  rs_CommitIndex :: u64
  rs_SnapshotIndex :: u64
  rs_SnapshotTerm :: u64

record pendingHardStatePersistence =
  ph_term :: u64
  ph_votedFor :: NodeID
  ph_after :: "Action list"

datatype logPersistencePurpose = persistLeaderEntry | persistFollowerAppend

record pendingLogPersistence =
  pl_purpose :: logPersistencePurpose
  pl_term :: u64
  pl_leader :: NodeID
  pl_requestID :: u64
  pl_truncateFrom :: u64
  pl_lastIndex :: u64
  pl_leaderCommit :: u64
  pl_readID :: ReadID

record pendingCommitPersistence =
  pc_commitIndex :: u64
  pc_after :: "Action list"

record pendingRead =
  pr_acknowledgements :: "NodeID set"
  pr_commitIndex :: u64
  pr_confirmed :: bool

text \<open>\<^verbatim>\<open>pendingAppend\<close> is the pair of its fields \<^verbatim>\<open>requestID\<close> and \<^verbatim>\<open>leaderCommit\<close>.\<close>

type_synonym pendingAppend = "u64 \<times> u64"

record Node =
  n_id :: NodeID
  n_peers :: "NodeID list"
  n_role :: Role
  n_term :: u64
  n_votedFor :: NodeID
  n_leaderID :: NodeID
  n_lastLogIndex :: u64
  n_lastLogTerm :: u64
  n_durableLogIndex :: u64
  n_logBaseIndex :: u64
  n_logBaseTerm :: u64
  n_log :: "LogEntry list"
  n_commitIndex :: u64
  n_lastApplied :: u64
  n_readReady :: bool
  n_votes :: "NodeID set"
  n_preVotes :: "NodeID set"
  n_activePeers :: "NodeID set"
  n_matchIndex :: "NodeID \<rightharpoonup> u64"
  n_nextIndex :: "NodeID \<rightharpoonup> u64"
  n_appendInFlight :: "NodeID \<rightharpoonup> pendingAppend"
  n_snapshotInFlight :: "NodeID \<rightharpoonup> u64"
  n_nextRequestID :: u64
  n_pendingReads :: "(ReadID \<times> pendingRead) list"
  n_recentLeaderContact :: bool
  n_durableTerm :: u64
  n_durableVotedFor :: NodeID
  n_nextHardStatePersistence :: u64
  n_pendingHardState :: "u64 \<rightharpoonup> pendingHardStatePersistence"
  n_nextLogPersistence :: u64
  n_pendingLog :: "u64 \<rightharpoonup> pendingLogPersistence"
  n_durableCommitIndex :: u64
  n_nextCommitPersistence :: u64
  n_pendingCommit :: "u64 \<rightharpoonup> pendingCommitPersistence"

text \<open>\<^verbatim>\<open>State\<close>, the read-only view of a Node.\<close>

record State =
  st_ID :: NodeID
  st_Role :: Role
  st_Term :: u64
  st_VotedFor :: NodeID
  st_LeaderID :: NodeID
  st_LastLogIndex :: u64
  st_LastLogTerm :: u64
  st_CommitIndex :: u64
  st_LastApplied :: u64
  st_LastAppliedTerm :: u64
  st_SnapshotIndex :: u64
  st_ReadReady :: bool

end
