(* ===== verification/Raft_Log.thy ===== *)
theory Raft_Log
  imports Raft_Types
begin

text \<open>
  The replicated log of one Node: the helpers of \<^verbatim>\<open>src/internal/raft/raft.go\<close> that read, extend,
  truncate and compact \<^verbatim>\<open>n.log\<close>. The log holds the entries above \<^verbatim>\<open>logBaseIndex\<close>, the position
  of the newest Snapshot; \<^verbatim>\<open>log[i]\<close> is the entry with index \<^verbatim>\<open>logBaseIndex+1+i\<close>. Go indexes the
  slice without checking, so each helper returns an option whose \<open>None\<close> is the run-time panic; the
  invariant \<open>log_ok\<close> is what rules the panic out.
\<close>

subsection \<open>Operations\<close>

definition maxAppendEntriesBytes :: nat where
  "maxAppendEntriesBytes = 2 ^ 20 + 4 * 2 ^ 10"

definition cloneLogEntries :: "LogEntry list \<Rightarrow> LogEntry list" where
  "cloneLogEntries entries = map (\<lambda>entry. entry\<lparr>e_Value := [] @ e_Value entry\<rparr>) entries"

definition logIsAtLeastAsUpToDate :: "u64 \<Rightarrow> u64 \<Rightarrow> u64 \<Rightarrow> u64 \<Rightarrow> bool" where
  "logIsAtLeastAsUpToDate candidateTerm candidateIndex localTerm localIndex \<longleftrightarrow>
     candidateTerm > localTerm \<or> (candidateTerm = localTerm \<and> candidateIndex \<ge> localIndex)"

definition candidateLogIsUpToDate :: "Node \<Rightarrow> u64 \<Rightarrow> u64 \<Rightarrow> bool" where
  "candidateLogIsUpToDate n trm index =
     logIsAtLeastAsUpToDate trm index (n_lastLogTerm n) (n_lastLogIndex n)"

definition termAt :: "Node \<Rightarrow> u64 \<Rightarrow> u64 option" where
  "termAt n index =
     (if index = n_logBaseIndex n then Some (n_logBaseTerm n)
      else if index \<le> n_logBaseIndex n \<or> index > n_lastLogIndex n then Some 0
      else map_option e_Term (go_index (n_log n) (index - n_logBaseIndex n - 1)))"

definition matches :: "Node \<Rightarrow> u64 \<Rightarrow> u64 \<Rightarrow> bool option" where
  "matches n index trm =
     (if index = 0 \<and> trm = 0 then Some True
      else if index \<le> n_lastLogIndex n then map_option (\<lambda>t. t = trm) (termAt n index)
      else Some False)"

text \<open>The loop of \<^verbatim>\<open>entriesBatch\<close>: its variables are \<^verbatim>\<open>index\<close>, \<^verbatim>\<open>bytes\<close> and \<^verbatim>\<open>end\<close>.\<close>

partial_function (option) entriesBatch_loop ::
  "Node \<Rightarrow> u64 \<Rightarrow> u64 \<Rightarrow> u64 \<Rightarrow> nat \<Rightarrow> u64 \<Rightarrow> u64 option" where
  "entriesBatch_loop n first lst index bytes end =
     (if index \<le> lst
      then do {
        entry \<leftarrow> go_index (n_log n) (index - n_logBaseIndex n - 1);
        let entryBytes = 64 + length (e_Key entry) + length (e_Value entry);
        if bytes + entryBytes > maxAppendEntriesBytes \<and> end \<ge> first
        then Some end
        else entriesBatch_loop n first lst (index + 1) (bytes + entryBytes) index }
      else Some end)"

declare entriesBatch_loop.simps [code]

definition entriesBatch :: "Node \<Rightarrow> u64 \<Rightarrow> u64 \<Rightarrow> LogEntry list option" where
  "entriesBatch n first lst =
     (if first = 0 \<or> first > lst \<or> lst > n_lastLogIndex n then Some []
      else if first \<le> n_logBaseIndex n then Some []
      else do {
        end \<leftarrow> entriesBatch_loop n first lst first 0 (first - 1);
        let startOffset = first - n_logBaseIndex n - 1;
        let endOffset = end - n_logBaseIndex n;
        map_option cloneLogEntries (go_slice (n_log n) startOffset endOffset) })"

text \<open>The loop of \<^verbatim>\<open>conflictHint\<close>, on its variable \<^verbatim>\<open>first\<close>.\<close>

function conflictHint_loop :: "Node \<Rightarrow> u64 \<Rightarrow> u64 \<Rightarrow> u64 option" where
  "conflictHint_loop n trm first =
     (if first > n_logBaseIndex n + 1
      then do {
        t \<leftarrow> termAt n (first - 1);
        if t = trm then conflictHint_loop n trm (first - 1) else Some first }
      else Some first)"
  by pat_completeness auto
termination
proof (relation "measure (\<lambda>(n, trm, first). unat first)", goal_cases)
  case 1
  show ?case by simp
next
  case (2 n trm first t)
  then have "0 < first" by (auto intro: word_pos_if_less)
  then show ?case by (simp add: unat_minus_one_pos unat_gt_0)
qed

declare conflictHint_loop.simps [simp del]

definition conflictHint :: "Node \<Rightarrow> u64 \<Rightarrow> (u64 \<times> u64) option" where
  "conflictHint n index =
     (if index = 0 \<or> index > n_lastLogIndex n then Some (0, n_lastLogIndex n + 1)
      else do {
        trm \<leftarrow> termAt n index;
        first \<leftarrow> conflictHint_loop n trm index;
        Some (trm, first) })"

text \<open>The loop of \<^verbatim>\<open>nextIndexFromConflict\<close>: the result is the index after the last entry of the
  conflicting Term, if the loop finds one.\<close>

function nextIndexFromConflict_loop :: "Node \<Rightarrow> u64 \<Rightarrow> u64 \<Rightarrow> u64 option option" where
  "nextIndexFromConflict_loop n conflictTerm index =
     (if index > 0
      then do {
        t \<leftarrow> termAt n index;
        if t = conflictTerm then Some (Some (index + 1))
        else nextIndexFromConflict_loop n conflictTerm (index - 1) }
      else Some None)"
  by pat_completeness auto
termination
  by (relation "measure (\<lambda>(n, trm, index). unat index)")
     (simp_all add: unat_minus_one_pos unat_gt_0)

declare nextIndexFromConflict_loop.simps [simp del]

definition nextIndexFromConflict :: "Node \<Rightarrow> AppendEntriesResponse \<Rightarrow> u64 option" where
  "nextIndexFromConflict n response =
     do {
       found \<leftarrow> (if ar_ConflictTerm response \<noteq> 0
                then nextIndexFromConflict_loop n (ar_ConflictTerm response) (n_lastLogIndex n)
                else Some None);
       let next = (case found of Some next \<Rightarrow> next | None \<Rightarrow> ar_ConflictIndex response);
       let next = (if next = 0 then 1 else next);
       Some (min next (n_lastLogIndex n + 1)) }"

text \<open>
  \<^verbatim>\<open>entriesToAppend\<close>: \<open>Some None\<close> is the result with \<^verbatim>\<open>ok == false\<close>, \<open>Some (Some (es, from))\<close>
  the entries to append and the index to truncate from first (0 when nothing is truncated). The
  loop variable \<^verbatim>\<open>wantIndex\<close> is \<^verbatim>\<open>prevIndex + offset + 1\<close>.
\<close>

fun entriesToAppend_loop ::
  "Node \<Rightarrow> u64 \<Rightarrow> LogEntry list \<Rightarrow> (LogEntry list \<times> u64) option option" where
  "entriesToAppend_loop n wantIndex [] = Some (Some ([], 0))"
| "entriesToAppend_loop n wantIndex (entry # rest) =
     (if e_Index entry \<noteq> wantIndex then Some None
      else if e_Index entry \<le> n_lastLogIndex n
      then do {
        t \<leftarrow> termAt n (e_Index entry);
        if t \<noteq> e_Term entry
        then (if e_Index entry \<le> n_commitIndex n then Some None
              else Some (Some (cloneLogEntries (entry # rest), e_Index entry)))
        else entriesToAppend_loop n (wantIndex + 1) rest }
      else if e_Index entry \<noteq> n_lastLogIndex n + 1 then Some None
      else Some (Some (cloneLogEntries (entry # rest), 0)))"

definition entriesToAppend ::
  "Node \<Rightarrow> u64 \<Rightarrow> LogEntry list \<Rightarrow> (LogEntry list \<times> u64) option option" where
  "entriesToAppend n prevIndex entries = entriesToAppend_loop n (prevIndex + 1) entries"

definition appendEntries :: "Node \<Rightarrow> LogEntry list \<Rightarrow> Node option" where
  "appendEntries n entries =
     (let log' = n_log n @ cloneLogEntries entries in
      if log' = [] then None
      else Some (n\<lparr>n_log := log', n_lastLogIndex := e_Index (last log'),
                   n_lastLogTerm := e_Term (last log')\<rparr>))"

definition truncateLog :: "Node \<Rightarrow> u64 \<Rightarrow> Node option" where
  "truncateLog n firstIndex =
     do {
       log' \<leftarrow> go_upto (n_log n) (firstIndex - n_logBaseIndex n - 1);
       let n = n\<lparr>n_log := log', n_lastLogIndex := firstIndex - 1\<rparr>;
       t \<leftarrow> termAt n (n_lastLogIndex n);
       Some (n\<lparr>n_lastLogTerm := t, n_durableLogIndex := min (n_durableLogIndex n) (n_lastLogIndex n)\<rparr>) }"

definition compactLog :: "Node \<Rightarrow> u64 \<Rightarrow> u64 \<Rightarrow> Node option" where
  "compactLog n index trm =
     (if index \<le> n_logBaseIndex n \<or> index > n_lastApplied n then Some n
      else do {
        t \<leftarrow> termAt n index;
        if t \<noteq> trm then Some n
        else do {
          let first = index - n_logBaseIndex n;
          log' \<leftarrow> go_from (n_log n) first;
          Some (n\<lparr>n_log := cloneLogEntries log', n_logBaseIndex := index, n_logBaseTerm := trm\<rparr>) } })"


subsection \<open>The log invariant and the abstract log\<close>

text \<open>Entries whose indices run from \<open>from\<close> upwards without a gap.\<close>

definition consecutive :: "u64 \<Rightarrow> LogEntry list \<Rightarrow> bool" where
  "consecutive from es \<longleftrightarrow> map e_Index es = map (\<lambda>i. from + of_nat i) [0..<length es]"

text \<open>
  \<open>log_ok\<close>: indices are consecutive from \<^verbatim>\<open>logBaseIndex+1\<close>, \<^verbatim>\<open>lastLogIndex\<close> and \<^verbatim>\<open>lastLogTerm\<close>
  describe the last entry (the Snapshot when the log is empty), and the last index is below the
  largest \<^verbatim>\<open>uint64\<close>, so that \<^verbatim>\<open>lastLogIndex+1\<close> does not wrap around.
\<close>

definition log_ok :: "Node \<Rightarrow> bool" where
  "log_ok n \<longleftrightarrow>
     unat (n_logBaseIndex n) + length (n_log n) < 2 ^ 64 - 1 \<and>
     n_lastLogIndex n = n_logBaseIndex n + of_nat (length (n_log n)) \<and>
     consecutive (n_logBaseIndex n + 1) (n_log n) \<and>
     n_lastLogTerm n = (if n_log n = [] then n_logBaseTerm n else e_Term (last (n_log n)))"

text \<open>The abstract log: the retained entries by index, as a map from naturals.\<close>

definition entryAt :: "Node \<Rightarrow> nat \<Rightarrow> LogEntry option" where
  "entryAt n k =
     (if unat (n_logBaseIndex n) < k \<and> k \<le> unat (n_logBaseIndex n) + length (n_log n)
      then Some (n_log n ! (k - unat (n_logBaseIndex n) - 1)) else None)"

lemma consecutive_Nil [simp]: "consecutive f []"
  by (simp add: consecutive_def)

lemma consecutive_nth: "consecutive f es \<Longrightarrow> i < length es \<Longrightarrow> e_Index (es ! i) = f + of_nat i"
  by (auto simp: consecutive_def dest!: arg_cong [where f = "\<lambda>xs. xs ! i"])

lemma consecutiveI: "(\<And>i. i < length es \<Longrightarrow> e_Index (es ! i) = f + of_nat i) \<Longrightarrow> consecutive f es"
  by (auto simp: consecutive_def intro: nth_equalityI)

lemma consecutive_iff: "consecutive f es \<longleftrightarrow> (\<forall>i < length es. e_Index (es ! i) = f + of_nat i)"
  by (auto intro: consecutiveI dest: consecutive_nth)

lemma consecutive_append:
  "consecutive f (xs @ ys) \<longleftrightarrow> consecutive f xs \<and> consecutive (f + of_nat (length xs)) ys"
proof -
  have "(\<forall>i < length xs + length ys. e_Index ((xs @ ys) ! i) = f + of_nat i) \<longleftrightarrow>
    (\<forall>i < length xs. e_Index (xs ! i) = f + of_nat i) \<and>
    (\<forall>j < length ys. e_Index (ys ! j) = f + of_nat (length xs) + of_nat j)"
    (is "?L \<longleftrightarrow> ?A \<and> ?B")
  proof
    assume L: ?L
    have ?A
    proof (intro allI impI)
      fix i assume "i < length xs"
      then show "e_Index (xs ! i) = f + of_nat i"
        using L [rule_format, of i] by (simp add: nth_append)
    qed
    moreover have ?B
    proof (intro allI impI)
      fix j assume "j < length ys"
      then show "e_Index (ys ! j) = f + of_nat (length xs) + of_nat j"
        using L [rule_format, of "length xs + j"] by (simp add: nth_append add.assoc)
    qed
    ultimately show "?A \<and> ?B" ..
  next
    assume AB: "?A \<and> ?B"
    show ?L
    proof (intro allI impI)
      fix i assume i: "i < length xs + length ys"
      show "e_Index ((xs @ ys) ! i) = f + of_nat i"
      proof (cases "i < length xs")
        case True
        with AB show ?thesis by (simp add: nth_append)
      next
        case False
        then have "f + of_nat (length xs) + of_nat (i - length xs) = f + of_nat i"
          by (metis add.assoc not_less le_add_diff_inverse of_nat_add)
        moreover have "i - length xs < length ys" using i False by linarith
        ultimately show ?thesis using AB False by (simp add: nth_append)
      qed
    qed
  qed
  then show ?thesis by (simp add: consecutive_iff)
qed

lemma consecutive_Cons: "consecutive f (e # es) \<longleftrightarrow> e_Index e = f \<and> consecutive (f + 1) es"
  using consecutive_append [of f "[e]" es] by (simp add: consecutive_def)

lemma consecutive_take: "consecutive f es \<Longrightarrow> consecutive f (take k es)"
  by (metis append_take_drop_id consecutive_append)

lemma consecutive_drop: "consecutive f es \<Longrightarrow> k \<le> length es \<Longrightarrow> consecutive (f + of_nat k) (drop k es)"
  by (metis append_take_drop_id consecutive_append length_take min.absorb2)

lemma cloneLogEntries_id [simp]: "cloneLogEntries es = es"
  by (simp add: cloneLogEntries_def)

lemma log_ok_bound: "log_ok n \<Longrightarrow> unat (n_logBaseIndex n) + length (n_log n) < 2 ^ 64 - 1"
  by (simp add: log_ok_def)

lemma log_ok_last: "log_ok n \<Longrightarrow> unat (n_lastLogIndex n) = unat (n_logBaseIndex n) + length (n_log n)"
  using log_ok_bound [of n] by (simp add: log_ok_def unat_add_of_nat)

lemma log_ok_last_not_max: "log_ok n \<Longrightarrow> n_lastLogIndex n \<noteq> - 1"
  using log_ok_bound [of n] log_ok_last [of n] by (auto simp: unat_max_u64)

lemma log_ok_base_le: "log_ok n \<Longrightarrow> n_logBaseIndex n \<le> n_lastLogIndex n"
  by (simp add: log_ok_last u64_nat)

lemma log_ok_Index:
  assumes "log_ok n" and "i < length (n_log n)"
  shows "unat (e_Index (n_log n ! i)) = unat (n_logBaseIndex n) + 1 + i"
proof -
  have "map e_Index (n_log n) ! i = n_logBaseIndex n + 1 + of_nat i"
    using assms by (simp add: log_ok_def consecutive_def)
  then have "e_Index (n_log n ! i) = n_logBaseIndex n + of_nat (1 + i)"
    using assms by simp
  moreover have "unat (n_logBaseIndex n) + (1 + i) < 2 ^ 64"
    using log_ok_bound [OF assms(1)] assms(2) by simp
  ultimately show ?thesis by (simp only: unat_add_of_nat)
qed

lemma offset_unat:
  assumes "b < i" and "i \<le> (l::u64)"
  shows "unat (i - b - 1) = unat i - unat b - 1"
proof -
  have "unat (i - b) = unat i - unat b" using assms by (simp add: unat_sub_le)
  moreover have "0 < i - b" using assms by (simp add: word_gt_0)
  ultimately show ?thesis by (simp add: unat_minus_one_pos)
qed

lemma go_index_log:
  assumes "log_ok n" and "n_logBaseIndex n < i" and "i \<le> n_lastLogIndex n"
  shows "go_index (n_log n) (i - n_logBaseIndex n - 1) = entryAt n (unat i)"
  using assms log_ok_last [OF assms(1)] offset_unat [OF assms(2,3)]
  by (auto simp: go_index_def entryAt_def u64_nat)

lemma entryAt_Some:
  assumes "log_ok n" and "n_logBaseIndex n < i" and "i \<le> n_lastLogIndex n"
  obtains e where "entryAt n (unat i) = Some e"
  using assms log_ok_last [OF assms(1)] by (auto simp: entryAt_def u64_nat)

lemma entryAt_Index: "log_ok n \<Longrightarrow> entryAt n k = Some e \<Longrightarrow> unat (e_Index e) = k"
  using log_ok_Index [of n "k - unat (n_logBaseIndex n) - 1"]
  by (auto simp: entryAt_def split: if_splits)

lemma entryAt_range:
  "log_ok n \<Longrightarrow> entryAt n k = Some e \<Longrightarrow> unat (n_logBaseIndex n) < k \<and> k \<le> unat (n_lastLogIndex n)"
  by (auto simp: entryAt_def log_ok_last split: if_splits)

subsection \<open>Reading the log\<close>

lemma termAt_log:
  assumes "log_ok n" and "n_logBaseIndex n < i" and "i \<le> n_lastLogIndex n"
  shows "termAt n i = map_option e_Term (entryAt n (unat i))"
  using assms go_index_log [OF assms] by (auto simp: termAt_def)

lemma termAt_total:
  assumes "log_ok n"
  obtains t where "termAt n i = Some t"
proof (cases "n_logBaseIndex n < i \<and> i \<le> n_lastLogIndex n")
  case True
  with assms entryAt_Some [OF assms, of i] that show ?thesis by (auto simp: termAt_log)
next
  case False
  with that show ?thesis by (cases "i = n_logBaseIndex n") (auto simp: termAt_def not_less not_le)
qed

lemma termAt_ex: "log_ok n \<Longrightarrow> \<exists>t. termAt n i = Some t"
  using termAt_total by metis

lemma matches_ex: "log_ok n \<Longrightarrow> \<exists>b. matches n i t = Some b"
  using termAt_ex [of n i] by (auto simp: matches_def)

lemma lastLogTerm_termAt:
  assumes "log_ok n"
  shows "termAt n (n_lastLogIndex n) = Some (n_lastLogTerm n)"
proof (cases "n_log n = []")
  case True
  with assms show ?thesis by (simp add: log_ok_def termAt_def)
next
  case False
  then have "n_logBaseIndex n < n_lastLogIndex n"
    by (simp add: log_ok_last [OF assms] u64_nat)
  then have "termAt n (n_lastLogIndex n) = map_option e_Term (entryAt n (unat (n_lastLogIndex n)))"
    by (simp add: termAt_log assms)
  also have "\<dots> = Some (e_Term (last (n_log n)))"
    using False by (simp add: entryAt_def log_ok_last [OF assms] last_conv_nth)
  also have "e_Term (last (n_log n)) = n_lastLogTerm n"
    using assms False by (simp add: log_ok_def)
  finally show ?thesis .
qed


subsection \<open>Extending, truncating and compacting the log\<close>

lemma appendEntries_ok:
  assumes ok: "log_ok n" and es: "es \<noteq> []" "consecutive (n_lastLogIndex n + 1) es"
    and room: "unat (n_lastLogIndex n) + length es < 2 ^ 64 - 1"
  shows "appendEntries n es =
      Some (n\<lparr>n_log := n_log n @ es, n_lastLogIndex := n_lastLogIndex n + of_nat (length es),
              n_lastLogTerm := e_Term (last es)\<rparr>)" (is "_ = Some ?n")
    and "log_ok (n\<lparr>n_log := n_log n @ es, n_lastLogIndex := n_lastLogIndex n + of_nat (length es),
              n_lastLogTerm := e_Term (last es)\<rparr>)"
proof -
  have "e_Index (last es) = n_lastLogIndex n + 1 + of_nat (length es - 1)"
    using es by (simp add: last_conv_nth consecutive_nth)
  also have "\<dots> = n_lastLogIndex n + of_nat (1 + (length es - 1))"
    by (simp only: of_nat_add of_nat_1 add.assoc)
  also have "1 + (length es - 1) = length es"
    using es(1) by (cases es) auto
  finally show "appendEntries n es = Some ?n"
    using es(1) by (simp add: appendEntries_def Let_def)
  show "log_ok ?n"
    using ok es room log_ok_last [OF ok]
    by (simp add: log_ok_def consecutive_append add.assoc add.commute add.left_commute)
qed

lemma truncateLog_ok:
  assumes ok: "log_ok n" and f: "n_logBaseIndex n < f" "f \<le> n_lastLogIndex n"
  shows "\<exists>n' t. truncateLog n f = Some n' \<and> log_ok n' \<and>
    n' = n\<lparr>n_log := take (unat f - unat (n_logBaseIndex n) - 1) (n_log n), n_lastLogIndex := f - 1,
           n_lastLogTerm := t, n_durableLogIndex := min (n_durableLogIndex n) (f - 1)\<rparr>"
proof -
  define k where "k = unat f - unat (n_logBaseIndex n) - 1"
  define log' where "log' = take k (n_log n)"
  define m where "m = n\<lparr>n_log := log', n_lastLogIndex := f - 1\<rparr>"
  define m' where "m' = m\<lparr>n_lastLogTerm := (if log' = [] then n_logBaseTerm n else e_Term (last log'))\<rparr>"
  have off: "unat (f - n_logBaseIndex n - 1) = k" unfolding k_def by (rule offset_unat [OF f])
  have k: "k < length (n_log n)"
    using f log_ok_last [OF ok] unfolding k_def by (simp add: u64_nat)
  have len: "length log' = k" using k by (simp add: log'_def)
  have f1: "f - 1 = n_logBaseIndex n + of_nat k"
    unfolding off [symmetric] by simp
  have ok': "log_ok m'"
    unfolding log_ok_def m'_def m_def
    using log_ok_bound [OF ok] k f1 ok consecutive_take [of "n_logBaseIndex n + 1" "n_log n" k] len
    by (auto simp: log_ok_def log'_def)
  have "termAt m (f - 1) = termAt m' (f - 1)"
    by (simp add: termAt_def m'_def)
  also have "\<dots> = Some (n_lastLogTerm m')"
    using lastLogTerm_termAt [OF ok'] by (simp add: m'_def m_def)
  finally have t: "termAt m (f - 1) = Some (n_lastLogTerm m')" .
  have "go_upto (n_log n) (f - n_logBaseIndex n - 1) = Some log'"
    using k by (simp add: go_upto_def off log'_def)
  then have "truncateLog n f = Some (m'\<lparr>n_durableLogIndex := min (n_durableLogIndex n) (f - 1)\<rparr>)"
    using t by (simp add: truncateLog_def m_def m'_def)
  moreover have "log_ok (m'\<lparr>n_durableLogIndex := min (n_durableLogIndex n) (f - 1)\<rparr>)"
    using ok' by (simp add: log_ok_def)
  ultimately show ?thesis unfolding m_def m'_def log'_def k_def by auto
qed

lemma entryAt_truncate:
  assumes ok: "log_ok n" and f: "n_logBaseIndex n < f" "f \<le> n_lastLogIndex n"
    and n': "truncateLog n f = Some n'"
  shows "entryAt n' = (\<lambda>k. if k < unat f then entryAt n k else None)"
proof
  fix k
  have "unat f \<le> unat (n_logBaseIndex n) + length (n_log n)"
    using f log_ok_last [OF ok] by (simp add: u64_nat)
  moreover have "unat (n_logBaseIndex n) < unat f" using f by (simp add: u64_nat)
  ultimately show "entryAt n' k = (if k < unat f then entryAt n k else None)"
    using truncateLog_ok [OF ok f] n' by (auto simp: entryAt_def)
qed

lemma compactLog_cases:
  assumes ok: "log_ok n" and applied: "n_lastApplied n \<le> n_lastLogIndex n"
  obtains (skip) "compactLog n i t = Some n"
  | (compact) "compactLog n i t =
        Some (n\<lparr>n_log := drop (unat i - unat (n_logBaseIndex n)) (n_log n),
                n_logBaseIndex := i, n_logBaseTerm := t\<rparr>)"
      "n_logBaseIndex n < i" "i \<le> n_lastApplied n" "termAt n i = Some t"
      "log_ok (n\<lparr>n_log := drop (unat i - unat (n_logBaseIndex n)) (n_log n),
                n_logBaseIndex := i, n_logBaseTerm := t\<rparr>)"
proof (cases "n_logBaseIndex n < i \<and> i \<le> n_lastApplied n \<and> termAt n i = Some t")
  case False
  then have "compactLog n i t = Some n"
    using termAt_ex [OF ok, of i] by (auto simp: compactLog_def not_le not_less)
  then show ?thesis by (rule skip)
next
  case True
  let ?k = "unat i - unat (n_logBaseIndex n)"
  from True applied have il: "n_logBaseIndex n < i" "i \<le> n_lastLogIndex n" by auto
  have off: "unat (i - n_logBaseIndex n) = ?k" using il by (simp add: unat_sub_le)
  have k: "?k \<le> length (n_log n)" using il log_ok_last [OF ok] by (simp add: u64_nat)
  have base: "i = n_logBaseIndex n + of_nat ?k"
    unfolding off [symmetric] by simp
  let ?n = "n\<lparr>n_log := drop ?k (n_log n), n_logBaseIndex := i, n_logBaseTerm := t\<rparr>"
  have "compactLog n i t = Some ?n"
    using True k off by (auto simp: compactLog_def go_from_def)
  moreover have "log_ok ?n"
  proof -
    have 1: "unat i + length (drop ?k (n_log n)) < 2 ^ 64 - 1"
      using log_ok_bound [OF ok] k il by (simp add: u64_nat)
    have 2: "n_lastLogIndex n = i + of_nat (length (drop ?k (n_log n)))"
      by (rule unat_inj_u64, subst unat_add_of_nat)
         (use 1 k il log_ok_last [OF ok] in \<open>simp_all add: u64_nat\<close>)
    have 3: "consecutive (i + 1) (drop ?k (n_log n))"
      using consecutive_drop [OF _ k, of "n_logBaseIndex n + 1"] ok base
      by (simp add: log_ok_def add.assoc add.commute add.left_commute)
    have 4: "n_lastLogTerm n = (if drop ?k (n_log n) = [] then t else e_Term (last (drop ?k (n_log n))))"
    proof (cases "drop ?k (n_log n) = []")
      case True2: True
      then have "i = n_lastLogIndex n" using 2 by simp
      with True True2 lastLogTerm_termAt [OF ok] show ?thesis by simp
    next
      case False
      then have "n_log n \<noteq> []" by auto
      then show ?thesis using ok False by (auto simp: log_ok_def)
    qed
    show ?thesis using 1 2 3 4 by (simp add: log_ok_def)
  qed
  ultimately show ?thesis using True by (intro compact) auto
qed

subsection \<open>Batches, conflict hints and what to append\<close>

definition entryBytes :: "LogEntry \<Rightarrow> nat" where
  "entryBytes entry = 64 + length (e_Key entry) + length (e_Value entry)"

definition batchBytes :: "LogEntry list \<Rightarrow> nat" where
  "batchBytes es = sum_list (map entryBytes es)"

lemma entriesBatch_loop_spec:
  fixes n first lst
  defines "xs \<equiv> drop (unat first - unat (n_logBaseIndex n) - 1) (n_log n)"
    and "m \<equiv> unat lst - unat first + 1"
  assumes ok: "log_ok n" and first: "n_logBaseIndex n < first" "first \<le> lst"
    and lst: "lst \<le> n_lastLogIndex n"
    and j: "j \<le> m" "j \<le> 1 \<or> batchBytes (take j xs) \<le> maxAppendEntriesBytes"
  shows "\<exists>j'. entriesBatch_loop n first lst (first + of_nat j) (batchBytes (take j xs)) (first + of_nat j - 1)
      = Some (first + of_nat j' - 1) \<and> 0 < j' \<and> j' \<le> m \<and>
      (j' \<le> 1 \<or> batchBytes (take j' xs) \<le> maxAppendEntriesBytes)"
  using j
proof (induction "m - j" arbitrary: j)
  case 0
  have "unat first + j < 2 ^ 64"
    using 0 lst first log_ok_bound [OF ok] log_ok_last [OF ok] unfolding m_def by (simp add: u64_nat)
  then have "unat (first + of_nat j) = unat first + j" by (rule unat_add_of_nat)
  then have "\<not> first + of_nat j \<le> lst"
    using 0 first unfolding m_def by (simp add: u64_nat)
  then show ?case
    using 0 by (intro exI [of _ j]) (auto simp: entriesBatch_loop.simps m_def)
next
  case (Suc d)
  let ?i = "first + of_nat j"
  have b: "unat first + j < 2 ^ 64"
    using Suc.prems lst first log_ok_bound [OF ok] log_ok_last [OF ok] unfolding m_def by (simp add: u64_nat)
  then have i: "unat ?i = unat first + j" by (rule unat_add_of_nat)
  have jm: "j < m" using Suc.hyps(2) by linarith
  have range: "n_logBaseIndex n < ?i" "?i \<le> n_lastLogIndex n" "?i \<le> lst"
    using first lst i jm unfolding m_def by (auto simp: u64_nat)
  have len: "j < length xs"
    using jm first lst log_ok_last [OF ok] unfolding m_def xs_def by (simp add: u64_nat)
  have entry: "go_index (n_log n) (?i - n_logBaseIndex n - 1) = Some (xs ! j)"
    using range(1,2) len first log_ok_last [OF ok] i
    by (simp add: go_index_log [OF ok] entryAt_def xs_def u64_nat)
  have step: "batchBytes (take (Suc j) xs) = batchBytes (take j xs) + entryBytes (xs ! j)"
    using len by (simp add: batchBytes_def take_Suc_conv_app_nth)
  have ge: "first \<le> ?i - 1 \<longleftrightarrow> 0 < j"
  proof -
    have "0 < ?i" using range(1) by (rule word_pos_if_less)
    then have "unat (?i - 1) = unat first + j - 1" using i by (simp add: unat_minus_one_pos)
    moreover have "0 < unat first" using first(1) by (simp add: u64_nat)
    ultimately show ?thesis by (auto simp: u64_nat)
  qed
  show ?case
  proof (cases "batchBytes (take (Suc j) xs) > maxAppendEntriesBytes \<and> 0 < j")
    case True
    then have "entriesBatch_loop n first lst ?i (batchBytes (take j xs)) (?i - 1) = Some (?i - 1)"
      using range(3) entry ge step
      by (subst entriesBatch_loop.simps) (simp add: entryBytes_def add.assoc)
    then show ?thesis using True Suc.prems by (intro exI [of _ j]) auto
  next
    case False
    then have "entriesBatch_loop n first lst ?i (batchBytes (take j xs)) (?i - 1) =
        entriesBatch_loop n first lst (first + of_nat (Suc j)) (batchBytes (take (Suc j) xs))
          (first + of_nat (Suc j) - 1)"
      using range(3) entry ge step
      by (subst entriesBatch_loop.simps) (auto simp: entryBytes_def add.assoc add.commute add.left_commute)
    moreover have "Suc j \<le> 1 \<or> batchBytes (take (Suc j) xs) \<le> maxAppendEntriesBytes"
      using False by auto
    ultimately show ?thesis using Suc.hyps(1) [of "Suc j"] Suc.hyps(2) jm by simp
  qed
qed

text \<open>A batch is a non-empty run of the log from \<^verbatim>\<open>first\<close>, cut at the byte limit unless it is a
  single entry.\<close>

lemma entriesBatch_spec:
  assumes ok: "log_ok n" and first: "n_logBaseIndex n < first" "first \<le> lst" and lst: "lst \<le> n_lastLogIndex n"
  obtains j where "0 < j" "j \<le> unat lst - unat first + 1"
    "entriesBatch n first lst = Some (take j (drop (unat first - unat (n_logBaseIndex n) - 1) (n_log n)))"
    "j \<le> 1 \<or> batchBytes (take j (drop (unat first - unat (n_logBaseIndex n) - 1) (n_log n)))
       \<le> maxAppendEntriesBytes"
proof -
  define s where "s = unat first - unat (n_logBaseIndex n) - 1"
  from entriesBatch_loop_spec [OF ok first lst, of 0] obtain j where
    loop: "entriesBatch_loop n first lst first 0 (first - 1) = Some (first + of_nat j - 1)"
    and j: "0 < j" "j \<le> unat lst - unat first + 1"
      "j \<le> 1 \<or> batchBytes (take j (drop s (n_log n))) \<le> maxAppendEntriesBytes"
    by (auto simp: batchBytes_def s_def)
  have l: "unat lst \<le> unat (n_logBaseIndex n) + length (n_log n)"
    using lst log_ok_last [OF ok] by (simp add: u64_nat)
  have start: "unat (first - n_logBaseIndex n - 1) = s"
    unfolding s_def by (rule offset_unat [OF first(1)]) (use first lst in auto)
  have f: "unat (n_logBaseIndex n) < unat first" "unat first \<le> unat lst" using first by (auto simp: u64_nat)
  have "unat (first + of_nat j) = unat first + j"
    using j(2) f l log_ok_bound [OF ok] by (intro unat_add_of_nat) linarith
  then have e: "unat (first + of_nat j - 1) = unat first + j - 1"
    using j(1) by (subst unat_minus_one_pos) (auto simp: word_gt_0 dest!: arg_cong [where f = unat])
  have "n_logBaseIndex n \<le> first + of_nat j - 1"
    using e f j(1) by (simp add: u64_nat)
  then have stop: "unat (first + of_nat j - 1 - n_logBaseIndex n) = s + j"
    using e f j(1) by (simp add: unat_sub_le s_def)
  have "go_slice (n_log n) (first - n_logBaseIndex n - 1) (first + of_nat j - 1 - n_logBaseIndex n)
      = Some (take j (drop s (n_log n)))"
  proof -
    have "s + j \<le> length (n_log n)" using j(2) l f unfolding s_def by linarith
    then show ?thesis using start stop by (simp add: go_slice_def u64_nat take_drop add.commute)
  qed
  moreover have "first \<noteq> 0" using first(1) by auto
  ultimately have "entriesBatch n first lst = Some (take j (drop s (n_log n)))"
    using first lst loop by (auto simp: entriesBatch_def not_le not_less)
  with j that show ?thesis unfolding s_def by blast
qed

lemma entriesBatch_ex: "log_ok n \<Longrightarrow> \<exists>es. entriesBatch n first lst = Some es"
proof (cases "first = 0 \<or> first > lst \<or> lst > n_lastLogIndex n \<or> first \<le> n_logBaseIndex n")
  case True
  then show ?thesis by (auto simp: entriesBatch_def)
next
  case False
  assume "log_ok n"
  with False show ?thesis by (auto simp: not_le not_less elim: entriesBatch_spec)
qed

lemma conflictHint_loop_ex: "log_ok n \<Longrightarrow> \<exists>r. conflictHint_loop n t first = Some r"
proof (induction n t first rule: conflictHint_loop.induct)
  case (1 n t first)
  obtain t' where "termAt n (first - 1) = Some t'" using termAt_ex "1.prems" by blast
  then show ?case
    using "1.IH" "1.prems" by (subst conflictHint_loop.simps) auto
qed

lemma conflictHint_ex: "log_ok n \<Longrightarrow> \<exists>t first. conflictHint n index = Some (t, first)"
proof -
  assume ok: "log_ok n"
  obtain t where t: "termAt n index = Some t" using termAt_ex [OF ok] by blast
  obtain r where "conflictHint_loop n t index = Some r" using conflictHint_loop_ex [OF ok] by blast
  with t show ?thesis by (simp add: conflictHint_def)
qed

lemma conflictHint_loop_spec:
  assumes "log_ok n" and "n_logBaseIndex n < first" and "first \<le> n_lastLogIndex n"
    and "termAt n first = Some t" and "conflictHint_loop n t first = Some r"
  shows "n_logBaseIndex n < r \<and> r \<le> first \<and> (\<forall>k. r \<le> k \<and> k \<le> first \<longrightarrow> termAt n k = Some t) \<and>
    (r = n_logBaseIndex n + 1 \<or> termAt n (r - 1) \<noteq> Some t)"
  using assms
proof (induction n t first rule: conflictHint_loop.induct)
  case (1 n t first)
  have b1: "unat (n_logBaseIndex n + 1) = unat (n_logBaseIndex n) + 1"
    using "1.prems"(2) by simp
  show ?case
  proof (cases "n_logBaseIndex n + 1 < first \<and> termAt n (first - 1) = Some t")
    case False
    then have r: "r = first"
      using "1.prems"(5) termAt_ex [OF "1.prems"(1), of "first - 1"]
      by (subst (asm) conflictHint_loop.simps) (auto split: if_splits)
    moreover have "first = n_logBaseIndex n + 1" if "\<not> n_logBaseIndex n + 1 < first"
      using that "1.prems"(2) b1 by (intro unat_inj_u64) (simp add: u64_nat)
    ultimately show ?thesis using False "1.prems" by auto
  next
    case True
    then have rec: "conflictHint_loop n t (first - 1) = Some r"
      using "1.prems"(5) by (subst (asm) conflictHint_loop.simps) simp
    have u: "unat (first - 1) = unat first - 1"
      using "1.prems"(2) by (simp add: unat_minus_one_pos word_pos_if_less)
    have range: "n_logBaseIndex n < first - 1" "first - 1 \<le> n_lastLogIndex n" "first - 1 \<le> first"
      using True u b1 "1.prems"(3) by (auto simp: u64_nat)
    from "1.IH" [OF _ _ _ "1.prems"(1) range(1,2) _ rec] True
    have IH: "n_logBaseIndex n < r \<and> r \<le> first - 1 \<and>
        (\<forall>k. r \<le> k \<and> k \<le> first - 1 \<longrightarrow> termAt n k = Some t) \<and>
        (r = n_logBaseIndex n + 1 \<or> termAt n (r - 1) \<noteq> Some t)"
      by auto
    have split: "k \<le> first - 1 \<or> k = first" if "k \<le> first" for k
      using u64_le_cases [OF that] "1.prems"(2) word_pos_if_less by blast
    have "termAt n k = Some t" if "r \<le> k" "k \<le> first" for k
      using split [OF that(2)] IH that(1) "1.prems"(4) by blast
    with IH show ?thesis using order_trans [OF _ range(3)] by blast
  qed
qed

lemma nextIndexFromConflict_loop_spec:
  assumes "log_ok n" and "index \<le> n_lastLogIndex n"
  shows "\<exists>r. nextIndexFromConflict_loop n t index = Some r \<and>
    (case r of None \<Rightarrow> \<forall>k. 0 < k \<and> k \<le> index \<longrightarrow> termAt n k \<noteq> Some t
     | Some m \<Rightarrow> 0 < m - 1 \<and> m - 1 \<le> index \<and> termAt n (m - 1) = Some t \<and>
         (\<forall>k. m - 1 < k \<and> k \<le> index \<longrightarrow> termAt n k \<noteq> Some t))"
  using assms
proof (induction n t index rule: nextIndexFromConflict_loop.induct)
  case (1 n t index)
  obtain t' where t': "termAt n index = Some t'" using termAt_ex [OF "1.prems"(1)] by blast
  show ?case
  proof (cases "0 < index \<and> t' \<noteq> t")
    case False
    then show ?thesis
      using t' by (subst nextIndexFromConflict_loop.simps) auto
  next
    case True
    have u: "unat (index - 1) = unat index - 1" using True by (simp add: unat_minus_one_pos)
    have le: "index - 1 \<le> n_lastLogIndex n" "index - 1 \<le> index"
      using u "1.prems"(2) by (auto simp: u64_nat)
    have step: "k \<le> index - 1 \<or> k = index" if "k \<le> index" for k
      using u64_le_cases [OF that] True by blast
    from "1.IH" [OF _ t' _ "1.prems"(1) le(1)] True obtain r where
      r: "nextIndexFromConflict_loop n t (index - 1) = Some r" and
      spec: "case r of None \<Rightarrow> \<forall>k. 0 < k \<and> k \<le> index - 1 \<longrightarrow> termAt n k \<noteq> Some t
       | Some m \<Rightarrow> 0 < m - 1 \<and> m - 1 \<le> index - 1 \<and> termAt n (m - 1) = Some t \<and>
           (\<forall>k. m - 1 < k \<and> k \<le> index - 1 \<longrightarrow> termAt n k \<noteq> Some t)"
      by auto
    have "nextIndexFromConflict_loop n t index = Some r"
      using True t' r by (subst nextIndexFromConflict_loop.simps) simp
    moreover have "case r of None \<Rightarrow> \<forall>k. 0 < k \<and> k \<le> index \<longrightarrow> termAt n k \<noteq> Some t
       | Some m \<Rightarrow> 0 < m - 1 \<and> m - 1 \<le> index \<and> termAt n (m - 1) = Some t \<and>
           (\<forall>k. m - 1 < k \<and> k \<le> index \<longrightarrow> termAt n k \<noteq> Some t)"
      using spec step order_trans [OF _ le(2)] t' True by (cases r) (auto dest!: step)
    ultimately show ?thesis by blast
  qed
qed

lemma nextIndexFromConflict_range:
  assumes ok: "log_ok n"
  shows "\<exists>r. nextIndexFromConflict n response = Some r \<and> 0 < r \<and> r \<le> n_lastLogIndex n + 1"
proof -
  obtain found where "nextIndexFromConflict_loop n (ar_ConflictTerm response) (n_lastLogIndex n) = Some found"
    using nextIndexFromConflict_loop_spec [OF ok order_refl] by blast
  moreover have "0 < n_lastLogIndex n + 1"
    using unat_plus_one_max [OF log_ok_last_not_max [OF ok]] by (simp add: u64_nat)
  ultimately show ?thesis
    by (cases found) (auto simp: nextIndexFromConflict_def word_gt_0 min_def Let_def)
qed

text \<open>What \<^verbatim>\<open>entriesToAppend\<close> returns: a suffix of the request whose earlier entries are all in the
  log with the same Term, starting right after the log or at the first conflict above the commit
  index.\<close>

definition appendable :: "Node \<Rightarrow> u64 \<Rightarrow> LogEntry list \<Rightarrow> nat \<Rightarrow> LogEntry list \<Rightarrow> u64 \<Rightarrow> bool" where
  "appendable n want entries k new from \<longleftrightarrow>
     k \<le> length entries \<and> new = drop k entries \<and>
     (\<forall>i<k. e_Index (entries ! i) = want + of_nat i \<and> e_Index (entries ! i) \<le> n_lastLogIndex n \<and>
        termAt n (e_Index (entries ! i)) = Some (e_Term (entries ! i))) \<and>
     (new \<noteq> [] \<longrightarrow> e_Index (hd new) = want + of_nat k) \<and>
     (if from = 0 then new = [] \<or> e_Index (hd new) = n_lastLogIndex n + 1
      else new \<noteq> [] \<and> from = e_Index (hd new) \<and> n_commitIndex n < from \<and> from \<le> n_lastLogIndex n \<and>
        termAt n from \<noteq> Some (e_Term (hd new)))"

lemma entriesToAppend_loop_ex: "log_ok n \<Longrightarrow> \<exists>r. entriesToAppend_loop n w es = Some r"
proof (induction es arbitrary: w)
  case (Cons e es)
  obtain t where t: "termAt n (e_Index e) = Some t" using termAt_ex Cons.prems by blast
  obtain r where r: "entriesToAppend_loop n (w + 1) es = Some r" using Cons by blast
  show ?case
    using t r by (cases "e_Index e = w"; cases "e_Index e \<le> n_lastLogIndex n"; cases "t = e_Term e") simp_all
qed simp

lemma appendable_Cons:
  assumes "appendable n (want + 1) es k new from" and "e_Index e = want"
    and "e_Index e \<le> n_lastLogIndex n" and "termAt n (e_Index e) = Some (e_Term e)"
  shows "appendable n want (e # es) (Suc k) new from"
proof -
  have "\<forall>i<Suc k. e_Index ((e # es) ! i) = want + of_nat i \<and> e_Index ((e # es) ! i) \<le> n_lastLogIndex n \<and>
        termAt n (e_Index ((e # es) ! i)) = Some (e_Term ((e # es) ! i))"
    using assms by (auto simp: appendable_def less_Suc_eq_0_disj add.assoc)
  moreover have "new \<noteq> [] \<longrightarrow> e_Index (hd new) = want + of_nat (Suc k)"
    using assms by (auto simp: appendable_def add.assoc)
  ultimately show ?thesis using assms by (auto simp: appendable_def split: if_splits)
qed

lemma entriesToAppend_loop_spec:
  assumes "entriesToAppend_loop n want entries = Some (Some (new, from))"
  shows "\<exists>k. appendable n want entries k new from"
  using assms
proof (induction entries arbitrary: want)
  case Nil
  then have "appendable n want [] 0 new from" by (simp add: appendable_def)
  then show ?case ..
next
  case (Cons e es)
  show ?case
  proof (cases "e_Index e \<le> n_lastLogIndex n \<and> termAt n (e_Index e) = Some (e_Term e)")
    case True
    then have idx: "e_Index e = want" and rec: "entriesToAppend_loop n (want + 1) es = Some (Some (new, from))"
      using Cons.prems by (auto split: if_splits)
    from Cons.IH [OF rec] obtain k where "appendable n (want + 1) es k new from" ..
    with True idx show ?thesis by (blast intro: appendable_Cons)
  next
    case False
    then have "appendable n want (e # es) 0 new from"
      using Cons.prems
      by (auto simp: appendable_def Option.bind_eq_Some_conv not_le split: if_splits)
    then show ?thesis ..
  qed
qed

end
