(* ===== verification/Raft_Core.thy ===== *)
theory Raft_Core
  imports Raft_Log
begin

text \<open>
  The deterministic consensus state machine of \<^verbatim>\<open>src/internal/raft/raft.go\<close>: one definition per
  method, in the order of the file where definitions allow it. A method that mutates \<^verbatim>\<open>n\<close> returns
  the new Node with the actions it emits; a method that can reach an index expression returns an
  option whose \<open>None\<close> is the run-time panic.
\<close>

subsection \<open>Small helpers\<close>

definition quorum :: "Node \<Rightarrow> nat" where
  "quorum n = (length (n_peers n) + 1) div 2 + 1"

definition voteIsDurable :: "Node \<Rightarrow> NodeID \<Rightarrow> bool" where
  "voteIsDurable n candidate \<longleftrightarrow> n_durableTerm n = n_term n \<and> n_durableVotedFor n = candidate"

definition voteResponse :: "Node \<Rightarrow> NodeID \<Rightarrow> bool \<Rightarrow> Action list" where
  "voteResponse n to granted =
     [SendVoteResponse to \<lparr>vr_From = n_id n, vr_Term = n_term n, vr_Granted = granted\<rparr>]"

definition appendEntriesResponse ::
  "Node \<Rightarrow> NodeID \<Rightarrow> u64 \<Rightarrow> bool \<Rightarrow> u64 \<Rightarrow> u64 \<Rightarrow> u64 \<Rightarrow> ReadID \<Rightarrow> Action list" where
  "appendEntriesResponse n to requestID success matchIndex conflictTerm conflictIndex readID =
     [SendAppendEntriesResponse to
       \<lparr>ar_From = n_id n, ar_Term = n_term n, ar_RequestID = requestID, ar_Success = success,
        ar_MatchIndex = matchIndex, ar_ConflictTerm = conflictTerm, ar_ConflictIndex = conflictIndex,
        ar_ReadID = readID\<rparr>]"

definition snapshotResponse :: "Node \<Rightarrow> InstallSnapshot \<Rightarrow> bool \<Rightarrow> u64 \<Rightarrow> bool \<Rightarrow> Action list" where
  "snapshotResponse n request success nextOffset done =
     [SendInstallSnapshotResponse (is_From request)
       \<lparr>ir_From = n_id n, ir_Term = n_term n, ir_RequestID = is_RequestID request,
        ir_SnapshotIndex = is_SnapshotIndex request, ir_Success = success,
        ir_NextOffset = nextOffset, ir_Done = done\<rparr>]"

definition persistHardState :: "Node \<Rightarrow> Action list \<Rightarrow> Node \<times> Action list" where
  "persistHardState n after =
     (let pid = n_nextHardStatePersistence n + 1;
          pending = \<lparr>ph_term = n_term n, ph_votedFor = n_votedFor n, ph_after = after\<rparr>
      in (n\<lparr>n_nextHardStatePersistence := pid,
            n_pendingHardState := (n_pendingHardState n)(pid \<mapsto> pending)\<rparr>,
          [PersistHardState pid (n_term n) (n_votedFor n)]))"

definition persistLog :: "Node \<Rightarrow> LogEntry list \<Rightarrow> pendingLogPersistence \<Rightarrow> Node \<times> Action list" where
  "persistLog n entries pending =
     (let pid = n_nextLogPersistence n + 1
      in (n\<lparr>n_nextLogPersistence := pid, n_pendingLog := (n_pendingLog n)(pid \<mapsto> pending)\<rparr>,
          [PersistLogEntries pid (pl_truncateFrom pending) (cloneLogEntries entries)]))"

definition persistCommit :: "Node \<Rightarrow> Action list \<Rightarrow> Node \<times> Action list" where
  "persistCommit n after =
     (let pid = n_nextCommitPersistence n + 1;
          pending = \<lparr>pc_commitIndex = n_commitIndex n, pc_after = after\<rparr>
      in (n\<lparr>n_nextCommitPersistence := pid, n_pendingCommit := (n_pendingCommit n)(pid \<mapsto> pending)\<rparr>,
          [PersistCommitIndex pid (n_commitIndex n)]))"

definition becomeFollower :: "Node \<Rightarrow> u64 \<Rightarrow> NodeID \<Rightarrow> Node" where
  "becomeFollower n trm leader =
     (let n = (if trm > n_term n then n\<lparr>n_votedFor := ''''\<rparr> else n)
      in n\<lparr>n_role := Follower, n_term := trm, n_leaderID := leader,
           n_recentLeaderContact := (leader \<noteq> ''''),
           n_votes := {}, n_preVotes := {}, n_activePeers := {},
           n_matchIndex := Map.empty, n_nextIndex := Map.empty,
           n_appendInFlight := Map.empty, n_snapshotInFlight := Map.empty,
           n_pendingReads := [], n_readReady := False\<rparr>)"

subsection \<open>Construction\<close>

definition NewNodeFromRecoveredState :: "NodeID \<Rightarrow> NodeID list \<Rightarrow> RecoveredState \<Rightarrow> Node option" where
  "NewNodeFromRecoveredState nid peers recovered =
     do {
       recovered \<leftarrow>
         (case rs_Log recovered of
            [] \<Rightarrow> Some recovered
          | first # _ \<Rightarrow>
              if rs_SnapshotIndex recovered > 0 \<and> e_Index first = 1 \<and>
                 rs_SnapshotIndex recovered \<le> of_nat (length (rs_Log recovered))
              then do {
                recovered \<leftarrow>
                  (if rs_SnapshotTerm recovered = 0
                   then do {
                     entry \<leftarrow> go_index (rs_Log recovered) (rs_SnapshotIndex recovered - 1);
                     Some (recovered\<lparr>rs_SnapshotTerm := e_Term entry\<rparr>) }
                   else Some recovered);
                log' \<leftarrow> go_from (rs_Log recovered) (rs_SnapshotIndex recovered);
                Some (recovered\<lparr>rs_Log := log'\<rparr>) }
              else Some recovered);
       let orderedPeers = sort peers;
       let node =
         \<lparr>n_id = nid, n_peers = orderedPeers, n_role = Follower,
          n_term = hs_Term (rs_HardState recovered), n_votedFor = hs_VotedFor (rs_HardState recovered),
          n_leaderID = '''', n_lastLogIndex = rs_SnapshotIndex recovered,
          n_lastLogTerm = rs_SnapshotTerm recovered, n_durableLogIndex = rs_SnapshotIndex recovered,
          n_logBaseIndex = rs_SnapshotIndex recovered, n_logBaseTerm = rs_SnapshotTerm recovered,
          n_log = [], n_commitIndex = rs_CommitIndex recovered,
          n_lastApplied = rs_SnapshotIndex recovered, n_readReady = False,
          n_votes = {}, n_preVotes = {}, n_activePeers = {},
          n_matchIndex = Map.empty, n_nextIndex = Map.empty, n_appendInFlight = Map.empty,
          n_snapshotInFlight = Map.empty, n_nextRequestID = 0, n_pendingReads = [],
          n_recentLeaderContact = False, n_durableTerm = hs_Term (rs_HardState recovered),
          n_durableVotedFor = hs_VotedFor (rs_HardState recovered),
          n_nextHardStatePersistence = 0, n_pendingHardState = Map.empty,
          n_nextLogPersistence = 0, n_pendingLog = Map.empty,
          n_durableCommitIndex = rs_CommitIndex recovered,
          n_nextCommitPersistence = 0, n_pendingCommit = Map.empty\<rparr>;
       Some (if rs_Log recovered \<noteq> []
             then node\<lparr>n_log := cloneLogEntries (rs_Log recovered),
                       n_lastLogIndex := e_Index (last (rs_Log recovered)),
                       n_lastLogTerm := e_Term (last (rs_Log recovered)),
                       n_durableLogIndex := e_Index (last (rs_Log recovered))\<rparr>
             else node) }"

definition NewNodeWithLog :: "NodeID \<Rightarrow> NodeID list \<Rightarrow> HardState \<Rightarrow> LogEntry list \<Rightarrow> Node option" where
  "NewNodeWithLog nid peers hardState entries =
     NewNodeFromRecoveredState nid peers
       \<lparr>rs_HardState = hardState, rs_Log = entries, rs_CommitIndex = 0, rs_SnapshotIndex = 0,
        rs_SnapshotTerm = 0\<rparr>"

definition NewNodeWithHardState :: "NodeID \<Rightarrow> NodeID list \<Rightarrow> HardState \<Rightarrow> Node option" where
  "NewNodeWithHardState nid peers hardState = NewNodeWithLog nid peers hardState []"

definition NewNode :: "NodeID \<Rightarrow> NodeID list \<Rightarrow> Node option" where
  "NewNode nid peers = NewNodeWithHardState nid peers \<lparr>hs_Term = 0, hs_VotedFor = ''''\<rparr>"

definition StateOf :: "Node \<Rightarrow> State option" where
  "StateOf n =
     do {
       lastAppliedTerm \<leftarrow> (if n_lastApplied n > 0 then termAt n (n_lastApplied n) else Some 0);
       Some \<lparr>st_ID = n_id n, st_Role = n_role n, st_Term = n_term n, st_VotedFor = n_votedFor n,
             st_LeaderID = n_leaderID n, st_LastLogIndex = n_lastLogIndex n,
             st_LastLogTerm = n_lastLogTerm n, st_CommitIndex = n_commitIndex n,
             st_LastApplied = n_lastApplied n, st_LastAppliedTerm = lastAppliedTerm,
             st_SnapshotIndex = n_logBaseIndex n, st_ReadReady = n_readReady n\<rparr> }"

subsection \<open>Reads\<close>

definition pendingReadFor :: "Node \<Rightarrow> NodeID \<Rightarrow> ReadID" where
  "pendingReadFor n peer =
     (let readIDs = sort (map fst (filter (\<lambda>(_, read). peer \<notin> pr_acknowledgements read) (n_pendingReads n)))
      in case readIDs of [] \<Rightarrow> 0 | readID # _ \<Rightarrow> readID)"

text \<open>The loop of \<^verbatim>\<open>completeReads\<close> over the sorted identifiers; a missing identifier would be a nil
  dereference.\<close>

fun completeReads_loop :: "ReadID list \<Rightarrow> Node \<Rightarrow> (Node \<times> Action list) option" where
  "completeReads_loop [] n = Some (n, [])"
| "completeReads_loop (readID # rest) n =
     (case map_of (n_pendingReads n) readID of
        None \<Rightarrow> None
      | Some read \<Rightarrow>
          if \<not> pr_confirmed read \<or> n_lastApplied n < pr_commitIndex read
          then completeReads_loop rest n
          else do {
            (n', as) \<leftarrow> completeReads_loop rest
              (n\<lparr>n_pendingReads := AList.delete readID (n_pendingReads n)\<rparr>);
            Some (n', ReadConfirmed readID (pr_commitIndex read) # as) })"

definition completeReads :: "Node \<Rightarrow> (Node \<times> Action list) option" where
  "completeReads n = completeReads_loop (sort (map fst (n_pendingReads n))) n"

definition acknowledgeRead :: "Node \<Rightarrow> AppendEntriesResponse \<Rightarrow> (Node \<times> Action list) option" where
  "acknowledgeRead n response =
     (if ar_ReadID response = 0 then Some (n, [])
      else case map_of (n_pendingReads n) (ar_ReadID response) of
        None \<Rightarrow> Some (n, [])
      | Some read \<Rightarrow>
          if pr_confirmed read then Some (n, [])
          else
            let read = read\<lparr>pr_acknowledgements := insert (ar_From response) (pr_acknowledgements read)\<rparr>
            in if card (pr_acknowledgements read) < quorum n
               then Some (n\<lparr>n_pendingReads := AList.update (ar_ReadID response) read (n_pendingReads n)\<rparr>, [])
               else completeReads
                 (n\<lparr>n_pendingReads := AList.update (ar_ReadID response)
                      (read\<lparr>pr_confirmed := True, pr_commitIndex := n_commitIndex n\<rparr>) (n_pendingReads n)\<rparr>))"

subsection \<open>Applying and committing\<close>

text \<open>The loop of \<^verbatim>\<open>applyThrough\<close>.\<close>

function applyLoop :: "u64 \<Rightarrow> Node \<Rightarrow> (Node \<times> Action list) option" where
  "applyLoop index n =
     (if n_lastApplied n < index
      then do {
        entry \<leftarrow> go_index (n_log n) (n_lastApplied n + 1 - n_logBaseIndex n - 1);
        let becameReady = (n_role n = Leader \<and> \<not> n_readReady n \<and> e_Type entry = EntryNoOp \<and>
                           e_Term entry = n_term n);
        (n', as) \<leftarrow> applyLoop index
          (n\<lparr>n_lastApplied := n_lastApplied n + 1, n_readReady := n_readReady n \<or> becameReady\<rparr>);
        Some (n', ApplyEntry entry # (if becameReady then [BecameReadReady (n_term n)] else []) @ as) }
      else Some (n, []))"
  by pat_completeness auto
termination
  by (relation "measure (\<lambda>(index, n). unat index - unat (n_lastApplied n))")
     (auto simp: word_less_nat_alt)

declare applyLoop.simps [simp del]

definition applyThrough :: "Node \<Rightarrow> u64 \<Rightarrow> (Node \<times> Action list) option" where
  "applyThrough n index =
     (if index \<le> n_lastApplied n then completeReads n
      else do {
        (n1, as1) \<leftarrow> applyLoop index n;
        (n2, as2) \<leftarrow> completeReads n1;
        Some (n2, as1 @ as2) })"

definition advanceFollowerCommit :: "Node \<Rightarrow> u64 \<Rightarrow> Action list \<Rightarrow> (Node \<times> Action list) option" where
  "advanceFollowerCommit n leaderCommit after =
     (let target = min leaderCommit (n_lastLogIndex n)
      in if target > n_commitIndex n
         then Some (persistCommit (n\<lparr>n_commitIndex := target\<rparr>) after)
         else do {
           (n', as) \<leftarrow> applyThrough n (n_durableCommitIndex n);
           Some (n', as @ after) })"

text \<open>The loop of \<^verbatim>\<open>advanceLeaderCommit\<close>: the new commit index, or none.\<close>

function advanceLeaderCommit_loop :: "Node \<Rightarrow> u64 \<Rightarrow> u64 option option" where
  "advanceLeaderCommit_loop n index =
     (if index > n_commitIndex n
      then do {
        t \<leftarrow> termAt n index;
        let replicated = 1 + length (filter (\<lambda>peer. map_get (n_matchIndex n) peer \<ge> index) (n_peers n));
        if t = n_term n \<and> replicated \<ge> quorum n then Some (Some index)
        else advanceLeaderCommit_loop n (index - 1) }
      else Some None)"
  by pat_completeness auto
termination
proof (relation "measure (\<lambda>(n, index). unat index)", goal_cases)
  case (2 n index)
  then have "0 < index" by (auto intro: word_pos_if_less)
  then show ?case by (simp add: unat_minus_one_pos unat_gt_0)
qed simp

declare advanceLeaderCommit_loop.simps [simp del]

definition advanceLeaderCommit :: "Node \<Rightarrow> (Node \<times> bool) option" where
  "advanceLeaderCommit n =
     do {
       found \<leftarrow> advanceLeaderCommit_loop n (n_lastLogIndex n);
       Some (case found of Some index \<Rightarrow> (n\<lparr>n_commitIndex := index\<rparr>, True) | None \<Rightarrow> (n, False)) }"

subsection \<open>Sending\<close>

definition appendInFlightOf :: "Node \<Rightarrow> NodeID \<Rightarrow> pendingAppend" where
  "appendInFlightOf n peer = (case n_appendInFlight n peer of None \<Rightarrow> (0, 0) | Some p \<Rightarrow> p)"

definition sendAppendEntriesTo :: "Node \<Rightarrow> NodeID \<Rightarrow> ReadID \<Rightarrow> (Node \<times> Action list) option" where
  "sendAppendEntriesTo n peer readID =
     (if fst (appendInFlightOf n peer) \<noteq> 0 then Some (n, [])
      else
        let durableLastIndex = min (n_durableLogIndex n) (n_lastLogIndex n);
            nextIndex = map_get (n_nextIndex n) peer;
            nextIndex = (if nextIndex = 0 \<or> nextIndex > durableLastIndex + 1
                         then durableLastIndex + 1 else nextIndex)
        in if nextIndex \<le> n_logBaseIndex n
           then
             if map_get (n_snapshotInFlight n) peer \<noteq> 0 then Some (n, [])
             else
               let requestID = n_nextRequestID n + 1
               in Some (n\<lparr>n_nextRequestID := requestID,
                          n_snapshotInFlight := (n_snapshotInFlight n)(peer \<mapsto> requestID)\<rparr>,
                        [ActSendInstallSnapshot
                          \<lparr>sis_To = peer, sis_Term = n_term n, sis_RequestID = requestID,
                           sis_SnapshotIndex = n_logBaseIndex n, sis_SnapshotTerm = n_logBaseTerm n,
                           sis_Offset = 0\<rparr>])
           else do {
             let prevIndex = nextIndex - 1;
             let requestID = n_nextRequestID n + 1;
             prevTerm \<leftarrow> termAt n prevIndex;
             entries \<leftarrow> entriesBatch n nextIndex durableLastIndex;
             let request = \<lparr>ae_From = n_id n, ae_Term = n_term n, ae_RequestID = requestID,
                            ae_PrevLogIndex = prevIndex, ae_PrevLogTerm = prevTerm,
                            ae_Entries = entries, ae_LeaderCommit = n_commitIndex n,
                            ae_ReadID = readID\<rparr>;
             Some (n\<lparr>n_nextRequestID := requestID,
                     n_appendInFlight := (n_appendInFlight n)(peer \<mapsto> (requestID, n_commitIndex n))\<rparr>,
                   [SendAppendEntries peer request]) })"

definition sendAppendEntries :: "Node \<Rightarrow> ReadID \<Rightarrow> (Node \<times> Action list) option" where
  "sendAppendEntries n readID =
     for_each
       (\<lambda>peer n. sendAppendEntriesTo n peer (if readID = 0 then pendingReadFor n peer else readID))
       (n_peers n) n"

subsection \<open>Elections\<close>

definition startElection :: "Node \<Rightarrow> Node \<times> Action list" where
  "startElection n =
     (let n = n\<lparr>n_role := Candidate, n_term := n_term n + 1, n_votedFor := n_id n, n_leaderID := '''',
                n_readReady := False, n_votes := {n_id n}\<rparr>;
          after = ResetElectionTimer #
            map (\<lambda>peer. SendVoteRequest peer
                   \<lparr>vq_From = n_id n, vq_Term = n_term n, vq_LastLogIndex = n_lastLogIndex n,
                    vq_LastLogTerm = n_lastLogTerm n\<rparr>) (n_peers n)
      in persistHardState n after)"

definition startPreVote :: "Node \<Rightarrow> Node \<times> Action list" where
  "startPreVote n =
     (if n_role n = Leader then (n, [])
      else
        let n = n\<lparr>n_recentLeaderContact := False, n_leaderID := '''', n_role := PreCandidate,
                  n_preVotes := {n_id n}\<rparr>;
            trm = n_term n + 1;
            actions = ResetElectionTimer #
              map (\<lambda>peer. SendPreVoteRequest peer
                     \<lparr>pvq_From = n_id n, pvq_Term = trm, pvq_LastLogIndex = n_lastLogIndex n,
                      pvq_LastLogTerm = n_lastLogTerm n\<rparr>) (n_peers n)
        in if quorum n = 1
           then (let (n', as) = startElection n in (n', actions @ as))
           else (n, actions))"

definition handlePreVoteRequest :: "Node \<Rightarrow> PreVoteRequest \<Rightarrow> Node \<times> Action list" where
  "handlePreVoteRequest n request =
     (let grant = (pvq_Term request \<ge> n_term n + 1 \<and> \<not> n_recentLeaderContact n \<and>
                   candidateLogIsUpToDate n (pvq_LastLogTerm request) (pvq_LastLogIndex request))
      in (n, [SendPreVoteResponse (pvq_From request)
               \<lparr>pvr_From = n_id n, pvr_Term = pvq_Term request, pvr_CurrentTerm = n_term n,
                pvr_Granted = grant\<rparr>]))"

definition handlePreVoteResponse :: "Node \<Rightarrow> PreVoteResponse \<Rightarrow> Node \<times> Action list" where
  "handlePreVoteResponse n response =
     (if pvr_CurrentTerm response > n_term n
      then persistHardState (becomeFollower n (pvr_CurrentTerm response) '''') []
      else if n_role n \<noteq> PreCandidate \<or> pvr_Term response \<noteq> n_term n + 1 \<or> \<not> pvr_Granted response
      then (n, [])
      else
        let n = n\<lparr>n_preVotes := insert (pvr_From response) (n_preVotes n)\<rparr>
        in if card (n_preVotes n) < quorum n then (n, []) else startElection n)"

definition handleVoteRequest :: "Node \<Rightarrow> VoteRequest \<Rightarrow> Node \<times> Action list" where
  "handleVoteRequest n request =
     (if vq_Term request < n_term n then (n, voteResponse n (vq_From request) False)
      else
        let termChanged = (vq_Term request > n_term n);
            n = (if termChanged then becomeFollower n (vq_Term request) '''' else n);
            canVote = (n_votedFor n = '''' \<or> n_votedFor n = vq_From request);
            grant = (canVote \<and>
              candidateLogIsUpToDate n (vq_LastLogTerm request) (vq_LastLogIndex request));
            n = (if grant then n\<lparr>n_votedFor := vq_From request\<rparr> else n);
            response = voteResponse n (vq_From request) grant
        in if termChanged \<or> (grant \<and> \<not> voteIsDurable n (vq_From request))
           then persistHardState n response
           else (n, response))"

definition handleVoteResponse :: "Node \<Rightarrow> VoteResponse \<Rightarrow> (Node \<times> Action list) option" where
  "handleVoteResponse n response =
     (if vr_Term response > n_term n
      then Some (persistHardState (becomeFollower n (vr_Term response) '''') [])
      else if n_role n \<noteq> Candidate \<or> vr_Term response \<noteq> n_term n \<or> \<not> vr_Granted response
      then Some (n, [])
      else
        let n = n\<lparr>n_votes := insert (vr_From response) (n_votes n)\<rparr>
        in if card (n_votes n) < quorum n then Some (n, [])
           else do {
             let n = n\<lparr>n_role := Leader, n_leaderID := n_id n, n_activePeers := {},
                       n_matchIndex := Map.empty, n_nextIndex := Map.empty,
                       n_appendInFlight := Map.empty, n_snapshotInFlight := Map.empty,
                       n_readReady := False\<rparr>;
             let entry = \<lparr>e_Index = n_lastLogIndex n + 1, e_Term = n_term n, e_Type = EntryNoOp,
                          e_SessionID = zeroSessionID, e_Sequence = 0, e_Key = '''', e_Value = []\<rparr>;
             n \<leftarrow> appendEntries n [entry];
             let n = n\<lparr>n_nextIndex :=
               (\<lambda>peer. if peer \<in> set (n_peers n) then Some (n_lastLogIndex n + 1) else n_nextIndex n peer)\<rparr>;
             let (n, as) = persistLog n [entry]
               \<lparr>pl_purpose = persistLeaderEntry, pl_term = n_term n, pl_leader = '''', pl_requestID = 0,
                pl_truncateFrom = 0, pl_lastIndex = e_Index entry, pl_leaderCommit = 0, pl_readID = 0\<rparr>;
             Some (n, [BecameLeader (n_term n), ResetHeartbeatTimer, ResetCheckQuorumTimer] @ as) })"

subsection \<open>Proposals and reads\<close>

text \<open>The part the three proposal handlers share: append the entry and persist it.\<close>

definition proposeEntry :: "Node \<Rightarrow> ProposalID \<Rightarrow> LogEntry \<Rightarrow> (Node \<times> Action list) option" where
  "proposeEntry n proposalID entry =
     do {
       n \<leftarrow> appendEntries n [entry];
       let (n, as) = persistLog n [entry]
         \<lparr>pl_purpose = persistLeaderEntry, pl_term = n_term n, pl_leader = '''', pl_requestID = 0,
          pl_truncateFrom = 0, pl_lastIndex = e_Index entry, pl_leaderCommit = 0, pl_readID = 0\<rparr>;
       Some (n, ProposalAccepted proposalID (e_Index entry) # as) }"

definition proposeSession :: "Node \<Rightarrow> ProposeSession \<Rightarrow> (Node \<times> Action list) option" where
  "proposeSession n proposal =
     (if n_role n \<noteq> Leader then Some (n, [ProposalRejected (ps_ProposalID proposal) (n_leaderID n)])
      else if ps_Type proposal \<noteq> EntryOpenSession \<and> ps_Type proposal \<noteq> EntryCloseSession then Some (n, [])
      else proposeEntry n (ps_ProposalID proposal)
        \<lparr>e_Index = n_lastLogIndex n + 1, e_Term = n_term n, e_Type = ps_Type proposal,
         e_SessionID = ps_SessionID proposal, e_Sequence = 0, e_Key = '''', e_Value = []\<rparr>)"

definition proposeSet :: "Node \<Rightarrow> ProposeSet \<Rightarrow> (Node \<times> Action list) option" where
  "proposeSet n proposal =
     (if n_role n \<noteq> Leader then Some (n, [ProposalRejected (pset_ProposalID proposal) (n_leaderID n)])
      else proposeEntry n (pset_ProposalID proposal)
        \<lparr>e_Index = n_lastLogIndex n + 1, e_Term = n_term n, e_Type = EntrySet,
         e_SessionID = pset_SessionID proposal, e_Sequence = pset_Sequence proposal,
         e_Key = pset_Key proposal, e_Value = pset_Value proposal\<rparr>)"

definition proposeDelete :: "Node \<Rightarrow> ProposeDelete \<Rightarrow> (Node \<times> Action list) option" where
  "proposeDelete n proposal =
     (if n_role n \<noteq> Leader then Some (n, [ProposalRejected (pdel_ProposalID proposal) (n_leaderID n)])
      else proposeEntry n (pdel_ProposalID proposal)
        \<lparr>e_Index = n_lastLogIndex n + 1, e_Term = n_term n, e_Type = EntryDelete,
         e_SessionID = pdel_SessionID proposal, e_Sequence = pdel_Sequence proposal,
         e_Key = pdel_Key proposal, e_Value = []\<rparr>)"

definition confirmRead :: "Node \<Rightarrow> ReadID \<Rightarrow> (Node \<times> Action list) option" where
  "confirmRead n readID =
     (if n_role n \<noteq> Leader then Some (n, [ReadRejected readID (n_leaderID n)])
      else if \<not> n_readReady n then Some (n, [ReadRejected readID ''''])
      else sendAppendEntries
        (n\<lparr>n_pendingReads := AList.update readID
             \<lparr>pr_acknowledgements = {n_id n}, pr_commitIndex = 0, pr_confirmed = False\<rparr> (n_pendingReads n)\<rparr>)
        readID)"

definition heartbeatRound :: "Node \<Rightarrow> (Node \<times> Action list) option" where
  "heartbeatRound n =
     (if n_role n \<noteq> Leader then Some (n, [])
      else do {
        (n, as) \<leftarrow> sendAppendEntries (n\<lparr>n_appendInFlight := Map.empty\<rparr>) 0;
        Some (n, ResetHeartbeatTimer # as) })"

definition checkQuorum :: "Node \<Rightarrow> Node \<times> Action list" where
  "checkQuorum n =
     (if n_role n \<noteq> Leader then (n, [])
      else if card (n_activePeers n) + 1 < quorum n
      then (becomeFollower n (n_term n) '''', [ResetElectionTimer, LostLeadership (n_term n)])
      else (n\<lparr>n_activePeers := {}\<rparr>, [ResetCheckQuorumTimer]))"

subsection \<open>Replication\<close>

text \<open>How a follower accepts a message of the current Leader: both \<^verbatim>\<open>handleAppendEntries\<close> and
  \<^verbatim>\<open>handleInstallSnapshot\<close> begin with it, once the Term is not stale.\<close>

definition acceptLeader :: "Node \<Rightarrow> u64 \<Rightarrow> NodeID \<Rightarrow> Node" where
  "acceptLeader n trm from =
     (let n = (if trm > n_term n then becomeFollower n trm from
               else n\<lparr>n_role := Follower, n_leaderID := from, n_readReady := False\<rparr>)
      in n\<lparr>n_recentLeaderContact := True\<rparr>)"

text \<open>The end of both handlers: effects wait for the hard state when the Term changed.\<close>

definition afterTermChange :: "bool \<Rightarrow> Node \<Rightarrow> Action list \<Rightarrow> Node \<times> Action list" where
  "afterTermChange termChanged n after = (if termChanged then persistHardState n after else (n, after))"

definition handleAppendEntries :: "Node \<Rightarrow> AppendEntries \<Rightarrow> (Node \<times> Action list) option" where
  "handleAppendEntries n request =
     (if ae_Term request < n_term n
      then Some (n, appendEntriesResponse n (ae_From request) (ae_RequestID request) False
                      (n_lastLogIndex n) 0 0 (ae_ReadID request))
      else do {
        let termChanged = (ae_Term request > n_term n);
        let n = acceptLeader n (ae_Term request) (ae_From request);
        ok \<leftarrow> matches n (ae_PrevLogIndex request) (ae_PrevLogTerm request);
        if \<not> ok
        then do {
          (conflictTerm, conflictIndex) \<leftarrow> conflictHint n (ae_PrevLogIndex request);
          Some (afterTermChange termChanged n
            (ResetElectionTimer # appendEntriesResponse n (ae_From request) (ae_RequestID request) False
               (n_lastLogIndex n) conflictTerm conflictIndex (ae_ReadID request))) }
        else do {
          plan \<leftarrow> entriesToAppend n (ae_PrevLogIndex request) (ae_Entries request);
          (case plan of
             None \<Rightarrow> do {
               (conflictTerm, conflictIndex) \<leftarrow> conflictHint n (ae_PrevLogIndex request + 1);
               Some (afterTermChange termChanged n
                 (ResetElectionTimer # appendEntriesResponse n (ae_From request) (ae_RequestID request) False
                    (n_lastLogIndex n) conflictTerm conflictIndex (ae_ReadID request))) }
           | Some (newEntries, truncateFrom) \<Rightarrow>
               if newEntries \<noteq> []
               then do {
                 n \<leftarrow> (if truncateFrom \<noteq> 0 then truncateLog n truncateFrom else Some n);
                 n \<leftarrow> appendEntries n newEntries;
                 let (n, as) = persistLog n newEntries
                   \<lparr>pl_purpose = persistFollowerAppend, pl_term = ae_Term request,
                    pl_leader = ae_From request, pl_requestID = ae_RequestID request,
                    pl_truncateFrom = truncateFrom, pl_lastIndex = n_lastLogIndex n,
                    pl_leaderCommit = ae_LeaderCommit request, pl_readID = ae_ReadID request\<rparr>;
                 Some (afterTermChange termChanged n (ResetElectionTimer # as)) }
               else if n_lastLogIndex n > n_durableLogIndex n
               then Some (afterTermChange termChanged n [ResetElectionTimer])
               else do {
                 (n, as) \<leftarrow> advanceFollowerCommit n (ae_LeaderCommit request)
                   (appendEntriesResponse n (ae_From request) (ae_RequestID request) True
                      (n_lastLogIndex n) 0 0 (ae_ReadID request));
                 Some (afterTermChange termChanged n (ResetElectionTimer # as)) }) } })"

text \<open>The two halves of \<^verbatim>\<open>handleAppendEntriesResponse\<close> for a response the Leader accepts: recording
  what the follower holds, and, once the commit index was advanced or not, sending what follows.\<close>

definition recordAppendResponse :: "Node \<Rightarrow> AppendEntriesResponse \<Rightarrow> Node option" where
  "recordAppendResponse n response =
     (let from = ar_From response;
          n = n\<lparr>n_appendInFlight := map_delete (n_appendInFlight n) from,
                n_activePeers := insert from (n_activePeers n)\<rparr>
      in if ar_Success response
         then
           let n = (if ar_MatchIndex response > map_get (n_matchIndex n) from
                    then n\<lparr>n_matchIndex := (n_matchIndex n)(from \<mapsto> ar_MatchIndex response)\<rparr>
                    else n)
           in Some (n\<lparr>n_nextIndex := (n_nextIndex n)(from \<mapsto> map_get (n_matchIndex n) from + 1)\<rparr>)
         else do {
           next \<leftarrow> nextIndexFromConflict n response;
           Some (n\<lparr>n_nextIndex := (n_nextIndex n)(from \<mapsto> next)\<rparr>) })"

definition replicateAfterResponse ::
  "Node \<Rightarrow> AppendEntriesResponse \<Rightarrow> pendingAppend \<Rightarrow> bool \<Rightarrow> (Node \<times> Action list) option" where
  "replicateAfterResponse n response pending advanced =
     (if advanced
      then do {
        (n, as) \<leftarrow> sendAppendEntries n 0;
        Some (persistCommit n as) }
      else
        let from = ar_From response;
            readID = pendingReadFor n from;
            durableLastIndex = min (n_durableLogIndex n) (n_lastLogIndex n)
        in if \<not> ar_Success response \<or> map_get (n_nextIndex n) from \<le> durableLastIndex \<or>
              readID \<noteq> 0 \<or> snd pending < n_commitIndex n
           then sendAppendEntriesTo n from readID
           else Some (n, []))"

definition handleAppendEntriesResponse :: "Node \<Rightarrow> AppendEntriesResponse \<Rightarrow> (Node \<times> Action list) option" where
  "handleAppendEntriesResponse n response =
     (if ar_Term response > n_term n
      then Some (persistHardState (becomeFollower n (ar_Term response) '''') [])
      else if n_role n \<noteq> Leader \<or> ar_Term response \<noteq> n_term n then Some (n, [])
      else
        let pending = appendInFlightOf n (ar_From response)
        in if fst pending \<noteq> 0 \<and> ar_RequestID response \<noteq> 0 \<and> ar_RequestID response \<noteq> fst pending
           then Some (n, [])
           else do {
             n \<leftarrow> recordAppendResponse n response;
             (n, advanced) \<leftarrow> advanceLeaderCommit n;
             (n, actions) \<leftarrow> replicateAfterResponse n response pending advanced;
             (n, as) \<leftarrow> acknowledgeRead n response;
             Some (n, actions @ as) })"

definition handleAppendEntriesFailed :: "Node \<Rightarrow> NodeID \<Rightarrow> u64 \<Rightarrow> Node" where
  "handleAppendEntriesFailed n to requestID =
     (let n = (if fst (appendInFlightOf n to) = requestID
               then n\<lparr>n_appendInFlight := map_delete (n_appendInFlight n) to\<rparr> else n)
      in if map_get (n_snapshotInFlight n) to = requestID
         then n\<lparr>n_snapshotInFlight := map_delete (n_snapshotInFlight n) to\<rparr> else n)"

subsection \<open>Snapshots\<close>

text \<open>The branch of \<^verbatim>\<open>handleInstallSnapshot\<close> that moves the log base to a newly installed Snapshot.\<close>

definition installSnapshotLog :: "Node \<Rightarrow> InstallSnapshot \<Rightarrow> Node option" where
  "installSnapshotLog n request =
     do {
       let first = length (takeWhile (\<lambda>e. e_Index e \<le> is_SnapshotIndex request) (n_log n));
       same \<leftarrow> (if is_SnapshotIndex request \<le> n_lastLogIndex n
               then map_option (\<lambda>t. t = is_SnapshotTerm request) (termAt n (is_SnapshotIndex request))
               else Some False);
       let n = (if same then n\<lparr>n_log := cloneLogEntries (drop first (n_log n))\<rparr>
                else n\<lparr>n_log := [], n_lastLogIndex := is_SnapshotIndex request,
                       n_lastLogTerm := is_SnapshotTerm request,
                       n_durableLogIndex := is_SnapshotIndex request\<rparr>);
       let n = n\<lparr>n_logBaseIndex := is_SnapshotIndex request, n_logBaseTerm := is_SnapshotTerm request,
                 n_commitIndex := max (n_commitIndex n) (is_SnapshotIndex request),
                 n_durableCommitIndex := max (n_durableCommitIndex n) (is_SnapshotIndex request),
                 n_lastApplied := is_SnapshotIndex request\<rparr>;
       Some (if n_log n \<noteq> []
             then n\<lparr>n_lastLogIndex := e_Index (last (n_log n)), n_lastLogTerm := e_Term (last (n_log n)),
                    n_durableLogIndex := e_Index (last (n_log n))\<rparr>
             else n) }"

definition handleInstallSnapshot :: "Node \<Rightarrow> InstallSnapshot \<Rightarrow> (Node \<times> Action list) option" where
  "handleInstallSnapshot n request =
     (if is_Term request < n_term n
      then Some (n, snapshotResponse n request False (is_Offset request) False)
      else do {
        let termChanged = (is_Term request > n_term n);
        let n = acceptLeader n (is_Term request) (is_From request);
        n \<leftarrow> (if is_Installed request \<and> is_SnapshotIndex request > n_logBaseIndex n
              then installSnapshotLog n request else Some n);
        Some (afterTermChange termChanged n
          (ResetElectionTimer # snapshotResponse n request (is_Success request) (is_NextOffset request)
             (is_Installed request))) })"

definition handleInstallSnapshotResponse :: "Node \<Rightarrow> InstallSnapshotResponse \<Rightarrow> (Node \<times> Action list) option" where
  "handleInstallSnapshotResponse n response =
     (if ir_Term response > n_term n
      then Some (persistHardState (becomeFollower n (ir_Term response) '''') [])
      else if n_role n \<noteq> Leader \<or> ir_Term response \<noteq> n_term n \<or>
              map_get (n_snapshotInFlight n) (ir_From response) \<noteq> ir_RequestID response
      then Some (n, [])
      else if \<not> ir_Success response
      then Some (n\<lparr>n_snapshotInFlight := map_delete (n_snapshotInFlight n) (ir_From response)\<rparr>, [])
      else if \<not> ir_Done response
      then Some (n, [ActSendInstallSnapshot
                      \<lparr>sis_To = ir_From response, sis_Term = n_term n, sis_RequestID = ir_RequestID response,
                       sis_SnapshotIndex = n_logBaseIndex n, sis_SnapshotTerm = n_logBaseTerm n,
                       sis_Offset = ir_NextOffset response\<rparr>])
      else
        let from = ir_From response;
            n = n\<lparr>n_snapshotInFlight := map_delete (n_snapshotInFlight n) from,
                  n_matchIndex := (n_matchIndex n)
                    (from \<mapsto> max (map_get (n_matchIndex n) from) (ir_SnapshotIndex response)),
                  n_nextIndex := (n_nextIndex n)(from \<mapsto> ir_SnapshotIndex response + 1)\<rparr>
        in sendAppendEntriesTo n from (pendingReadFor n from))"

subsection \<open>Persistence completions\<close>

definition hardStatePersisted :: "Node \<Rightarrow> u64 \<Rightarrow> Node \<times> Action list" where
  "hardStatePersisted n pid =
     (case n_pendingHardState n pid of
        None \<Rightarrow> (n, [])
      | Some pending \<Rightarrow>
          let n = n\<lparr>n_pendingHardState := map_delete (n_pendingHardState n) pid,
                    n_durableTerm := ph_term pending, n_durableVotedFor := ph_votedFor pending\<rparr>
          in if ph_term pending \<noteq> n_term n \<or> ph_votedFor pending \<noteq> n_votedFor n then (n, [])
             else (n, ph_after pending))"

definition logEntriesPersisted :: "Node \<Rightarrow> u64 \<Rightarrow> (Node \<times> Action list) option" where
  "logEntriesPersisted n pid =
     (case n_pendingLog n pid of
        None \<Rightarrow> Some (n, [])
      | Some pending \<Rightarrow>
          let n = n\<lparr>n_pendingLog := map_delete (n_pendingLog n) pid\<rparr>;
              n = (if pl_lastIndex pending > n_durableLogIndex n
                   then n\<lparr>n_durableLogIndex := pl_lastIndex pending\<rparr> else n)
          in (case pl_purpose pending of
                persistLeaderEntry \<Rightarrow>
                  if n_role n \<noteq> Leader \<or> n_term n \<noteq> pl_term pending \<or>
                     n_lastLogIndex n < pl_lastIndex pending
                  then Some (n, [])
                  else sendAppendEntries n 0
              | persistFollowerAppend \<Rightarrow>
                  if n_term n \<noteq> pl_term pending \<or> n_role n \<noteq> Follower \<or> n_leaderID n \<noteq> pl_leader pending
                  then Some (n, [])
                  else advanceFollowerCommit n (pl_leaderCommit pending)
                    (appendEntriesResponse n (pl_leader pending) (pl_requestID pending) True
                       (pl_lastIndex pending) 0 0 (pl_readID pending))))"

definition commitIndexPersisted :: "Node \<Rightarrow> u64 \<Rightarrow> (Node \<times> Action list) option" where
  "commitIndexPersisted n pid =
     (case n_pendingCommit n pid of
        None \<Rightarrow> Some (n, [])
      | Some pending \<Rightarrow> do {
          let n = n\<lparr>n_pendingCommit := map_delete (n_pendingCommit n) pid\<rparr>;
          let n = (if pc_commitIndex pending > n_durableCommitIndex n
                   then n\<lparr>n_durableCommitIndex := pc_commitIndex pending\<rparr> else n);
          (n, as) \<leftarrow> applyThrough n (pc_commitIndex pending);
          Some (n, as @ pc_after pending) })"

subsection \<open>Step\<close>

fun Step :: "Node \<Rightarrow> Event \<Rightarrow> (Node \<times> Action list) option" where
  "Step n ElectionTimeout = Some (startPreVote n)"
| "Step n HeartbeatTimeout = heartbeatRound n"
| "Step n CheckQuorumTimeout = Some (checkQuorum n)"
| "Step n (HardStatePersisted pid) = Some (hardStatePersisted n pid)"
| "Step n (LogEntriesPersisted pid) = logEntriesPersisted n pid"
| "Step n (CommitIndexPersisted pid) = commitIndexPersisted n pid"
| "Step n RecoverCommitted = applyThrough n (n_durableCommitIndex n)"
| "Step n (SnapshotCompacted index trm) = map_option (\<lambda>n. (n, [])) (compactLog n index trm)"
| "Step n (EvProposeSession e) = proposeSession n e"
| "Step n (EvProposeSet e) = proposeSet n e"
| "Step n (EvProposeDelete e) = proposeDelete n e"
| "Step n (ConfirmRead readID) = confirmRead n readID"
| "Step n (EvPreVoteRequest e) = Some (handlePreVoteRequest n e)"
| "Step n (EvPreVoteResponse e) = Some (handlePreVoteResponse n e)"
| "Step n (EvVoteRequest e) = Some (handleVoteRequest n e)"
| "Step n (EvVoteResponse e) = handleVoteResponse n e"
| "Step n (EvAppendEntries e) = handleAppendEntries n e"
| "Step n (EvAppendEntriesResponse e) = handleAppendEntriesResponse n e"
| "Step n (AppendEntriesFailed to requestID) = Some (handleAppendEntriesFailed n to requestID, [])"
| "Step n (EvInstallSnapshot e) = handleInstallSnapshot n e"
| "Step n (EvInstallSnapshotResponse e) = handleInstallSnapshotResponse n e"

subsection \<open>Derived forms\<close>

text \<open>The part of \<^verbatim>\<open>handleAppendEntries\<close> between accepting the Leader and handing the effects over:
  every branch of it ends the same way.\<close>

definition acceptedAppend :: "Node \<Rightarrow> AppendEntries \<Rightarrow> (Node \<times> Action list) option" where
  "acceptedAppend n request =
     do {
       ok \<leftarrow> matches n (ae_PrevLogIndex request) (ae_PrevLogTerm request);
       plan \<leftarrow> (if ok then entriesToAppend n (ae_PrevLogIndex request) (ae_Entries request) else Some None);
       (case plan of
          None \<Rightarrow> do {
            (conflictTerm, conflictIndex) \<leftarrow>
              conflictHint n (if ok then ae_PrevLogIndex request + 1 else ae_PrevLogIndex request);
            Some (n, appendEntriesResponse n (ae_From request) (ae_RequestID request) False
              (n_lastLogIndex n) conflictTerm conflictIndex (ae_ReadID request)) }
        | Some (newEntries, truncateFrom) \<Rightarrow>
            if newEntries \<noteq> []
            then do {
              n \<leftarrow> (if truncateFrom \<noteq> 0 then truncateLog n truncateFrom else Some n);
              n \<leftarrow> appendEntries n newEntries;
              Some (persistLog n newEntries
                \<lparr>pl_purpose = persistFollowerAppend, pl_term = ae_Term request,
                 pl_leader = ae_From request, pl_requestID = ae_RequestID request,
                 pl_truncateFrom = truncateFrom, pl_lastIndex = n_lastLogIndex n,
                 pl_leaderCommit = ae_LeaderCommit request, pl_readID = ae_ReadID request\<rparr>) }
            else if n_lastLogIndex n > n_durableLogIndex n then Some (n, [])
            else advanceFollowerCommit n (ae_LeaderCommit request)
              (appendEntriesResponse n (ae_From request) (ae_RequestID request) True
                 (n_lastLogIndex n) 0 0 (ae_ReadID request))) }"

lemma handleAppendEntries_accept:
  "handleAppendEntries n request =
     (if ae_Term request < n_term n
      then Some (n, appendEntriesResponse n (ae_From request) (ae_RequestID request) False
                      (n_lastLogIndex n) 0 0 (ae_ReadID request))
      else do {
        (m, as) \<leftarrow> acceptedAppend (acceptLeader n (ae_Term request) (ae_From request)) request;
        Some (afterTermChange (ae_Term request > n_term n) m (ResetElectionTimer # as)) })"
  unfolding handleAppendEntries_def acceptedAppend_def Let_def
  by (auto simp: split_beta intro!: Option.bind_cong split: option.split)

lemma acceptedAppendE [consumes 1, case_names reject append wait commit]:
  assumes "acceptedAppend n r = Some (n', as)"
  obtains ct ci where "n' = n" "as = appendEntriesResponse n (ae_From r) (ae_RequestID r) False
      (n_lastLogIndex n) ct ci (ae_ReadID r)"
  | es tf n1 n2 where "matches n (ae_PrevLogIndex r) (ae_PrevLogTerm r) = Some True"
      "entriesToAppend n (ae_PrevLogIndex r) (ae_Entries r) = Some (Some (es, tf))" "es \<noteq> []"
      "(if tf \<noteq> 0 then truncateLog n tf else Some n) = Some n1" "appendEntries n1 es = Some n2"
      "persistLog n2 es \<lparr>pl_purpose = persistFollowerAppend, pl_term = ae_Term r,
         pl_leader = ae_From r, pl_requestID = ae_RequestID r, pl_truncateFrom = tf,
         pl_lastIndex = n_lastLogIndex n2, pl_leaderCommit = ae_LeaderCommit r,
         pl_readID = ae_ReadID r\<rparr> = (n', as)"
  | tf where "matches n (ae_PrevLogIndex r) (ae_PrevLogTerm r) = Some True"
      "entriesToAppend n (ae_PrevLogIndex r) (ae_Entries r) = Some (Some ([], tf))"
      "n_lastLogIndex n > n_durableLogIndex n" "n' = n" "as = []"
  | tf where "matches n (ae_PrevLogIndex r) (ae_PrevLogTerm r) = Some True"
      "entriesToAppend n (ae_PrevLogIndex r) (ae_Entries r) = Some (Some ([], tf))"
      "\<not> n_lastLogIndex n > n_durableLogIndex n"
      "advanceFollowerCommit n (ae_LeaderCommit r) (appendEntriesResponse n (ae_From r)
         (ae_RequestID r) True (n_lastLogIndex n) 0 0 (ae_ReadID r)) = Some (n', as)"
proof -
  from assms obtain ok plan where
    ok: "matches n (ae_PrevLogIndex r) (ae_PrevLogTerm r) = Some ok" and
    plan: "(if ok then entriesToAppend n (ae_PrevLogIndex r) (ae_Entries r) else Some None) = Some plan"
    by (auto simp only: acceptedAppend_def Option.bind_eq_Some_conv)
  show thesis
  proof (cases plan)
    case None
    with assms ok plan show thesis
      by (auto simp: acceptedAppend_def Option.bind_eq_Some_conv intro: that(1))
  next
    case (Some p)
    obtain es tf where p: "p = (es, tf)" by (cases p)
    with Some plan have ok': "ok" "entriesToAppend n (ae_PrevLogIndex r) (ae_Entries r) = Some (Some (es, tf))"
      by (auto split: if_splits)
    show thesis
    proof (cases "es = []")
      case True
      with assms ok ok' show thesis
        using that(3) [of tf] that(4) [of tf] by (auto simp: acceptedAppend_def split: if_splits)
    next
      case False
      from assms ok ok' False obtain n1 n2 where
        "(if tf \<noteq> 0 then truncateLog n tf else Some n) = Some n1" "appendEntries n1 es = Some n2"
        "persistLog n2 es \<lparr>pl_purpose = persistFollowerAppend, pl_term = ae_Term r,
           pl_leader = ae_From r, pl_requestID = ae_RequestID r, pl_truncateFrom = tf,
           pl_lastIndex = n_lastLogIndex n2, pl_leaderCommit = ae_LeaderCommit r,
           pl_readID = ae_ReadID r\<rparr> = (n', as)"
        by (simp add: acceptedAppend_def Option.bind_eq_Some_conv del: not_None_eq) blast
      with that(2) ok ok' False show thesis by simp
    qed
  qed
qed

end
