(* ===== verification/Raft_Election.thy ===== *)
theory Raft_Election
  imports Raft_Core
begin

text \<open>
  How one Node's step touches the election state (Term, vote, role, collected votes and the hard
  states on their way to disk). Every handler of \<open>Raft_Core\<close> is shown to be one of seven kinds of
  \<open>estep\<close>; the cluster proof of election safety rests on this classification alone.
\<close>

subsection \<open>Actions that carry no election effect\<close>

text \<open>\<open>quiet t a\<close>: action \<open>a\<close> neither asks for nor grants a vote, persists no hard state, announces
  no Leader, and any message it sends carries a Term of at most \<open>t\<close>.\<close>

fun quiet :: "u64 \<Rightarrow> Action \<Rightarrow> bool" where
  "quiet t (PersistHardState _ _ _) = False"
| "quiet t (SendVoteRequest _ _) = False"
| "quiet t (BecameLeader _) = False"
| "quiet t (SendVoteResponse _ r) = (\<not> vr_Granted r \<and> vr_Term r \<le> t)"
| "quiet t (SendPreVoteResponse _ r) = (pvr_CurrentTerm r \<le> t)"
| "quiet t (SendAppendEntries _ r) = (ae_Term r \<le> t)"
| "quiet t (SendAppendEntriesResponse _ r) = (ar_Term r \<le> t)"
| "quiet t (ActSendInstallSnapshot r) = (sis_Term r \<le> t)"
| "quiet t (SendInstallSnapshotResponse _ r) = (ir_Term r \<le> t)"
| "quiet t _ = True"

lemma quiet_mono: "quiet t a \<Longrightarrow> t \<le> t' \<Longrightarrow> quiet t' a"
  by (cases a) auto

text \<open>The election state of a Node, as one tuple.\<close>

definition eview where
  "eview n = (n_id n, n_peers n, n_role n, n_term n, n_votedFor n, n_votes n,
     n_durableTerm n, n_durableVotedFor n, n_nextHardStatePersistence n, n_pendingHardState n)"

text \<open>Fields outside the election state.\<close>

lemma eview_frame [simp, frame]:
  "eview (n_leaderID_update f1 n) = eview n"
  "eview (n_lastLogIndex_update f2 n) = eview n"
  "eview (n_lastLogTerm_update f3 n) = eview n"
  "eview (n_durableLogIndex_update f4 n) = eview n"
  "eview (n_logBaseIndex_update f5 n) = eview n"
  "eview (n_logBaseTerm_update f6 n) = eview n"
  "eview (n_log_update f7 n) = eview n"
  "eview (n_commitIndex_update f8 n) = eview n"
  "eview (n_lastApplied_update f9 n) = eview n"
  "eview (n_readReady_update f10 n) = eview n"
  "eview (n_preVotes_update f11 n) = eview n"
  "eview (n_activePeers_update f12 n) = eview n"
  "eview (n_matchIndex_update f13 n) = eview n"
  "eview (n_nextIndex_update f14 n) = eview n"
  "eview (n_appendInFlight_update f15 n) = eview n"
  "eview (n_snapshotInFlight_update f16 n) = eview n"
  "eview (n_nextRequestID_update f17 n) = eview n"
  "eview (n_pendingReads_update f18 n) = eview n"
  "eview (n_recentLeaderContact_update f19 n) = eview n"
  "eview (n_nextLogPersistence_update f20 n) = eview n"
  "eview (n_pendingLog_update f21 n) = eview n"
  "eview (n_durableCommitIndex_update f22 n) = eview n"
  "eview (n_nextCommitPersistence_update f23 n) = eview n"
  "eview (n_pendingCommit_update f24 n) = eview n"
  by (simp_all add: eview_def)

text \<open>The effects that wait for a commit index to become durable are quiet.\<close>

definition commits_quiet :: "Node \<Rightarrow> bool" where
  "commits_quiet n \<longleftrightarrow>
     (\<forall>pid p. n_pendingCommit n pid = Some p \<longrightarrow> (\<forall>a\<in>set (pc_after p). quiet (n_term n) a))"

text \<open>\<open>still n n' as\<close>: a step that leaves the election state alone and emits quiet actions only.\<close>

definition still :: "Node \<Rightarrow> Node \<Rightarrow> Action list \<Rightarrow> bool" where
  "still n n' as \<longleftrightarrow> eview n' = eview n \<and> n_pendingCommit n' = n_pendingCommit n \<and>
     (\<forall>a\<in>set as. quiet (n_term n) a)"

lemma stillI [intro?]:
  "eview n' = eview n \<Longrightarrow> n_pendingCommit n' = n_pendingCommit n \<Longrightarrow>
   (\<And>a. a \<in> set as \<Longrightarrow> quiet (n_term n) a) \<Longrightarrow> still n n' as"
  by (simp add: still_def)

lemma eview_term: "eview n' = eview n \<Longrightarrow> n_term n' = n_term n"
  by (simp add: eview_def)

lemma still_refl [simp]: "still n n []"
  by (simp add: still_def)

lemma still_trans: "still n n1 as1 \<Longrightarrow> still n1 n2 as2 \<Longrightarrow> still n n2 (as1 @ as2)"
  by (auto simp: still_def dest!: eview_term)

lemma still_commits_quiet: "still n n' as \<Longrightarrow> commits_quiet n \<Longrightarrow> commits_quiet n'"
  by (auto simp: still_def commits_quiet_def dest!: eview_term)

subsection \<open>Helpers that are still\<close>

lemma completeReads_loop_still:
  "completeReads_loop ids n = Some (n', as) \<Longrightarrow> still n n' as"
proof (induction ids n arbitrary: n' as rule: completeReads_loop.induct)
  case (2 readID rest n)
  then obtain read where read: "map_of (n_pendingReads n) readID = Some read"
    by (auto split: option.splits)
  show ?case
  proof (cases "\<not> pr_confirmed read \<or> n_lastApplied n < pr_commitIndex read")
    case True
    with 2 read show ?thesis by simp
  next
    case False
    with "2.prems" read obtain as1 where
      "completeReads_loop rest (n\<lparr>n_pendingReads := AList.delete readID (n_pendingReads n)\<rparr>) = Some (n', as1)"
      "as = ReadConfirmed readID (pr_commitIndex read) # as1"
      by (auto simp: Option.bind_eq_Some_conv)
    with "2.IH"(2) [OF read False] show ?thesis
      by (auto simp: still_def eview_def)
  qed
qed simp

lemma completeReads_still: "completeReads n = Some (n', as) \<Longrightarrow> still n n' as"
  unfolding completeReads_def by (rule completeReads_loop_still)

lemma acknowledgeRead_still: "acknowledgeRead n r = Some (n', as) \<Longrightarrow> still n n' as"
  by (auto simp: acknowledgeRead_def Let_def split: option.splits if_splits dest!: completeReads_still)
     (auto simp: still_def eview_def)

lemma applyLoop_still: "applyLoop index n = Some (n', as) \<Longrightarrow> still n n' as"
proof (induction index n arbitrary: n' as rule: applyLoop.induct)
  case (1 index n)
  show ?case
  proof (cases "n_lastApplied n < index")
    case False
    with "1.prems" show ?thesis by (simp add: applyLoop.simps [of index n])
  next
    case True
    with "1.prems" obtain entry ready as1 where
      entry: "go_index (n_log n) (n_lastApplied n + 1 - n_logBaseIndex n - 1) = Some entry" and
      ready: "ready = (n_role n = Leader \<and> \<not> n_readReady n \<and> e_Type entry = EntryNoOp \<and>
                           e_Term entry = n_term n)" and
      rec: "applyLoop index (n\<lparr>n_lastApplied := n_lastApplied n + 1,
              n_readReady := n_readReady n \<or> ready\<rparr>) = Some (n', as1)" and
      as: "as = ApplyEntry entry # (if ready then [BecameReadReady (n_term n)] else []) @ as1"
      by (auto simp: applyLoop.simps [of index n] Option.bind_eq_Some_conv Let_def)
    from "1.IH" [OF True entry ready rec] as show ?thesis
      by (auto simp: still_def eview_def)
  qed
qed

lemma applyThrough_still: "applyThrough n index = Some (n', as) \<Longrightarrow> still n n' as"
  by (auto simp: applyThrough_def Option.bind_eq_Some_conv split: if_splits
      intro: still_trans dest!: completeReads_still applyLoop_still)

lemma sendAppendEntriesTo_still: "sendAppendEntriesTo n peer rid = Some (n', as) \<Longrightarrow> still n n' as"
  by (auto simp: sendAppendEntriesTo_def Let_def still_def eview_def Option.bind_eq_Some_conv
      split: if_splits)

lemma sendAppendEntries_still:
  assumes "sendAppendEntries n rid = Some (n', as)"
  shows "still n n' as"
proof -
  from assms have "(eview n' = eview n \<and> n_pendingCommit n' = n_pendingCommit n) \<and>
      (\<forall>a\<in>set as. quiet (n_term n) a)"
    unfolding sendAppendEntries_def
    by (rule for_each_invariant)
       (auto simp: still_def dest!: sendAppendEntriesTo_still dest: eview_term)
  then show ?thesis by (simp add: still_def)
qed

lemma appendEntries_still: "appendEntries n es = Some n' \<Longrightarrow> still n n' []"
  by (auto simp: appendEntries_def Let_def still_def eview_def split: if_splits)

lemma truncateLog_still: "truncateLog n f = Some n' \<Longrightarrow> still n n' []"
  by (auto simp: truncateLog_def Let_def still_def eview_def Option.bind_eq_Some_conv)

lemma compactLog_still: "compactLog n i t = Some n' \<Longrightarrow> still n n' []"
  by (auto simp: compactLog_def Let_def still_def eview_def Option.bind_eq_Some_conv split: if_splits)

lemma installSnapshotLog_still: "installSnapshotLog n r = Some n' \<Longrightarrow> still n n' []"
  by (auto simp: installSnapshotLog_def Let_def still_def Option.bind_eq_Some_conv)

lemma persistLog_still: "persistLog n es p = (n', as) \<Longrightarrow> still n n' as"
  by (auto simp: persistLog_def Let_def still_def eview_def)

lemma advanceLeaderCommit_still: "advanceLeaderCommit n = Some (n', b) \<Longrightarrow> still n n' []"
  by (auto simp: advanceLeaderCommit_def still_def eview_def Option.bind_eq_Some_conv split: option.splits)

text \<open>Persisting a commit index keeps the election state and stores the effects it was given.\<close>

definition calm :: "Node \<Rightarrow> Node \<Rightarrow> Action list \<Rightarrow> bool" where
  "calm n n' as \<longleftrightarrow> eview n' = eview n \<and> (commits_quiet n \<longrightarrow> commits_quiet n') \<and>
     (commits_quiet n \<longrightarrow> (\<forall>a\<in>set as. quiet (n_term n) a))"

lemma still_calm: "still n n' as \<Longrightarrow> calm n n' as"
  by (auto simp: calm_def still_def intro: still_commits_quiet [unfolded still_def])

lemma calm_trans: "calm n n1 as1 \<Longrightarrow> calm n1 n2 as2 \<Longrightarrow> calm n n2 (as1 @ as2)"
  by (auto simp: calm_def dest!: eview_term)

lemma calm_trans0: "calm n n1 [] \<Longrightarrow> calm n1 n2 as2 \<Longrightarrow> calm n n2 as2"
  using calm_trans [of n n1 "[]"] by simp

lemma calm_refl [simp]: "calm n n []"
  by (simp add: calm_def)

lemma persistCommit_calm:
  "persistCommit n after = (n', as) \<Longrightarrow> (\<And>a. a \<in> set after \<Longrightarrow> quiet (n_term n) a) \<Longrightarrow> calm n n' as"
  by (auto simp: persistCommit_def Let_def calm_def eview_def commits_quiet_def split: if_splits)

lemma advanceFollowerCommit_calm:
  assumes "advanceFollowerCommit n lc after = Some (n', as)"
    and "\<And>a. a \<in> set after \<Longrightarrow> quiet (n_term n) a"
  shows "calm n n' as"
proof (cases "min lc (n_lastLogIndex n) > n_commitIndex n")
  case True
  let ?m = "n\<lparr>n_commitIndex := min lc (n_lastLogIndex n)\<rparr>"
  have "calm n ?m []" by (simp add: calm_def eview_def commits_quiet_def)
  moreover have "calm ?m n' as"
    using assms True by (intro persistCommit_calm) (auto simp: advanceFollowerCommit_def Let_def)
  ultimately show ?thesis by (rule calm_trans0)
next
  case False
  with assms(1) obtain as1 where "applyThrough n (n_durableCommitIndex n) = Some (n', as1)" "as = as1 @ after"
    by (auto simp: advanceFollowerCommit_def Let_def Option.bind_eq_Some_conv)
  then have "calm n n' as1" by (intro still_calm applyThrough_still)
  moreover from this have "n_term n' = n_term n" by (auto simp: calm_def dest: eview_term)
  ultimately show ?thesis
    using assms(2) \<open>as = as1 @ after\<close> by (auto simp: calm_def)
qed

subsection \<open>The kinds of step\<close>

text \<open>The Term a message carries, by which a Node learns of a newer Term.\<close>

fun event_term :: "Event \<Rightarrow> u64" where
  "event_term (EvPreVoteResponse r) = pvr_CurrentTerm r"
| "event_term (EvVoteRequest r) = vq_Term r"
| "event_term (EvVoteResponse r) = vr_Term r"
| "event_term (EvAppendEntries r) = ae_Term r"
| "event_term (EvAppendEntriesResponse r) = ar_Term r"
| "event_term (EvInstallSnapshot r) = is_Term r"
| "event_term (EvInstallSnapshotResponse r) = ir_Term r"
| "event_term _ = 0"

text \<open>What every step keeps, and what a step that persists no hard state keeps.\<close>

definition identity_kept :: "Node \<Rightarrow> Node \<Rightarrow> bool" where
  "identity_kept n n' \<longleftrightarrow> n_id n' = n_id n \<and> n_peers n' = n_peers n"

definition durable_kept :: "Node \<Rightarrow> Node \<Rightarrow> bool" where
  "durable_kept n n' \<longleftrightarrow> n_durableTerm n' = n_durableTerm n \<and> n_durableVotedFor n' = n_durableVotedFor n"

definition hard_kept :: "Node \<Rightarrow> Node \<Rightarrow> bool" where
  "hard_kept n n' \<longleftrightarrow> n_term n' = n_term n \<and> n_votedFor n' = n_votedFor n \<and>
     n_nextHardStatePersistence n' = n_nextHardStatePersistence n \<and>
     n_pendingHardState n' = n_pendingHardState n"

text \<open>The current Term and vote of \<open>n'\<close> go to disk with the effects \<open>after\<close> waiting for them.\<close>

definition persisted_with :: "Node \<Rightarrow> Node \<Rightarrow> Action list \<Rightarrow> Action list \<Rightarrow> bool" where
  "persisted_with n n' after as \<longleftrightarrow>
     n_nextHardStatePersistence n' = n_nextHardStatePersistence n + 1 \<and>
     n_pendingHardState n' = (n_pendingHardState n)(n_nextHardStatePersistence n + 1 \<mapsto>
       \<lparr>ph_term = n_term n', ph_votedFor = n_votedFor n', ph_after = after\<rparr>) \<and>
     as = [PersistHardState (n_nextHardStatePersistence n + 1) (n_term n') (n_votedFor n')]"

inductive estep :: "Node \<Rightarrow> Event \<Rightarrow> Node \<Rightarrow> Action list \<Rightarrow> bool" where
  quiet_step:
  "\<lbrakk>identity_kept n n'; durable_kept n n'; hard_kept n n';
    (n_role n' = n_role n \<and> n_votes n' = n_votes n) \<or> n_role n' = Follower \<or> n_role n' = PreCandidate;
    \<forall>a\<in>set as. quiet (n_term n) a\<rbrakk> \<Longrightarrow> estep n e n' as"
| adopt_step:
  "\<lbrakk>identity_kept n n'; durable_kept n n'; n_term n < event_term e; n_term n' = event_term e;
    n_votedFor n' = ''''; n_role n' = Follower; persisted_with n n' after as;
    \<forall>a\<in>set after. quiet (event_term e) a\<rbrakk> \<Longrightarrow> estep n e n' as"
| grant_step:
  "\<lbrakk>identity_kept n n'; durable_kept n n'; e = EvVoteRequest q; n_term n' = vq_Term q;
    n_term n < vq_Term q \<and> n_role n' = Follower \<or>
    n_term n = vq_Term q \<and> n_votedFor n \<in> {'''', vq_From q} \<and> n_role n' = n_role n \<and> n_votes n' = n_votes n;
    n_votedFor n' = vq_From q; persisted_with n n' (voteResponse n' (vq_From q) True) as\<rbrakk>
   \<Longrightarrow> estep n e n' as"
| regrant_step:
  "\<lbrakk>identity_kept n n'; durable_kept n n'; hard_kept (n\<lparr>n_votedFor := vq_From q\<rparr>) n';
    e = EvVoteRequest q; n_term n = vq_Term q; n_votedFor n \<in> {'''', vq_From q};
    n_durableTerm n = vq_Term q; n_durableVotedFor n = vq_From q;
    n_role n' = n_role n; n_votes n' = n_votes n; as = voteResponse n' (vq_From q) True\<rbrakk>
   \<Longrightarrow> estep n e n' as"
| campaign_step:
  "\<lbrakk>identity_kept n n'; durable_kept n n'; n_term n' = n_term n + 1; n_votedFor n' = n_id n;
    n_role n' = Candidate; n_votes n' = {n_id n}; persisted_with n n' after as;
    \<forall>a\<in>set after. quiet 0 a \<or> (\<exists>p\<in>set (n_peers n). \<exists>q. a = SendVoteRequest p q \<and>
       vq_From q = n_id n \<and> vq_Term q = n_term n + 1); \<forall>a\<in>set qs. quiet 0 a\<rbrakk>
   \<Longrightarrow> estep n e n' (qs @ as)"
| persisted_step:
  "\<lbrakk>identity_kept n n'; e = HardStatePersisted pid; n_pendingHardState n pid = Some p;
    n_term n' = n_term n; n_votedFor n' = n_votedFor n; n_role n' = n_role n; n_votes n' = n_votes n;
    n_nextHardStatePersistence n' = n_nextHardStatePersistence n;
    n_pendingHardState n' = map_delete (n_pendingHardState n) pid;
    n_durableTerm n' = ph_term p; n_durableVotedFor n' = ph_votedFor p;
    as = [] \<or> as = ph_after p \<and> ph_term p = n_term n \<and> ph_votedFor p = n_votedFor n\<rbrakk>
   \<Longrightarrow> estep n e n' as"
| count_step:
  "\<lbrakk>identity_kept n n'; durable_kept n n'; hard_kept n n'; e = EvVoteResponse r; n_role n = Candidate;
    vr_Term r = n_term n; vr_Granted r; n_votes n' = insert (vr_From r) (n_votes n);
    n_role n' = Candidate \<and> as = [] \<or>
    n_role n' = Leader \<and> quorum n \<le> card (n_votes n') \<and>
    (\<exists>as'. as = BecameLeader (n_term n) # as' \<and> (\<forall>a\<in>set as'. quiet (n_term n) a))\<rbrakk>
   \<Longrightarrow> estep n e n' as"

inductive_cases estepE: "estep n e n' as"

lemmas kept_defs = identity_kept_def durable_kept_def hard_kept_def

text \<open>A calm step is a quiet step.\<close>

lemma calm_estep: "calm n n' as \<Longrightarrow> commits_quiet n \<Longrightarrow> estep n e n' as \<and> commits_quiet n'"
  by (auto intro!: quiet_step simp: calm_def kept_defs eview_def)

lemmas still_estep = calm_estep [OF still_calm]

lemma commits_quiet_mono:
  "commits_quiet n \<Longrightarrow> n_pendingCommit n' = n_pendingCommit n \<Longrightarrow> n_term n \<le> n_term n' \<Longrightarrow> commits_quiet n'"
  unfolding commits_quiet_def by (metis quiet_mono)

text \<open>Stepping down in a newer Term.\<close>

lemma becomeFollower_fields [simp]:
  "n_id (becomeFollower n t l) = n_id n" "n_peers (becomeFollower n t l) = n_peers n"
  "n_role (becomeFollower n t l) = Follower" "n_term (becomeFollower n t l) = t"
  "n_votedFor (becomeFollower n t l) = (if t > n_term n then '''' else n_votedFor n)"
  "n_durableTerm (becomeFollower n t l) = n_durableTerm n"
  "n_durableVotedFor (becomeFollower n t l) = n_durableVotedFor n"
  "n_nextHardStatePersistence (becomeFollower n t l) = n_nextHardStatePersistence n"
  "n_pendingHardState (becomeFollower n t l) = n_pendingHardState n"
  "n_pendingCommit (becomeFollower n t l) = n_pendingCommit n"
  "n_votes (becomeFollower n t l) = {}"
  by (simp_all add: becomeFollower_def Let_def)

lemma persistHardState_persisted:
  "persistHardState m after = (n', as) \<Longrightarrow> n_nextHardStatePersistence m = n_nextHardStatePersistence n \<Longrightarrow>
   n_pendingHardState m = n_pendingHardState n \<Longrightarrow> persisted_with n n' after as"
  by (auto simp: persistHardState_def Let_def persisted_with_def)

lemma persistHardState_fields:
  assumes "persistHardState m after = (n', as)"
  shows "n_id n' = n_id m" "n_peers n' = n_peers m" "n_role n' = n_role m" "n_term n' = n_term m"
    "n_votedFor n' = n_votedFor m" "n_votes n' = n_votes m" "n_durableTerm n' = n_durableTerm m"
    "n_durableVotedFor n' = n_durableVotedFor m" "n_pendingCommit n' = n_pendingCommit m"
  using assms by (auto simp: persistHardState_def Let_def)

lemma adopt_estep:
  assumes p: "persistHardState m after = (n', as)" and t: "n_term n < event_term e"
    and m: "n_id m = n_id n" "n_peers m = n_peers n" "n_role m = Follower" "n_term m = event_term e"
      "n_votedFor m = ''''" "n_durableTerm m = n_durableTerm n" "n_durableVotedFor m = n_durableVotedFor n"
      "n_nextHardStatePersistence m = n_nextHardStatePersistence n"
      "n_pendingHardState m = n_pendingHardState n"
    and q: "commits_quiet m" "\<forall>a\<in>set after. quiet (event_term e) a"
  shows "estep n e n' as \<and> commits_quiet n'"
proof
  note f = persistHardState_fields [OF p]
  show "estep n e n' as"
    by (rule adopt_step [OF _ _ t _ _ _ persistHardState_persisted [OF p]])
       (use f m q in \<open>simp_all add: kept_defs\<close>)
  show "commits_quiet n'" by (rule commits_quiet_mono [OF q(1)]) (simp_all add: f)
qed

lemma stepDown_estep:
  assumes "persistHardState (becomeFollower n (event_term e) '''') [] = (n', as)"
    and "n_term n < event_term e" and "commits_quiet n"
  shows "estep n e n' as \<and> commits_quiet n'"
  using assms by (intro adopt_estep [OF assms(1)]) (auto intro: commits_quiet_mono)

subsection \<open>Every handler is an election step\<close>

lemma acceptLeader_fields [simp]:
  "n_id (acceptLeader n t l) = n_id n" "n_peers (acceptLeader n t l) = n_peers n"
  "n_role (acceptLeader n t l) = Follower"
  "n_term (acceptLeader n t l) = (if t > n_term n then t else n_term n)"
  "n_votedFor (acceptLeader n t l) = (if t > n_term n then '''' else n_votedFor n)"
  "n_durableTerm (acceptLeader n t l) = n_durableTerm n"
  "n_durableVotedFor (acceptLeader n t l) = n_durableVotedFor n"
  "n_nextHardStatePersistence (acceptLeader n t l) = n_nextHardStatePersistence n"
  "n_pendingHardState (acceptLeader n t l) = n_pendingHardState n"
  "n_pendingCommit (acceptLeader n t l) = n_pendingCommit n"
  by (simp_all add: acceptLeader_def Let_def)

lemma accept_estep:
  assumes t: "n_term n \<le> event_term e" and q: "commits_quiet n"
    and c: "calm (acceptLeader n (event_term e) l) m as"
    and a: "afterTermChange (event_term e > n_term n) m as = (n', as')"
  shows "estep n e n' as' \<and> commits_quiet n'"
proof -
  let ?a = "acceptLeader n (event_term e) l"
  have qa: "commits_quiet ?a" by (rule commits_quiet_mono [OF q]) auto
  have v: "eview m = eview ?a" "commits_quiet m" "\<forall>a\<in>set as. quiet (n_term ?a) a"
    using c qa by (simp_all add: calm_def)
  show ?thesis
  proof (cases "event_term e > n_term n")
    case True
    show ?thesis
      by (rule adopt_estep [where m = m and after = as])
         (use a v True in \<open>simp_all add: afterTermChange_def eview_def\<close>)
  next
    case False
    then have "n' = m" "as' = as" using a by (simp_all add: afterTermChange_def)
    with v False show ?thesis
      by (auto intro!: quiet_step simp: kept_defs eview_def)
  qed
qed

lemma calm_append_quiet:
  assumes "\<And>a. a \<in> set as1 \<Longrightarrow> quiet (n_term n) a" and "calm n n' as2"
  shows "calm n n' (as1 @ as2)"
  using assms by (auto simp: calm_def)

lemma calm_quiet: "(\<And>a. a \<in> set as \<Longrightarrow> quiet (n_term n) a) \<Longrightarrow> calm n n as"
  by (simp add: calm_def)

lemma calm_Cons_quiet: "quiet (n_term n) a \<Longrightarrow> calm n n' as \<Longrightarrow> calm n n' (a # as)"
  by (auto simp: calm_def)

lemma response_quiet: "a \<in> set (appendEntriesResponse n to rid s m ct ci rd) \<Longrightarrow> quiet (n_term n) a"
  by (simp add: appendEntriesResponse_def)

lemma followerAppend_calm:
  assumes "truncateFrom \<noteq> 0 \<Longrightarrow> truncateLog n truncateFrom = Some n1" "truncateFrom = 0 \<Longrightarrow> n1 = n"
    and "appendEntries n1 es = Some n2" "persistLog n2 es p = (n', as)"
  shows "calm n n' as"
proof -
  have "calm n n1 []" using assms(1,2) by (cases "truncateFrom = 0") (auto intro: still_calm truncateLog_still)
  moreover have "calm n1 n2 []" using assms(3) by (intro still_calm appendEntries_still)
  moreover have "calm n2 n' as" using assms(4) by (intro still_calm persistLog_still)
  ultimately show ?thesis by (meson calm_trans0)
qed

lemma acceptedAppend_calm:
  assumes "acceptedAppend n r = Some (n', as)"
  shows "calm n n' as"
  using assms
proof (cases rule: acceptedAppendE)
  case (append es tf n1 n2)
  show ?thesis
    by (rule followerAppend_calm [OF _ _ append(5,6), of tf]) (use append(4) in \<open>simp_all split: if_splits\<close>)
next
  case (commit tf)
  show ?thesis by (rule advanceFollowerCommit_calm [OF commit(4)]) (rule response_quiet)
qed (auto intro: calm_quiet response_quiet)

lemma handleAppendEntries_estep:
  assumes h: "handleAppendEntries n r = Some (n', as')" and q: "commits_quiet n"
  shows "estep n (EvAppendEntries r) n' as' \<and> commits_quiet n'"
proof (cases "ae_Term r < n_term n")
  case True
  with h show ?thesis
    by (intro still_estep q) (auto simp: handleAppendEntries_def appendEntriesResponse_def still_def)
next
  case False
  let ?a = "acceptLeader n (ae_Term r) (ae_From r)"
  from h False obtain m as where b: "acceptedAppend ?a r = Some (m, as)"
    and n': "afterTermChange (ae_Term r > n_term n) m (ResetElectionTimer # as) = (n', as')"
    by (auto simp: handleAppendEntries_accept Option.bind_eq_Some_conv)
  have "calm ?a m (ResetElectionTimer # as)"
    by (intro calm_Cons_quiet acceptedAppend_calm [OF b]) simp
  with accept_estep [of n "EvAppendEntries r" "ae_From r"] n' False q show ?thesis by (auto simp: not_less)
qed

lemma handleInstallSnapshot_estep:
  assumes h: "handleInstallSnapshot n r = Some (n', as')" and q: "commits_quiet n"
  shows "estep n (EvInstallSnapshot r) n' as' \<and> commits_quiet n'"
proof (cases "is_Term r < n_term n")
  case True
  with h show ?thesis
    by (intro still_estep q) (auto simp: handleInstallSnapshot_def snapshotResponse_def still_def)
next
  case False
  let ?a = "acceptLeader n (is_Term r) (is_From r)"
  from h False obtain m where
    m: "(if is_Installed r \<and> is_SnapshotIndex r > n_logBaseIndex ?a then installSnapshotLog ?a r
         else Some ?a) = Some m"
    and n': "afterTermChange (is_Term r > n_term n) m (ResetElectionTimer #
      snapshotResponse m r (is_Success r) (is_NextOffset r) (is_Installed r)) = (n', as')"
    by (auto simp: handleInstallSnapshot_def Let_def Option.bind_eq_Some_conv)
  have "still ?a m []" using m by (auto split: if_splits intro: installSnapshotLog_still)
  then have "calm ?a m (ResetElectionTimer # snapshotResponse m r (is_Success r) (is_NextOffset r) (is_Installed r))"
    by (intro still_calm) (auto simp: still_def snapshotResponse_def dest!: eview_term)
  with accept_estep [of n "EvInstallSnapshot r" "is_From r"] n' False q show ?thesis by (auto simp: not_less)
qed

lemma handleInstallSnapshotResponse_estep:
  assumes h: "handleInstallSnapshotResponse n r = Some (n', as)" and q: "commits_quiet n"
  shows "estep n (EvInstallSnapshotResponse r) n' as \<and> commits_quiet n'"
proof (cases "ir_Term r > n_term n")
  case True
  with h show ?thesis
    by (intro stepDown_estep q) (auto simp: handleInstallSnapshotResponse_def)
next
  case False
  with h have "still n n' as"
    by (auto simp: handleInstallSnapshotResponse_def Let_def split: if_splits
        dest!: sendAppendEntriesTo_still) (auto simp: still_def)
  then show ?thesis using q by (rule still_estep)
qed

lemma handleVoteRequest_estep:
  assumes h: "handleVoteRequest n r = (n', as)" and q: "commits_quiet n"
  shows "estep n (EvVoteRequest r) n' as \<and> commits_quiet n'"
proof (cases "vq_Term r < n_term n")
  case True
  with h show ?thesis
    by (intro still_estep q) (auto simp: handleVoteRequest_def voteResponse_def still_def)
next
  case False
  define m where "m = (if vq_Term r > n_term n then becomeFollower n (vq_Term r) '''' else n)"
  define grant where "grant \<longleftrightarrow> (n_votedFor m = '''' \<or> n_votedFor m = vq_From r) \<and>
    candidateLogIsUpToDate m (vq_LastLogTerm r) (vq_LastLogIndex r)"
  define m' where "m' = (if grant then m\<lparr>n_votedFor := vq_From r\<rparr> else m)"
  have h': "(if vq_Term r > n_term n \<or> grant \<and> \<not> voteIsDurable m' (vq_From r)
     then persistHardState m' (voteResponse m' (vq_From r) grant)
     else (m', voteResponse m' (vq_From r) grant)) = (n', as)"
    using h False unfolding handleVoteRequest_def Let_def m'_def grant_def m_def by simp
  have mf: "n_id m' = n_id n" "n_peers m' = n_peers n" "n_durableTerm m' = n_durableTerm n"
    "n_durableVotedFor m' = n_durableVotedFor n" "n_term m' = vq_Term r" "n_pendingCommit m' = n_pendingCommit n"
    "n_nextHardStatePersistence m' = n_nextHardStatePersistence n"
    "n_pendingHardState m' = n_pendingHardState n"
    "n_votedFor m' = (if grant then vq_From r else if vq_Term r > n_term n then '''' else n_votedFor n)"
    "n_role m' = (if vq_Term r > n_term n then Follower else n_role n)"
    "\<not> vq_Term r > n_term n \<longrightarrow> n_votes m' = n_votes n"
    "grant \<longrightarrow> vq_Term r > n_term n \<or> n_votedFor n \<in> {'''', vq_From r}"
    using False by (auto simp: m'_def m_def grant_def)
  have qm: "commits_quiet m'" by (rule commits_quiet_mono [OF q]) (use mf False in auto)
  show ?thesis
  proof (cases "vq_Term r > n_term n \<or> grant \<and> \<not> voteIsDurable m' (vq_From r)")
    case True
    then have p: "persistHardState m' (voteResponse m' (vq_From r) grant) = (n', as)" using h' by simp
    note f = persistHardState_fields [OF p]
    have qn: "commits_quiet n'" by (rule commits_quiet_mono [OF qm]) (simp_all add: f)
    show ?thesis
    proof (cases grant)
      case True
      have "persisted_with n n' (voteResponse n' (vq_From r) True) as"
        using persistHardState_persisted [OF p mf(7,8)] True f by (simp add: voteResponse_def)
      with qn True mf f False show ?thesis
        by (intro conjI grant_step [where q = r]) (auto simp: kept_defs)
    next
      case False
      with \<open>vq_Term r > n_term n \<or> _\<close> have gt: "n_term n < vq_Term r" by simp
      show ?thesis
        by (rule adopt_estep [OF p]) (use gt False mf qm in \<open>auto simp: voteResponse_def\<close>)
    qed
  next
    case unchanged: False
    then have n': "n' = m'" "as = voteResponse m' (vq_From r) grant" using h' by auto
    have teq: "vq_Term r = n_term n" using unchanged \<open>\<not> vq_Term r < n_term n\<close> by simp
    show ?thesis
    proof (cases grant)
      case True
      with unchanged n' mf qm teq show ?thesis
        by (intro conjI regrant_step [where q = r]) (auto simp: kept_defs voteIsDurable_def)
    next
      case False
      then have "still n n' as"
        using n' unchanged by (auto simp: still_def m'_def m_def voteResponse_def)
      then show ?thesis using q by (rule still_estep)
    qed
  qed
qed

lemma startElection_estep:
  assumes h: "startElection m = (n', as)" and m: "eview (m\<lparr>n_role := n_role n\<rparr>) = eview n"
    and c: "n_pendingCommit m = n_pendingCommit n"
    and q: "commits_quiet n" and t: "n_term n \<noteq> - 1" and qs: "\<forall>a\<in>set qs. quiet 0 a"
  shows "estep n e n' (qs @ as) \<and> commits_quiet n'"
proof -
  define m1 where "m1 = m\<lparr>n_role := Candidate, n_term := n_term m + 1, n_votedFor := n_id m,
    n_leaderID := '''', n_readReady := False, n_votes := {n_id m}\<rparr>"
  define after where "after = ResetElectionTimer #
            map (\<lambda>peer. SendVoteRequest peer
                   \<lparr>vq_From = n_id m1, vq_Term = n_term m1, vq_LastLogIndex = n_lastLogIndex m1,
                    vq_LastLogTerm = n_lastLogTerm m1\<rparr>) (n_peers m1)"
  have p: "persistHardState m1 after = (n', as)"
    using h by (simp add: startElection_def Let_def m1_def after_def)
  note f = persistHardState_fields [OF p]
  have mv: "n_id m = n_id n" "n_peers m = n_peers n" "n_term m = n_term n"
    "n_durableTerm m = n_durableTerm n" "n_durableVotedFor m = n_durableVotedFor n"
    "n_nextHardStatePersistence m = n_nextHardStatePersistence n"
    "n_pendingHardState m = n_pendingHardState n"
    using m by (simp_all add: eview_def)
  have "commits_quiet n'"
    by (rule commits_quiet_mono [OF q])
       (use f c mv t in \<open>simp_all add: m1_def less_imp_le word_less_add_one\<close>)
  moreover have "estep n e n' (qs @ as)"
    by (rule campaign_step [OF _ _ _ _ _ _ persistHardState_persisted [OF p] _ qs])
       (use f mv in \<open>auto simp: kept_defs m1_def after_def\<close>)
  ultimately show ?thesis by simp
qed

lemma startPreVote_estep:
  assumes h: "startPreVote n = (n', as)" and q: "commits_quiet n" and t: "n_term n \<noteq> - 1"
  shows "estep n e n' as \<and> commits_quiet n'"
proof (cases "n_role n = Leader \<or> quorum n \<noteq> 1")
  case True
  with h have "n' = n \<or> (\<exists>f g h i. n' = n\<lparr>n_recentLeaderContact := f, n_leaderID := g,
      n_role := PreCandidate, n_preVotes := h\<rparr>)" "\<forall>a\<in>set as. quiet (n_term n) a"
    by (auto simp: startPreVote_def Let_def quorum_def split: if_splits)
  with q show ?thesis
    by (auto intro!: quiet_step simp: kept_defs commits_quiet_def)
next
  case False
  define m where "m = n\<lparr>n_recentLeaderContact := False, n_leaderID := '''', n_role := PreCandidate,
                  n_preVotes := {n_id n}\<rparr>"
  obtain as1 where "startElection m = (n', as1)" and
    as: "as = (ResetElectionTimer #
              map (\<lambda>peer. SendPreVoteRequest peer
                     \<lparr>pvq_From = n_id m, pvq_Term = n_term m + 1, pvq_LastLogIndex = n_lastLogIndex m,
                      pvq_LastLogTerm = n_lastLogTerm m\<rparr>) (n_peers m)) @ as1"
    using h False by (auto simp: startPreVote_def Let_def m_def quorum_def split: prod.splits)
  show ?thesis unfolding as
    by (rule startElection_estep [OF \<open>startElection m = _\<close> _ _ q t]) (auto simp: m_def eview_def)
qed

lemma handlePreVoteResponse_estep:
  assumes h: "handlePreVoteResponse n r = (n', as)" and q: "commits_quiet n" and t: "n_term n \<noteq> - 1"
  shows "estep n (EvPreVoteResponse r) n' as \<and> commits_quiet n'"
proof (cases "pvr_CurrentTerm r > n_term n")
  case True
  with h show ?thesis by (intro stepDown_estep q) (auto simp: handlePreVoteResponse_def)
next
  case False
  then consider "still n n' as" | "startElection (n\<lparr>n_preVotes := insert (pvr_From r) (n_preVotes n)\<rparr>) = (n', as)"
    using h by (auto simp: handlePreVoteResponse_def Let_def still_def split: if_splits)
  then show ?thesis
  proof cases
    case 1
    then show ?thesis using q by (rule still_estep)
  next
    case 2
    then show ?thesis
      using startElection_estep [OF 2 _ _ q t, of "[]"] by (simp add: eview_def)
  qed
qed

lemma handleVoteResponse_estep:
  assumes h: "handleVoteResponse n r = Some (n', as)" and q: "commits_quiet n"
  shows "estep n (EvVoteResponse r) n' as \<and> commits_quiet n'"
proof -
  consider (down) "vr_Term r > n_term n" | (ignore) "\<not> vr_Term r > n_term n"
      "n_role n \<noteq> Candidate \<or> vr_Term r \<noteq> n_term n \<or> \<not> vr_Granted r"
    | (count) "n_role n = Candidate" "vr_Term r = n_term n" "vr_Granted r"
        "card (insert (vr_From r) (n_votes n)) < quorum n"
    | (win) "n_role n = Candidate" "vr_Term r = n_term n" "vr_Granted r"
        "\<not> card (insert (vr_From r) (n_votes n)) < quorum n"
    by fastforce
  then show ?thesis
  proof cases
    case down
    with h show ?thesis by (intro stepDown_estep q) (auto simp: handleVoteResponse_def)
  next
    case ignore
    with h have "still n n' as" by (auto simp: handleVoteResponse_def)
    then show ?thesis using q by (rule still_estep)
  next
    case count
    then have "n' = n\<lparr>n_votes := insert (vr_From r) (n_votes n)\<rparr>" "as = []"
      using h by (auto simp: handleVoteResponse_def Let_def quorum_def)
    with count q show ?thesis
      by (auto intro!: count_step simp: kept_defs commits_quiet_def)
  next
    case win
    define m where "m = n\<lparr>n_votes := insert (vr_From r) (n_votes n), n_role := Leader, n_leaderID := n_id n,
      n_activePeers := {}, n_matchIndex := Map.empty, n_nextIndex := Map.empty,
      n_appendInFlight := Map.empty, n_snapshotInFlight := Map.empty, n_readReady := False\<rparr>"
    from h win obtain entry p m2 g where
      m2: "appendEntries m [entry] = Some m2"
      and n': "n' = fst (persistLog (m2\<lparr>n_nextIndex := g\<rparr>) [entry] p)"
      and as: "as = [BecameLeader (n_term n'), ResetHeartbeatTimer, ResetCheckQuorumTimer] @
        snd (persistLog (m2\<lparr>n_nextIndex := g\<rparr>) [entry] p)"
      by (auto simp: handleVoteResponse_def Let_def m_def quorum_def Option.bind_eq_Some_conv split_beta)
    define as' where "as' = snd (persistLog (m2\<lparr>n_nextIndex := g\<rparr>) [entry] p)"
    have s: "still m m2 []" "still (m2\<lparr>n_nextIndex := g\<rparr>) n' as'"
      using appendEntries_still [OF m2] n' by (simp_all add: as'_def persistLog_still)
    then have "eview n' = eview m" "n_pendingCommit n' = n_pendingCommit n" "\<forall>a\<in>set as'. quiet (n_term n) a"
      by (auto simp: still_def m_def eview_def)
    with win as [folded as'_def] q show ?thesis
      by (auto intro!: count_step simp: m_def eview_def kept_defs commits_quiet_def quorum_def)
  qed
qed

lemma recordAppendResponse_still: "recordAppendResponse n r = Some n' \<Longrightarrow> still n n' []"
  by (auto simp: recordAppendResponse_def Let_def still_def Option.bind_eq_Some_conv split: if_splits)

lemma replicateAfterResponse_calm:
  assumes "replicateAfterResponse n r pending advanced = Some (n', as)"
  shows "calm n n' as"
proof (cases advanced)
  case True
  with assms obtain n1 as1 where n1: "sendAppendEntries n 0 = Some (n1, as1)"
    and n': "persistCommit n1 as1 = (n', as)"
    by (auto simp: replicateAfterResponse_def Option.bind_eq_Some_conv)
  have s: "still n n1 as1" by (rule sendAppendEntries_still [OF n1])
  then have "calm n1 n' as"
    by (intro persistCommit_calm [OF n']) (auto simp: still_def dest!: eview_term)
  moreover have "calm n n1 []" using s by (intro still_calm) (simp add: still_def)
  ultimately show ?thesis by (rule calm_trans0 [rotated])
next
  case False
  with assms show ?thesis
    by (auto simp: replicateAfterResponse_def Let_def split: if_splits
        intro: still_calm sendAppendEntriesTo_still)
qed

lemma handleAppendEntriesResponse_estep:
  assumes h: "handleAppendEntriesResponse n r = Some (n', as)" and q: "commits_quiet n"
  shows "estep n (EvAppendEntriesResponse r) n' as \<and> commits_quiet n'"
proof (cases "ar_Term r > n_term n")
  case True
  with h show ?thesis
    by (intro stepDown_estep q) (auto simp: handleAppendEntriesResponse_def)
next
  case False
  then consider "n' = n" "as = []" | n1 n2 adv n3 as1 as2 where "recordAppendResponse n r = Some n1"
    "advanceLeaderCommit n1 = Some (n2, adv)"
    "replicateAfterResponse n2 r (appendInFlightOf n (ar_From r)) adv = Some (n3, as1)"
    "acknowledgeRead n3 r = Some (n', as2)" "as = as1 @ as2"
    using h by (auto simp: handleAppendEntriesResponse_def Let_def Option.bind_eq_Some_conv split: if_splits)
  then have "calm n n' as"
  proof cases
    case 2
    show ?thesis unfolding 2(5)
      by (rule calm_trans0 [OF still_calm [OF recordAppendResponse_still [OF 2(1)]]],
          rule calm_trans0 [OF still_calm [OF advanceLeaderCommit_still [OF 2(2)]]],
          rule calm_trans [OF replicateAfterResponse_calm [OF 2(3)]],
          rule still_calm [OF acknowledgeRead_still [OF 2(4)]])
  qed simp
  then show ?thesis using q by (rule calm_estep)
qed

lemma still_quiet: "\<forall>a\<in>set as. quiet (n_term n) a \<Longrightarrow> still n n as"
  by (simp add: still_def)

lemma proposeEntry_still: "proposeEntry n pid entry = Some (n', as) \<Longrightarrow> still n n' as"
  by (auto simp: proposeEntry_def Option.bind_eq_Some_conv split_beta dest!: appendEntries_still)
     (auto simp: still_def persistLog_def Let_def dest!: eview_term)

lemma propose_still:
  "proposeSession n e1 = Some (n', as) \<Longrightarrow> still n n' as"
  "proposeSet n e2 = Some (n', as) \<Longrightarrow> still n n' as"
  "proposeDelete n e3 = Some (n', as) \<Longrightarrow> still n n' as"
  by (auto simp: proposeSession_def proposeSet_def proposeDelete_def split: if_splits
      intro: proposeEntry_still still_quiet)

lemma confirmRead_still: "confirmRead n rid = Some (n', as) \<Longrightarrow> still n n' as"
  by (auto simp: confirmRead_def split: if_splits dest!: sendAppendEntries_still) (auto simp: still_def)

lemma heartbeatRound_still: "heartbeatRound n = Some (n', as) \<Longrightarrow> still n n' as"
  by (auto simp: heartbeatRound_def Option.bind_eq_Some_conv split: if_splits
      dest!: sendAppendEntries_still) (auto simp: still_def)

lemma handleAppendEntriesFailed_still: "still n (handleAppendEntriesFailed n to rid) []"
  by (auto simp: handleAppendEntriesFailed_def Let_def still_def)

lemma handlePreVoteRequest_still: "handlePreVoteRequest n r = (n', as) \<Longrightarrow> still n n' as"
  by (auto simp: handlePreVoteRequest_def Let_def still_def)

lemma checkQuorum_estep:
  "checkQuorum n = (n', as) \<Longrightarrow> commits_quiet n \<Longrightarrow> estep n e n' as \<and> commits_quiet n'"
  by (auto simp: checkQuorum_def kept_defs commits_quiet_def split: if_splits intro!: quiet_step)

lemma hardStatePersisted_estep:
  "hardStatePersisted n pid = (n', as) \<Longrightarrow> commits_quiet n \<Longrightarrow>
   estep n (HardStatePersisted pid) n' as \<and> commits_quiet n'"
proof (cases "n_pendingHardState n pid")
  case None
  assume "hardStatePersisted n pid = (n', as)" "commits_quiet n"
  with None show ?thesis using still_estep [OF still_refl] by (auto simp: hardStatePersisted_def)
next
  case (Some p)
  assume h: "hardStatePersisted n pid = (n', as)" and q: "commits_quiet n"
  show ?thesis
    by (intro conjI persisted_step [where p = p])
       (use Some h q in \<open>auto simp: hardStatePersisted_def Let_def kept_defs commits_quiet_def split: if_splits\<close>)
qed

lemma logEntriesPersisted_calm:
  assumes "logEntriesPersisted n pid = Some (n', as)"
  shows "calm n n' as"
proof (cases "n_pendingLog n pid")
  case None
  with assms show ?thesis by (simp add: logEntriesPersisted_def)
next
  case (Some p)
  define m where "m = n\<lparr>n_pendingLog := map_delete (n_pendingLog n) pid\<rparr>"
  define m1 where "m1 = (if pl_lastIndex p > n_durableLogIndex m
    then m\<lparr>n_durableLogIndex := pl_lastIndex p\<rparr> else m)"
  have s: "still n m1 []" by (simp add: still_def m_def m1_def)
  from assms Some consider "n' = m1" "as = []" | "sendAppendEntries m1 0 = Some (n', as)"
    | "advanceFollowerCommit m1 (pl_leaderCommit p) (appendEntriesResponse m1 (pl_leader p)
         (pl_requestID p) True (pl_lastIndex p) 0 0 (pl_readID p)) = Some (n', as)"
    unfolding logEntriesPersisted_def m_def [symmetric] Let_def
    by (simp add: m_def [symmetric] m1_def [symmetric] split: logPersistencePurpose.splits if_splits)
  then have "calm m1 n' as"
  proof cases
    case 2
    then show ?thesis by (intro still_calm sendAppendEntries_still)
  next
    case 3
    then show ?thesis by (rule advanceFollowerCommit_calm) (rule response_quiet)
  qed simp
  then show ?thesis by (rule calm_trans0 [OF still_calm [OF s]])
qed

lemma commitIndexPersisted_calm:
  assumes "commitIndexPersisted n pid = Some (n', as)"
  shows "calm n n' as"
proof (cases "n_pendingCommit n pid")
  case None
  with assms show ?thesis by (simp add: commitIndexPersisted_def)
next
  case (Some p)
  define m where "m = n\<lparr>n_pendingCommit := map_delete (n_pendingCommit n) pid\<rparr>"
  define m1 where "m1 = (if pc_commitIndex p > n_durableCommitIndex m
    then m\<lparr>n_durableCommitIndex := pc_commitIndex p\<rparr> else m)"
  have m1: "calm n m1 []" by (auto simp: calm_def m_def m1_def commits_quiet_def)
  from assms Some obtain as1 where as1: "applyThrough m1 (pc_commitIndex p) = Some (n', as1)"
    and as: "as = as1 @ pc_after p"
    unfolding commitIndexPersisted_def Let_def m1_def m_def by (auto simp: Option.bind_eq_Some_conv)
  have "calm n n' as1"
    by (rule calm_trans0 [OF m1 still_calm [OF applyThrough_still [OF as1]]])
  with Some as show ?thesis by (auto simp: calm_def commits_quiet_def)
qed

text \<open>Every step of a Node is one of these kinds, as long as its Term has not reached the last
  64-bit value.\<close>

theorem Step_estep:
  assumes h: "Step n e = Some (n', as)" and q: "commits_quiet n" and t: "n_term n \<noteq> - 1"
  shows "estep n e n' as \<and> commits_quiet n'"
proof -
  note steps = startPreVote_estep [OF _ q t] still_estep [OF heartbeatRound_still q]
    checkQuorum_estep [OF _ q] hardStatePersisted_estep [OF _ q]
    calm_estep [OF logEntriesPersisted_calm q] calm_estep [OF commitIndexPersisted_calm q]
    still_estep [OF applyThrough_still q] propose_still [THEN still_estep, OF _ q]
    still_estep [OF confirmRead_still q] still_estep [OF handlePreVoteRequest_still q]
    handlePreVoteResponse_estep [OF _ q t] handleVoteRequest_estep [OF _ q]
    handleVoteResponse_estep [OF _ q] handleAppendEntries_estep [OF _ q]
    handleAppendEntriesResponse_estep [OF _ q]
    handleInstallSnapshot_estep [OF _ q] handleInstallSnapshotResponse_estep [OF _ q]
  show ?thesis
  proof (cases e)
    case (SnapshotCompacted i u)
    with h obtain m where "compactLog n i u = Some m" "n' = m" "as = []" by auto
    then show ?thesis using still_estep [OF compactLog_still q] by simp
  next
    case (AppendEntriesFailed to rid)
    with h show ?thesis using still_estep [OF handleAppendEntriesFailed_still q] by auto
  qed (insert h, simp_all, (erule steps)+)
qed

end
