(* ===== verification/Quorums.thy ===== *)
theory Quorums
  imports Ternion_Prelude
begin

text \<open>
  The contract under which votes and acknowledgements are counted: any two quorums share a member.
  \<open>quorum\<close> of \<^verbatim>\<open>src/internal/raft/raft.go\<close> counts majorities of the fixed membership, which
  is the instance the development interprets the contract with.
\<close>

locale quorum_system =
  fixes is_quorum :: "'a set \<Rightarrow> bool"
  assumes intersect: "is_quorum P \<Longrightarrow> is_quorum Q \<Longrightarrow> P \<inter> Q \<noteq> {}"
begin

lemma common_member:
  assumes "is_quorum P" "is_quorum Q"
  obtains j where "j \<in> P" "j \<in> Q"
  using intersect [OF assms] by blast

text \<open>When every member backs at most one candidate, two candidates with quorums are the same.\<close>

lemma unique_winner:
  assumes "is_quorum P" "\<And>j. j \<in> P \<Longrightarrow> backs j c"
    and "is_quorum Q" "\<And>j. j \<in> Q \<Longrightarrow> backs j d"
    and "\<And>j c d. backs j c \<Longrightarrow> backs j d \<Longrightarrow> c = d"
  shows "c = d"
  using common_member [OF assms(1,3)] assms(2,4,5) by metis

end

text \<open>A majority of a membership list.\<close>

definition majority :: "'a list \<Rightarrow> 'a set \<Rightarrow> bool" where
  "majority ms Q \<longleftrightarrow> Q \<subseteq> set ms \<and> length ms div 2 + 1 \<le> card Q"

lemma majorities_intersect:
  assumes "majority ms P" "majority ms Q"
  shows "P \<inter> Q \<noteq> {}"
proof
  assume empty: "P \<inter> Q = {}"
  have fin: "finite P" "finite Q" using assms by (auto simp: majority_def intro: finite_subset)
  have "card P + card Q = card (P \<union> Q)" using fin empty by (simp add: card_Un_disjoint)
  also have "\<dots> \<le> card (set ms)" using assms by (intro card_mono) (auto simp: majority_def)
  also have "\<dots> \<le> length ms" by (rule card_length)
  finally have "card P + card Q \<le> length ms" .
  moreover have "length ms div 2 + 1 \<le> card P" "length ms div 2 + 1 \<le> card Q"
    using assms by (simp_all add: majority_def)
  ultimately show False by linarith
qed

interpretation majority: quorum_system "majority ms" for ms
  by unfold_locales (rule majorities_intersect)

end
