(* ===== verification/Raft_Cluster.thy ===== *)
theory Raft_Cluster
  imports Raft_Election Quorums
begin

text \<open>
  A cluster of Nodes over an unreliable network with crashes. Everything a Node has ever emitted
  stays available for delivery, so messages may be delayed, lost, duplicated and reordered; hard
  states reach the disk in the order they were written; a crash loses the memory of a Node and any
  suffix of the writes in flight. The log, the clocks, the clients and the snapshot files are left
  unconstrained: timers and client calls may happen at any time, and a restarted Node may find any
  log. Election safety is proved for every schedule of fewer than \<open>2^64 - 1\<close> steps, so that no Term
  and no persistence identifier wraps around.
\<close>

subsection \<open>The transition system\<close>

record Cluster =
  c_node :: "NodeID \<Rightarrow> Node"
  c_disk :: "NodeID \<Rightarrow> HardState"
  c_queue :: "NodeID \<Rightarrow> (u64 \<times> HardState) list" \<comment> \<open>hard states on their way to disk, oldest first\<close>
  c_emitted :: "(NodeID \<times> Action) set" \<comment> \<open>every action a Node has emitted\<close>

text \<open>Which event the delivery of an action is, and where. The runtime fills the fields of an
  \<^verbatim>\<open>InstallSnapshot\<close> that depend on the snapshot file.\<close>

fun delivers :: "NodeID \<Rightarrow> Action \<Rightarrow> NodeID \<Rightarrow> Event \<Rightarrow> bool" where
  "delivers i (SendPreVoteRequest to r) j e \<longleftrightarrow> j = to \<and> e = EvPreVoteRequest r"
| "delivers i (SendPreVoteResponse to r) j e \<longleftrightarrow> j = to \<and> e = EvPreVoteResponse r"
| "delivers i (SendVoteRequest to r) j e \<longleftrightarrow> j = to \<and> e = EvVoteRequest r"
| "delivers i (SendVoteResponse to r) j e \<longleftrightarrow> j = to \<and> e = EvVoteResponse r"
| "delivers i (SendAppendEntries to r) j e \<longleftrightarrow> j = to \<and> e = EvAppendEntries r"
| "delivers i (SendAppendEntriesResponse to r) j e \<longleftrightarrow> j = to \<and> e = EvAppendEntriesResponse r"
| "delivers i (SendInstallSnapshotResponse to r) j e \<longleftrightarrow> j = to \<and> e = EvInstallSnapshotResponse r"
| "delivers i (ActSendInstallSnapshot s) j e \<longleftrightarrow> j = sis_To s \<and>
     (case e of
        EvInstallSnapshot r \<Rightarrow> is_From r = i \<and> is_Term r = sis_Term s \<and> is_RequestID r = sis_RequestID s \<and>
          is_SnapshotIndex r = sis_SnapshotIndex s \<and> is_SnapshotTerm r = sis_SnapshotTerm s
      | _ \<Rightarrow> False)"
| "delivers i _ j e \<longleftrightarrow> False"

text \<open>Events a Node may see at any time: timers, client calls, and completions of other writes.\<close>

fun local_event :: "Event \<Rightarrow> bool" where
  "local_event (HardStatePersisted _) = False"
| "local_event (EvPreVoteRequest _) = False"
| "local_event (EvPreVoteResponse _) = False"
| "local_event (EvVoteRequest _) = False"
| "local_event (EvVoteResponse _) = False"
| "local_event (EvAppendEntries _) = False"
| "local_event (EvAppendEntriesResponse _) = False"
| "local_event (EvInstallSnapshot _) = False"
| "local_event (EvInstallSnapshotResponse _) = False"
| "local_event _ = True"

fun hard_writes :: "Action list \<Rightarrow> (u64 \<times> HardState) list" where
  "hard_writes [] = []"
| "hard_writes (PersistHardState pid t v # as) = (pid, \<lparr>hs_Term = t, hs_VotedFor = v\<rparr>) # hard_writes as"
| "hard_writes (_ # as) = hard_writes as"

definition emit :: "NodeID \<Rightarrow> Node \<Rightarrow> Action list \<Rightarrow> Cluster \<Rightarrow> Cluster" where
  "emit i n as s = s\<lparr>c_node := (c_node s)(i := n),
     c_queue := (c_queue s)(i := c_queue s i @ hard_writes as),
     c_emitted := c_emitted s \<union> Pair i ` set as\<rparr>"

definition write_hard :: "NodeID \<Rightarrow> Cluster \<Rightarrow> Cluster" where
  "write_hard i s = s\<lparr>c_disk := (c_disk s)(i := snd (hd (c_queue s i))),
     c_queue := (c_queue s)(i := tl (c_queue s i))\<rparr>"

definition reboot :: "NodeID \<Rightarrow> HardState \<Rightarrow> Node \<Rightarrow> Cluster \<Rightarrow> Cluster" where
  "reboot i h n s = s\<lparr>c_node := (c_node s)(i := n), c_disk := (c_disk s)(i := h),
     c_queue := (c_queue s)(i := [])\<rparr>"

definition peers_of :: "NodeID list \<Rightarrow> NodeID \<Rightarrow> NodeID list" where
  "peers_of ms i = filter (\<lambda>p. p \<noteq> i) ms"

definition init_node :: "NodeID list \<Rightarrow> NodeID \<Rightarrow> Node" where
  "init_node ms i = the (NewNode i (peers_of ms i))"

definition init :: "NodeID list \<Rightarrow> Cluster" where
  "init ms = \<lparr>c_node = init_node ms, c_disk = (\<lambda>_. \<lparr>hs_Term = 0, hs_VotedFor = ''''\<rparr>),
     c_queue = (\<lambda>_. []), c_emitted = {}\<rparr>"

inductive cluster_step :: "NodeID list \<Rightarrow> Cluster \<Rightarrow> Cluster \<Rightarrow> bool" for ms where
  local_step:
  "\<lbrakk>i \<in> set ms; local_event e; Step (c_node s i) e = Some (n, as)\<rbrakk> \<Longrightarrow> cluster_step ms s (emit i n as s)"
| deliver_step:
  "\<lbrakk>(i, a) \<in> c_emitted s; j \<in> set ms; delivers i a j e; Step (c_node s j) e = Some (n, as)\<rbrakk>
   \<Longrightarrow> cluster_step ms s (emit j n as s)"
| persist_step:
  "\<lbrakk>i \<in> set ms; c_queue s i = (pid, h) # rest; Step (c_node s i) (HardStatePersisted pid) = Some (n, as)\<rbrakk>
   \<Longrightarrow> cluster_step ms s (emit i n as (write_hard i s))"
| crash_step:
  "\<lbrakk>i \<in> set ms; h \<in> set (c_disk s i # map snd (c_queue s i)); rs_HardState r = h;
    NewNodeFromRecoveredState i (peers_of ms i) r = Some n\<rbrakk>
   \<Longrightarrow> cluster_step ms s (reboot i h n s)"

inductive reach :: "NodeID list \<Rightarrow> nat \<Rightarrow> Cluster \<Rightarrow> bool" for ms where
  reach_init: "reach ms 0 (init ms)"
| reach_step: "reach ms k s \<Longrightarrow> cluster_step ms s s' \<Longrightarrow> reach ms (Suc k) s'"

text \<open>A membership: Node identities are distinct and none is the empty string, which the code uses
  for ``no vote''.\<close>

definition membership :: "NodeID list \<Rightarrow> bool" where
  "membership ms \<longleftrightarrow> distinct ms \<and> '''' \<notin> set ms"

subsection \<open>Schedules\<close>

text \<open>A step of the cluster as data, so that a schedule can be executed.\<close>

datatype Choice =
    Happens NodeID Event
  | Delivered NodeID Action NodeID Event
  | HardStateWritten NodeID
  | Rebooted NodeID RecoveredState

definition run_choice :: "NodeID list \<Rightarrow> Choice \<Rightarrow> Cluster \<Rightarrow> Cluster option" where
  "run_choice ms c s =
     (case c of
        Happens i e \<Rightarrow>
          if i \<in> set ms \<and> local_event e
          then map_option (\<lambda>(n, as). emit i n as s) (Step (c_node s i) e) else None
      | Delivered i a j e \<Rightarrow>
          if (i, a) \<in> c_emitted s \<and> j \<in> set ms \<and> delivers i a j e
          then map_option (\<lambda>(n, as). emit j n as s) (Step (c_node s j) e) else None
      | HardStateWritten i \<Rightarrow>
          (case c_queue s i of
             [] \<Rightarrow> None
           | (pid, _) # _ \<Rightarrow>
               if i \<in> set ms
               then map_option (\<lambda>(n, as). emit i n as (write_hard i s)) (Step (c_node s i) (HardStatePersisted pid))
               else None)
      | Rebooted i r \<Rightarrow>
          if i \<in> set ms \<and> rs_HardState r \<in> set (c_disk s i # map snd (c_queue s i))
          then map_option (\<lambda>n. reboot i (rs_HardState r) n s) (NewNodeFromRecoveredState i (peers_of ms i) r)
          else None)"

fun run_schedule :: "NodeID list \<Rightarrow> Choice list \<Rightarrow> Cluster \<Rightarrow> Cluster option" where
  "run_schedule ms [] s = Some s"
| "run_schedule ms (c # cs) s = do { s' \<leftarrow> run_choice ms c s; run_schedule ms cs s' }"

lemma run_choice_step:
  assumes "run_choice ms c s = Some s'"
  shows "cluster_step ms s s'"
proof (cases c)
  case (HardStateWritten i)
  with assms obtain pid h rest n as where "c_queue s i = (pid, h) # rest" "i \<in> set ms"
    "Step (c_node s i) (HardStatePersisted pid) = Some (n, as)" "s' = emit i n as (write_hard i s)"
    by (cases "c_queue s i") (auto simp: run_choice_def split: if_splits prod.splits)
  then show ?thesis using persist_step [of i ms s pid h rest n as] by simp
next
  case (Rebooted i r)
  with assms show ?thesis
    using crash_step [OF _ _ refl, of i ms r s] by (auto simp: run_choice_def split: if_splits)
qed (use assms in \<open>auto simp: run_choice_def intro: cluster_step.intros split: if_splits\<close>)

lemma run_schedule_reach_from:
  "reach ms k s \<Longrightarrow> run_schedule ms cs s = Some s' \<Longrightarrow> reach ms (k + length cs) s'"
proof (induction cs arbitrary: k s)
  case (Cons c cs)
  then obtain s1 where "run_choice ms c s = Some s1" "run_schedule ms cs s1 = Some s'"
    by (auto simp: Option.bind_eq_Some_conv)
  with Cons.IH [of "Suc k" s1] Cons.prems(1) show ?case
    by (auto intro: reach_step run_choice_step)
qed simp

text \<open>A schedule that runs from the initial cluster gives a reachable cluster.\<close>

lemma run_schedule_reach: "run_schedule ms cs (init ms) = Some s \<Longrightarrow> reach ms (length cs) s"
  using run_schedule_reach_from [OF reach_init] by fastforce

text \<open>An election of \<^verbatim>\<open>node-1\<close> in Term 1 with the vote of \<^verbatim>\<open>node-2\<close>.\<close>

definition threeNodeIDs :: "NodeID list" where
  "threeNodeIDs = [''node-1'', ''node-2'', ''node-3'']"

definition election_schedule :: "Choice list" where
  "election_schedule =
     (let pvq = \<lparr>pvq_From = ''node-1'', pvq_Term = 1, pvq_LastLogIndex = 0, pvq_LastLogTerm = 0\<rparr>;
          pvr = \<lparr>pvr_From = ''node-2'', pvr_Term = 1, pvr_CurrentTerm = 0, pvr_Granted = True\<rparr>;
          vq = \<lparr>vq_From = ''node-1'', vq_Term = 1, vq_LastLogIndex = 0, vq_LastLogTerm = 0\<rparr>;
          vr = \<lparr>vr_From = ''node-2'', vr_Term = 1, vr_Granted = True\<rparr>
      in [Happens ''node-1'' ElectionTimeout,
          Delivered ''node-1'' (SendPreVoteRequest ''node-2'' pvq) ''node-2'' (EvPreVoteRequest pvq),
          Delivered ''node-2'' (SendPreVoteResponse ''node-1'' pvr) ''node-1'' (EvPreVoteResponse pvr),
          HardStateWritten ''node-1'',
          Delivered ''node-1'' (SendVoteRequest ''node-2'' vq) ''node-2'' (EvVoteRequest vq),
          HardStateWritten ''node-2'',
          Delivered ''node-2'' (SendVoteResponse ''node-1'' vr) ''node-1'' (EvVoteResponse vr)])"

lemma election_schedule_runs:
  "(case run_schedule threeNodeIDs election_schedule (init threeNodeIDs) of
      None \<Rightarrow> False
    | Some s \<Rightarrow> (''node-1'', BecameLeader 1) \<in> c_emitted s \<and> n_role (c_node s ''node-1'') = Leader \<and>
        n_term (c_node s ''node-1'') = 1 \<and>
        (''node-2'', SendVoteResponse ''node-1'' \<lparr>vr_From = ''node-2'', vr_Term = 1, vr_Granted = True\<rparr>)
          \<in> c_emitted s)"
  by code_simp

end
