(* ===== verification/Election_Safety.thy ===== *)
theory Election_Safety
  imports Raft_Cluster
begin

text \<open>
  The inductive invariant of the cluster and election safety. The invariant has a part per Node
  (\<open>node_inv\<close>: its current Term and vote are the last of an increasing chain that starts on disk)
  and a part about everything emitted so far (\<open>emitted_inv\<close>: whoever asked for or granted a vote
  had it on disk, and no Node supports two candidates in one Term).
\<close>

subsection \<open>The order on hard states\<close>

abbreviation HS :: "u64 \<Rightarrow> NodeID \<Rightarrow> HardState" where
  "HS t v \<equiv> \<lparr>hs_Term = t, hs_VotedFor = v\<rparr>"

definition vle :: "HardState \<Rightarrow> HardState \<Rightarrow> bool" where
  "vle g h \<longleftrightarrow> hs_Term g < hs_Term h \<or>
     hs_Term g = hs_Term h \<and> (hs_VotedFor g = '''' \<or> hs_VotedFor g = hs_VotedFor h)"

lemma vle_refl [simp]: "vle h h"
  by (simp add: vle_def)

lemma vle_trans [trans]: "vle f g \<Longrightarrow> vle g h \<Longrightarrow> vle f h"
  by (auto simp: vle_def)

lemma vle_same_term: "vle (HS t v) (HS t w) \<Longrightarrow> v \<noteq> '''' \<Longrightarrow> v = w"
  by (simp add: vle_def)

lemma vle_later [simp]: "t < t' \<Longrightarrow> vle (HS t v) (HS t' v')"
  by (simp add: vle_def)

lemma vle_last:
  assumes "sorted_wrt vle xs" "x \<in> set xs"
  shows "vle x (last xs)"
  using assms by (cases xs rule: rev_cases) (auto simp: sorted_wrt_append)

lemma sorted_vle_snoc:
  assumes "sorted_wrt vle xs" "xs \<noteq> []" "vle (last xs) y"
  shows "sorted_wrt vle (xs @ [y])"
  using assms vle_last [OF assms(1)] by (auto simp: sorted_wrt_append intro: vle_trans)

subsection \<open>The invariant\<close>

text \<open>Node \<open>j\<close> granted its vote of Term \<open>t\<close> to \<open>c\<close>; \<open>c\<close> asked for votes in Term \<open>t\<close>.\<close>

definition granted :: "(NodeID \<times> Action) set \<Rightarrow> NodeID \<Rightarrow> u64 \<Rightarrow> NodeID \<Rightarrow> bool" where
  "granted E j t c \<longleftrightarrow> (j, SendVoteResponse c \<lparr>vr_From = j, vr_Term = t, vr_Granted = True\<rparr>) \<in> E"

definition requested :: "(NodeID \<times> Action) set \<Rightarrow> u64 \<Rightarrow> NodeID \<Rightarrow> bool" where
  "requested E t c \<longleftrightarrow> (\<exists>p q. (c, SendVoteRequest p q) \<in> E \<and> vq_Term q = t)"

text \<open>Node \<open>j\<close> supports \<open>c\<close> in Term \<open>t\<close>: by its vote, or by standing itself.\<close>

definition backs :: "(NodeID \<times> Action) set \<Rightarrow> u64 \<Rightarrow> NodeID \<Rightarrow> NodeID \<Rightarrow> bool" where
  "backs E t j c \<longleftrightarrow> granted E j t c \<or> (j = c \<and> requested E t c)"

lemma election_mono:
  "E \<subseteq> E' \<Longrightarrow> granted E j t c \<Longrightarrow> granted E' j t c"
  "E \<subseteq> E' \<Longrightarrow> requested E t c \<Longrightarrow> requested E' t c"
  "E \<subseteq> E' \<Longrightarrow> backs E t j c \<Longrightarrow> backs E' t j c"
  by (auto simp: granted_def requested_def backs_def)

text \<open>An effect that waits for the hard state \<open>HS t v\<close> of Node \<open>i\<close>.\<close>

definition vote_ok :: "(NodeID \<times> Action) set \<Rightarrow> NodeID \<Rightarrow> u64 \<Rightarrow> NodeID \<Rightarrow> Action \<Rightarrow> bool" where
  "vote_ok E i t v a \<longleftrightarrow> quiet t a \<or>
     (\<exists>p q. a = SendVoteRequest p q \<and> vq_From q = i \<and> vq_Term q = t \<and> v = i) \<or>
     (a = SendVoteResponse v \<lparr>vr_From = i, vr_Term = t, vr_Granted = True\<rparr> \<and> v \<noteq> '''' \<and> requested E t v)"

definition queue_ok :: "(NodeID \<times> Action) set \<Rightarrow> NodeID \<Rightarrow> Node \<Rightarrow> (u64 \<times> HardState) list \<Rightarrow> bool" where
  "queue_ok E i n q \<longleftrightarrow> distinct (map fst q) \<and>
     (\<forall>(pid, h)\<in>set q. unat pid \<le> unat (n_nextHardStatePersistence n) \<and>
        (\<exists>p. n_pendingHardState n pid = Some p \<and> ph_term p = hs_Term h \<and> ph_votedFor p = hs_VotedFor h \<and>
           (\<forall>a\<in>set (ph_after p). vote_ok E i (ph_term p) (ph_votedFor p) a)))"

definition role_ok :: "(NodeID \<times> Action) set \<Rightarrow> NodeID \<Rightarrow> Node \<Rightarrow> bool" where
  "role_ok E i n \<longleftrightarrow>
     (n_role n = Candidate \<longrightarrow> n_votedFor n = i \<and> (\<forall>j\<in>n_votes n. j = i \<or> granted E j (n_term n) i)) \<and>
     (n_role n = Leader \<longrightarrow> (i, BecameLeader (n_term n)) \<in> E)"

text \<open>From the disk through the writes in flight to the current hard state \<open>h\<close>.\<close>

definition chain_ok :: "HardState \<Rightarrow> (u64 \<times> HardState) list \<Rightarrow> HardState \<Rightarrow> bool" where
  "chain_ok d q h \<longleftrightarrow> sorted_wrt vle (d # map snd q) \<and> last (d # map snd q) = h"

definition node_inv ::
  "NodeID list \<Rightarrow> nat \<Rightarrow> (NodeID \<times> Action) set \<Rightarrow> NodeID \<Rightarrow> Node \<Rightarrow> HardState \<Rightarrow> (u64 \<times> HardState) list \<Rightarrow> bool"
where
  "node_inv ms k E i n d q \<longleftrightarrow>
     n_id n = i \<and> n_peers n = sort (peers_of ms i) \<and> commits_quiet n \<and>
     unat (n_term n) \<le> k \<and> unat (n_nextHardStatePersistence n) \<le> k \<and>
     HS (n_durableTerm n) (n_durableVotedFor n) = d \<and> chain_ok d q (HS (n_term n) (n_votedFor n)) \<and>
     queue_ok E i n q \<and> role_ok E i n"

text \<open>The Term a sent message carries.\<close>

fun act_term :: "Action \<Rightarrow> u64" where
  "act_term (SendPreVoteResponse _ r) = pvr_CurrentTerm r"
| "act_term (SendVoteRequest _ r) = vq_Term r"
| "act_term (SendVoteResponse _ r) = vr_Term r"
| "act_term (SendAppendEntries _ r) = ae_Term r"
| "act_term (SendAppendEntriesResponse _ r) = ar_Term r"
| "act_term (ActSendInstallSnapshot r) = sis_Term r"
| "act_term (SendInstallSnapshotResponse _ r) = ir_Term r"
| "act_term _ = 0"

definition action_ok :: "NodeID list \<Rightarrow> (NodeID \<times> Action) set \<Rightarrow> NodeID \<Rightarrow> Action \<Rightarrow> bool" where
  "action_ok ms E i a \<longleftrightarrow>
     (case a of
        SendVoteRequest p q \<Rightarrow> vq_From q = i
      | SendVoteResponse c r \<Rightarrow> vr_Granted r \<longrightarrow> vr_From r = i \<and> requested E (vr_Term r) c
      | BecameLeader t \<Rightarrow> \<exists>Q. majority ms Q \<and> (\<forall>j\<in>Q. backs E t j i)
      | _ \<Rightarrow> True)"

definition emitted_inv ::
  "NodeID list \<Rightarrow> nat \<Rightarrow> (NodeID \<times> Action) set \<Rightarrow> (NodeID \<Rightarrow> HardState) \<Rightarrow> bool" where
  "emitted_inv ms k E D \<longleftrightarrow>
     (\<forall>(i, a)\<in>E. i \<in> set ms \<and> unat (act_term a) \<le> k \<and> action_ok ms E i a) \<and>
     (\<forall>j t c. backs E t j c \<longrightarrow> c \<noteq> '''' \<and> vle (HS t c) (D j)) \<and>
     (\<forall>j t c d. backs E t j c \<longrightarrow> backs E t j d \<longrightarrow> c = d)"

definition cluster_inv :: "NodeID list \<Rightarrow> nat \<Rightarrow> Cluster \<Rightarrow> bool" where
  "cluster_inv ms k s \<longleftrightarrow> emitted_inv ms k (c_emitted s) (c_disk s) \<and>
     (\<forall>i\<in>set ms. node_inv ms k (c_emitted s) i (c_node s i) (c_disk s i) (c_queue s i))"

subsection \<open>Monotonicity\<close>

lemma vote_ok_mono: "E \<subseteq> E' \<Longrightarrow> vote_ok E i t v a \<Longrightarrow> vote_ok E' i t v a"
  unfolding vote_ok_def using election_mono(2) by blast

lemma queue_ok_mono: "E \<subseteq> E' \<Longrightarrow> queue_ok E i n q \<Longrightarrow> queue_ok E' i n q"
  unfolding queue_ok_def using vote_ok_mono by (fastforce split: prod.splits)

lemma role_ok_mono: "E \<subseteq> E' \<Longrightarrow> role_ok E i n \<Longrightarrow> role_ok E' i n"
  unfolding role_ok_def using election_mono(1) by blast

lemma node_inv_mono:
  "E \<subseteq> E' \<Longrightarrow> k \<le> k' \<Longrightarrow> node_inv ms k E i n d q \<Longrightarrow> node_inv ms k' E' i n d q"
  by (auto simp: node_inv_def intro: queue_ok_mono role_ok_mono)

lemma action_ok_mono: "E \<subseteq> E' \<Longrightarrow> action_ok ms E i a \<Longrightarrow> action_ok ms E' i a"
  by (cases a) (simp_all add: action_ok_def, (blast intro: election_mono)+)

subsection \<open>What a step emits keeps the invariant of the messages\<close>

text \<open>An action \<open>a\<close> that Node \<open>i\<close> may emit while its disk holds \<open>h\<close>.\<close>

definition emission_ok :: "NodeID list \<Rightarrow> nat \<Rightarrow> (NodeID \<times> Action) set \<Rightarrow> NodeID \<Rightarrow> HardState \<Rightarrow> Action \<Rightarrow> bool"
where
  "emission_ok ms k E i h a \<longleftrightarrow>
     (\<exists>t. quiet t a \<and> unat t \<le> k) \<or>
     (vote_ok E i (hs_Term h) (hs_VotedFor h) a \<and> unat (hs_Term h) \<le> k) \<or>
     (\<exists>pid t v. a = PersistHardState pid t v) \<or>
     (\<exists>t Q. a = BecameLeader t \<and> majority ms Q \<and> (\<forall>j\<in>Q. backs E t j i))"

lemma quiet_act_term: "quiet t a \<Longrightarrow> act_term a \<le> t"
  by (cases a) auto

lemma quiet_action_ok: "quiet t a \<Longrightarrow> action_ok ms E i a"
  by (cases a) (auto simp: action_ok_def)

lemma vote_ok_act_term: "vote_ok E i t v a \<Longrightarrow> act_term a \<le> t"
  by (auto simp: vote_ok_def dest: quiet_act_term)

lemma vote_ok_action_ok: "vote_ok E i t v a \<Longrightarrow> action_ok ms E i a"
  by (auto simp: vote_ok_def dest: quiet_action_ok) (auto simp: action_ok_def)

lemma emission_action:
  assumes "emission_ok ms k E i h a"
  shows "unat (act_term a) \<le> k \<and> action_ok ms E i a"
  using assms unfolding emission_ok_def
proof (elim disjE exE conjE)
  fix t assume "quiet t a" "unat t \<le> k"
  then show ?thesis
    using quiet_act_term quiet_action_ok by (fastforce simp: word_le_nat_alt)
next
  assume "vote_ok E i (hs_Term h) (hs_VotedFor h) a" "unat (hs_Term h) \<le> k"
  then show ?thesis
    using vote_ok_act_term vote_ok_action_ok by (fastforce simp: word_le_nat_alt)
qed (auto simp: action_ok_def)

lemma backs_extend:
  assumes "backs (E \<union> Pair i ` set as) t j c" and "\<forall>a\<in>set as. emission_ok ms k E i h a" and "i \<noteq> ''''"
  shows "backs E t j c \<or> j = i \<and> HS t c = h \<and> c \<noteq> ''''"
proof (rule disjCI)
  assume no: "\<not> (j = i \<and> HS t c = h \<and> c \<noteq> '''')"
  have new: "a \<in> set as \<Longrightarrow> a \<noteq> SendVoteResponse c \<lparr>vr_From = i, vr_Term = t, vr_Granted = True\<rparr> \<or> j \<noteq> i"
    "a \<in> set as \<Longrightarrow> a = SendVoteRequest p q \<Longrightarrow> vq_Term q = t \<Longrightarrow> j \<noteq> i \<or> c \<noteq> i" for a p q
    using assms(2,3) no by (force simp: emission_ok_def vote_ok_def)+
  show "backs E t j c"
    using assms(1) new unfolding backs_def granted_def requested_def by fastforce
qed

lemma emitted_inv_extend:
  assumes inv: "emitted_inv ms k E D" and i: "i \<in> set ms" "i \<noteq> ''''" and k: "k \<le> k'"
    and D: "vle (D i) (D' i)" "\<And>j. j \<noteq> i \<Longrightarrow> D' j = D j"
    and as: "\<forall>a\<in>set as. emission_ok ms k' E i (D' i) a"
  shows "emitted_inv ms k' (E \<union> Pair i ` set as) D'"
proof -
  let ?E = "E \<union> Pair i ` set as"
  have sub: "E \<subseteq> ?E" by blast
  have D': "vle (D j) (D' j)" for j using D by (cases "j = i") auto
  have old: "backs E t j c \<Longrightarrow> c \<noteq> '''' \<and> vle (HS t c) (D' j)" for t j c
    using inv D' vle_trans unfolding emitted_inv_def by blast
  have vs: "backs ?E t j c \<Longrightarrow> c \<noteq> '''' \<and> vle (HS t c) (D' j)" for t j c
    using backs_extend [OF _ as i(2)] old by (metis vle_refl)
  have "c = d" if "backs ?E t j c" "backs ?E t j d" for t j c d
  proof (cases "backs E t j c \<and> backs E t j d")
    case True
    with inv show ?thesis unfolding emitted_inv_def by blast
  next
    case False
    with that have "HS t c = D' i \<and> j = i \<or> HS t d = D' i \<and> j = i"
      using backs_extend [OF _ as i(2)] by blast
    with vs [OF that(1)] vs [OF that(2)] show ?thesis by (metis vle_same_term)
  qed
  moreover have "\<forall>(j, a)\<in>?E. j \<in> set ms \<and> unat (act_term a) \<le> k' \<and> action_ok ms ?E j a"
    using inv emission_action [of ms k' E i "D' i"] as i(1) k action_ok_mono [OF sub]
    unfolding emitted_inv_def by fastforce
  ultimately show ?thesis unfolding emitted_inv_def using vs by blast
qed

subsection \<open>A step of a Node keeps its invariant\<close>

text \<open>What delivery guarantees about an event at Node \<open>i\<close>.\<close>

definition event_ok :: "nat \<Rightarrow> (NodeID \<times> Action) set \<Rightarrow> NodeID \<Rightarrow> Event \<Rightarrow> bool" where
  "event_ok k E i e \<longleftrightarrow> unat (event_term e) \<le> k \<and> (\<forall>pid. e \<noteq> HardStatePersisted pid) \<and>
     (\<forall>q. e = EvVoteRequest q \<longrightarrow> vq_From q \<noteq> '''' \<and> requested E (vq_Term q) (vq_From q)) \<and>
     (\<forall>r. e = EvVoteResponse r \<longrightarrow> vr_Granted r \<longrightarrow>
        granted E (vr_From r) (vr_Term r) i \<and> requested E (vr_Term r) i)"

lemma hard_writes_append [simp]: "hard_writes (as @ bs) = hard_writes as @ hard_writes bs"
  by (induction as rule: hard_writes.induct) simp_all

lemma hard_writes_none: "\<forall>a\<in>set as. \<forall>pid t v. a \<noteq> PersistHardState pid t v \<Longrightarrow> hard_writes as = []"
  by (induction as rule: hard_writes.induct) auto

lemma hard_writes_quiet: "\<forall>a\<in>set as. quiet t a \<Longrightarrow> hard_writes as = []"
  by (rule hard_writes_none) auto

lemma queue_ok_kept:
  "queue_ok E i n q \<Longrightarrow> n_nextHardStatePersistence n' = n_nextHardStatePersistence n \<Longrightarrow>
   n_pendingHardState n' = n_pendingHardState n \<Longrightarrow> queue_ok E i n' q"
  by (simp add: queue_ok_def)

lemma chain_ok_snoc: "chain_ok d q g \<Longrightarrow> vle g h \<Longrightarrow> chain_ok d (q @ [(pid, h)]) h"
  using sorted_vle_snoc [of "d # map snd q" h] by (simp add: chain_ok_def)

lemma chain_ok_vle: "chain_ok d q h \<Longrightarrow> vle d h"
  using vle_last [of "d # map snd q" d] by (simp add: chain_ok_def)

text \<open>A step that persists no hard state.\<close>

lemma kept_node_inv:
  assumes inv: "node_inv ms k E i n d q" and "identity_kept n n'" "durable_kept n n'" "hard_kept n n'"
    and "commits_quiet n'" "hard_writes as = []" "E \<subseteq> E'" "role_ok E' i n'"
  shows "node_inv ms (Suc k) E' i n' d (q @ hard_writes as)"
  using assms queue_ok_mono [OF \<open>E \<subseteq> E'\<close> queue_ok_kept [of E i n q n']]
  by (simp add: node_inv_def kept_defs)

text \<open>A step that sends the current hard state to disk.\<close>

lemma persisted_queue:
  assumes q: "queue_ok E i n q" and p: "persisted_with n n' after as"
    and k: "unat (n_nextHardStatePersistence n) \<le> k" "Suc k < 2 ^ 64"
    and after: "\<forall>a\<in>set after. vote_ok E i (n_term n') (n_votedFor n') a"
  shows "queue_ok E i n' (q @ hard_writes as) \<and> unat (n_nextHardStatePersistence n') \<le> Suc k \<and>
    hard_writes as = [(n_nextHardStatePersistence n + 1, HS (n_term n') (n_votedFor n'))]"
proof -
  let ?pid = "n_nextHardStatePersistence n + 1"
  have nxt: "unat ?pid = Suc (unat (n_nextHardStatePersistence n))"
    by (rule unat_plus_one_max) (use k in \<open>auto simp: unat_max_u64\<close>)
  have fresh: "?pid \<notin> fst ` set q"
    using q nxt unfolding queue_ok_def by force
  show ?thesis
    using q p nxt fresh k after unfolding queue_ok_def persisted_with_def
    by (auto simp: image_iff) (force+)
qed

lemma persisted_node_inv:
  assumes inv: "node_inv ms k E i n d q" and kept: "identity_kept n n'" "durable_kept n n'" "commits_quiet n'"
    and p: "persisted_with n n' after as" and k: "Suc k < 2 ^ 64"
    and up: "vle (HS (n_term n) (n_votedFor n)) (HS (n_term n') (n_votedFor n'))" "unat (n_term n') \<le> Suc k"
    and after: "\<forall>a\<in>set after. vote_ok E i (n_term n') (n_votedFor n') a"
    and E: "E \<subseteq> E'" and role: "role_ok E' i n'"
  shows "node_inv ms (Suc k) E' i n' d (q @ hard_writes as)"
proof -
  have "unat (n_nextHardStatePersistence n) \<le> k" "queue_ok E i n q" using inv by (simp_all add: node_inv_def)
  note pq = persisted_queue [OF this(2) p this(1) k after]
  have "chain_ok d (q @ hard_writes as) (HS (n_term n') (n_votedFor n'))"
    using chain_ok_snoc [OF _ up(1), of d q] inv pq by (simp add: node_inv_def)
  then show ?thesis
    using inv kept pq up(2) role queue_ok_mono [OF E conjunct1 [OF pq]]
    by (simp add: node_inv_def kept_defs)
qed

lemma quiet_emission:
  "\<forall>a\<in>set as. quiet t a \<Longrightarrow> unat t \<le> k \<Longrightarrow> \<forall>a\<in>set as. emission_ok ms k E i h a"
  by (auto simp: emission_ok_def)

lemma persisted_emission: "persisted_with n n' after as \<Longrightarrow> \<forall>a\<in>set as. emission_ok ms k E i h a"
  by (auto simp: persisted_with_def emission_ok_def)

lemma quorum_majority:
  assumes "n_peers n = sort (peers_of ms i)" "distinct ms" "i \<in> set ms"
  shows "quorum n = length ms div 2 + 1"
proof -
  have "peers_of ms i = remove1 i ms"
    using assms(2) by (simp add: peers_of_def distinct_remove1_removeAll removeAll_filter_not_eq eq_commute)
  then show ?thesis using assms by (simp add: quorum_def length_remove1)
qed

lemma backed_votes:
  assumes e: "emitted_inv ms k E D" and req: "requested E t i" and i: "i \<in> set ms"
    and votes: "\<forall>j\<in>Q. j = i \<or> granted E j t i"
  shows "Q \<subseteq> set ms \<and> (\<forall>j\<in>Q. backs E t j i)"
  using assms unfolding emitted_inv_def backs_def granted_def by fastforce

lemma grant_preserves:
  assumes inv: "node_inv ms k E i n d q" and cq: "commits_quiet n'" and ms: "i \<in> set ms" "membership ms"
    and ev: "event_ok k E i e" and k: "Suc k < 2 ^ 64"
    and st: "identity_kept n n'" "durable_kept n n'" "e = EvVoteRequest r" "n_term n' = vq_Term r"
      "n_term n < vq_Term r \<and> n_role n' = Follower \<or> n_term n = vq_Term r \<and>
       n_votedFor n \<in> {'''', vq_From r} \<and> n_role n' = n_role n \<and> n_votes n' = n_votes n"
      "n_votedFor n' = vq_From r" "persisted_with n n' (voteResponse n' (vq_From r) True) as"
  shows "node_inv ms (Suc k) (E \<union> Pair i ` set as) i n' d (q @ hard_writes as) \<and>
    (\<forall>a\<in>set as. emission_ok ms (Suc k) E i d a)"
proof -
  have ev': "unat (vq_Term r) \<le> k" "vq_From r \<noteq> ''''" "requested E (vq_Term r) (vq_From r)"
    using ev st(3) by (auto simp: event_ok_def)
  have after: "\<forall>a\<in>set (voteResponse n' (vq_From r) True). vote_ok E i (n_term n') (n_votedFor n') a"
    using st(1,4,6) ev' inv by (auto simp: vote_ok_def voteResponse_def node_inv_def kept_defs)
  have up: "vle (HS (n_term n) (n_votedFor n)) (HS (n_term n') (n_votedFor n'))"
    using st(4,5,6) by (auto simp: vle_def)
  have "role_ok E i n'"
    using st(4,5,6) inv ms by (auto simp: role_ok_def node_inv_def membership_def)
  then show ?thesis
    using persisted_node_inv [OF inv st(1,2) cq st(7) k up _ after, of "E \<union> Pair i ` set as"]
      persisted_emission [OF st(7)] st(4) ev'(1) role_ok_mono [of E "E \<union> Pair i ` set as"]
    by simp
qed

lemma regrant_preserves:
  assumes inv: "node_inv ms k E i n d q" and cq: "commits_quiet n'" and ev: "event_ok k E i e"
    and st: "identity_kept n n'" "durable_kept n n'" "hard_kept (n\<lparr>n_votedFor := vq_From r\<rparr>) n'"
      "e = EvVoteRequest r" "n_term n = vq_Term r" "n_votedFor n \<in> {'''', vq_From r}"
      "n_durableTerm n = vq_Term r" "n_durableVotedFor n = vq_From r"
      "n_role n' = n_role n" "n_votes n' = n_votes n" "as = voteResponse n' (vq_From r) True"
  shows "node_inv ms (Suc k) (E \<union> Pair i ` set as) i n' d (q @ hard_writes as) \<and>
    (\<forall>a\<in>set as. emission_ok ms (Suc k) E i d a)"
proof -
  have ev': "unat (vq_Term r) \<le> k" "vq_From r \<noteq> ''''" "requested E (vq_Term r) (vq_From r)"
    using ev st(4) by (auto simp: event_ok_def)
  have d: "d = HS (vq_Term r) (vq_From r)" and "vle d (HS (n_term n) (n_votedFor n))"
    using inv st(7,8) by (auto simp: node_inv_def intro: chain_ok_vle)
  then have v: "n_votedFor n = vq_From r" using st(5) ev'(2) vle_same_term by metis
  then have "hard_kept n n'" using st(3) by (simp add: hard_kept_def)
  moreover have "role_ok E i n'" using st(9,10) inv calculation by (simp add: role_ok_def node_inv_def hard_kept_def)
  moreover have "hard_writes as = []" using st(11) by (simp add: voteResponse_def)
  ultimately have "node_inv ms (Suc k) (E \<union> Pair i ` set as) i n' d (q @ hard_writes as)"
    using kept_node_inv [OF inv st(1,2) _ cq] role_ok_mono [of E "E \<union> Pair i ` set as"] by simp
  moreover have "n_id n' = i" "n_term n' = vq_Term r"
    using st(1,3,5) inv by (auto simp: node_inv_def kept_defs)
  ultimately show ?thesis
    using d ev' st(11) by (auto simp: emission_ok_def vote_ok_def voteResponse_def)
qed

lemma campaign_preserves:
  assumes inv: "node_inv ms k E i n d q" and cq: "commits_quiet n'" and k: "Suc k < 2 ^ 64"
    and st: "identity_kept n n'" "durable_kept n n'" "n_term n' = n_term n + 1" "n_votedFor n' = n_id n"
      "n_role n' = Candidate" "n_votes n' = {n_id n}" "persisted_with n n' after as"
      "\<forall>a\<in>set after. quiet 0 a \<or> (\<exists>p\<in>set (n_peers n). \<exists>q. a = SendVoteRequest p q \<and>
         vq_From q = n_id n \<and> vq_Term q = n_term n + 1)" "\<forall>a\<in>set qs. quiet 0 a"
  shows "node_inv ms (Suc k) (E \<union> Pair i ` set (qs @ as)) i n' d (q @ hard_writes (qs @ as)) \<and>
    (\<forall>a\<in>set (qs @ as). emission_ok ms (Suc k) E i d a)"
proof -
  have t: "unat (n_term n) \<le> k" "n_id n = i" using inv by (simp_all add: node_inv_def)
  have u: "unat (n_term n + 1) = Suc (unat (n_term n))"
    by (rule unat_plus_one_max) (use t k in \<open>auto simp: unat_max_u64\<close>)
  have up: "vle (HS (n_term n) (n_votedFor n)) (HS (n_term n') (n_votedFor n'))"
    using u st(3) by (simp add: vle_def word_less_nat_alt)
  have after: "\<forall>a\<in>set after. vote_ok E i (n_term n') (n_votedFor n') a"
    using st(3,4,8) t(2) by (fastforce simp: vote_ok_def intro: quiet_mono)
  have role: "role_ok (E \<union> Pair i ` set (qs @ as)) i n'"
    using st(4-6) t(2) by (simp add: role_ok_def)
  have qs: "hard_writes qs = []" by (rule hard_writes_quiet [OF st(9)])
  show ?thesis
    using persisted_node_inv [OF inv st(1,2) cq st(7) k up _ after _ role]
      persisted_emission [OF st(7)] quiet_emission [OF st(9), of "Suc k"]
      st(3) u t qs by auto
qed

lemma count_preserves:
  assumes inv: "node_inv ms k E i n d q" and cq: "commits_quiet n'" and em: "emitted_inv ms k E D"
    and ms: "i \<in> set ms" "membership ms" and ev: "event_ok k E i e"
    and st: "identity_kept n n'" "durable_kept n n'" "hard_kept n n'" "e = EvVoteResponse r" "n_role n = Candidate"
      "vr_Term r = n_term n" "vr_Granted r" "n_votes n' = insert (vr_From r) (n_votes n)"
      "n_role n' = Candidate \<and> as = [] \<or> n_role n' = Leader \<and> quorum n \<le> card (n_votes n') \<and>
       (\<exists>as'. as = BecameLeader (n_term n) # as' \<and> (\<forall>a\<in>set as'. quiet (n_term n) a))"
  shows "node_inv ms (Suc k) (E \<union> Pair i ` set as) i n' d (q @ hard_writes as) \<and>
    (\<forall>a\<in>set as. emission_ok ms (Suc k) E i d a)"
proof -
  have ev': "granted E (vr_From r) (n_term n) i" "requested E (n_term n) i"
    using ev st(4,6,7) by (auto simp: event_ok_def)
  have votes: "\<forall>j\<in>n_votes n'. j = i \<or> granted E j (n_term n) i"
    using inv st(5,8) ev' by (auto simp: node_inv_def role_ok_def)
  note bv = backed_votes [OF em ev'(2) ms(1) votes]
  have t: "n_term n' = n_term n" "n_votedFor n' = i" "unat (n_term n) \<le> k"
    using inv st(3,5) by (auto simp: node_inv_def role_ok_def kept_defs)
  have quorum: "quorum n = length ms div 2 + 1"
    using quorum_majority inv ms by (simp add: node_inv_def membership_def)
  have hw: "hard_writes as = []" using st(9) by (fastforce intro!: hard_writes_none)
  have "role_ok (E \<union> Pair i ` set as) i n'"
    using st(9) votes t by (auto simp: role_ok_def intro: election_mono)
  moreover have "\<forall>a\<in>set as. emission_ok ms (Suc k) E i d a"
    using st(9) bv t(3) quorum
    by (fastforce simp: emission_ok_def majority_def)
  ultimately show ?thesis
    using kept_node_inv [OF inv st(1-3) cq hw] by simp
qed

lemma estep_preserves:
  assumes step: "estep n e n' as" and inv: "node_inv ms k E i n d q" and cq: "commits_quiet n'"
    and em: "emitted_inv ms k E D" and ms: "i \<in> set ms" "membership ms" and ev: "event_ok k E i e"
    and k: "Suc k < 2 ^ 64"
  shows "node_inv ms (Suc k) (E \<union> Pair i ` set as) i n' d (q @ hard_writes as) \<and>
    (\<forall>a\<in>set as. emission_ok ms (Suc k) E i d a)"
  using step
proof cases
  case quiet_step
  have "role_ok (E \<union> Pair i ` set as) i n'"
    using role_ok_mono [of E "E \<union> Pair i ` set as" i n] inv quiet_step
    by (auto simp: node_inv_def role_ok_def kept_defs)
  moreover have "unat (n_term n) \<le> Suc k" using inv by (simp add: node_inv_def)
  ultimately show ?thesis
    using kept_node_inv [OF inv quiet_step(1-3) cq hard_writes_quiet [OF quiet_step(5)]]
      quiet_emission [OF quiet_step(5)] by simp
next
  case (adopt_step after)
  have t: "unat (event_term e) \<le> k" using ev by (simp add: event_ok_def)
  have "\<forall>a\<in>set after. vote_ok E i (n_term n') (n_votedFor n') a"
    using adopt_step by (simp add: vote_ok_def)
  then show ?thesis
    using persisted_node_inv [OF inv adopt_step(1,2) cq adopt_step(7) k, of "E \<union> Pair i ` set as"]
      persisted_emission [OF adopt_step(7)] adopt_step(3-6) t
    by (simp add: role_ok_def)
next
  case (grant_step r)
  show ?thesis by (rule grant_preserves [OF inv cq ms ev k grant_step])
next
  case (regrant_step r)
  show ?thesis by (rule regrant_preserves [OF inv cq ev regrant_step])
next
  case (campaign_step after as' qs)
  show ?thesis unfolding campaign_step(1) by (rule campaign_preserves [OF inv cq k campaign_step(2-)])
next
  case (persisted_step pid p)
  with ev show ?thesis by (simp add: event_ok_def)
next
  case (count_step r)
  show ?thesis by (rule count_preserves [OF inv cq em ms ev count_step])
qed

lemma persisted_preserves:
  assumes inv: "node_inv ms k E i n d ((pid, h) # rest)" and step: "hardStatePersisted n pid = (n', as)"
    and k: "Suc k < 2 ^ 64"
  shows "node_inv ms (Suc k) (E \<union> Pair i ` set as) i n' h (rest @ hard_writes as) \<and>
    (\<forall>a\<in>set as. emission_ok ms (Suc k) E i h a) \<and> vle d h"
proof -
  have q: "queue_ok E i n ((pid, h) # rest)" and c: "chain_ok d ((pid, h) # rest) (HS (n_term n) (n_votedFor n))"
    and t: "unat (n_term n) \<le> k"
    using inv by (simp_all add: node_inv_def)
  from q obtain p where p: "n_pendingHardState n pid = Some p" "h = HS (ph_term p) (ph_votedFor p)"
    and after: "\<forall>a\<in>set (ph_after p). vote_ok E i (ph_term p) (ph_votedFor p) a"
    by (auto simp: queue_ok_def)
  have as: "as = [] \<or> as = ph_after p \<and> ph_term p = n_term n"
    and n': "n' = n\<lparr>n_pendingHardState := map_delete (n_pendingHardState n) pid,
                    n_durableTerm := ph_term p, n_durableVotedFor := ph_votedFor p\<rparr>"
    using step p(1) by (auto simp: hardStatePersisted_def Let_def split: if_splits)
  have hw: "hard_writes as = []"
    using as after by (auto simp: vote_ok_def intro!: hard_writes_none)
  have "queue_ok E i n' rest"
    using q n' by (force simp: queue_ok_def)
  moreover have "chain_ok h rest (HS (n_term n) (n_votedFor n))" "vle d h"
    using c by (auto simp: chain_ok_def)
  ultimately have "node_inv ms (Suc k) E i n' h rest \<and> vle d h"
    using inv n' p(2) by (auto simp: node_inv_def commits_quiet_def role_ok_def)
  moreover have "\<forall>a\<in>set as. emission_ok ms (Suc k) E i h a"
    using as after t p(2) by (auto simp: emission_ok_def)
  ultimately show ?thesis
    using hw node_inv_mono [of E "E \<union> Pair i ` set as" "Suc k" "Suc k"] by simp
qed

lemma NewNode_hard:
  assumes "NewNodeFromRecoveredState i ps r = Some n"
  shows "n_id n = i" "n_peers n = sort ps" "n_role n = Follower" "n_term n = hs_Term (rs_HardState r)"
    "n_votedFor n = hs_VotedFor (rs_HardState r)" "n_durableTerm n = hs_Term (rs_HardState r)"
    "n_durableVotedFor n = hs_VotedFor (rs_HardState r)" "n_nextHardStatePersistence n = 0"
    "n_pendingCommit n = Map.empty"
  using assms
  by (auto simp: NewNodeFromRecoveredState_def Let_def Option.bind_eq_Some_conv
      split: list.splits if_splits)

lemma crash_preserves:
  assumes inv: "node_inv ms k E i n d q" and h: "h \<in> set (d # map snd q)" and r: "rs_HardState r = h"
    and n': "NewNodeFromRecoveredState i (peers_of ms i) r = Some n'"
  shows "node_inv ms (Suc k) E i n' h [] \<and> vle d h"
proof -
  have c: "chain_ok d q (HS (n_term n) (n_votedFor n))" and t: "unat (n_term n) \<le> k"
    using inv by (simp_all add: node_inv_def)
  then have "vle d h" "vle h (HS (n_term n) (n_votedFor n))"
    using h vle_last [of "d # map snd q" h] by (auto simp: chain_ok_def)
  moreover from this(2) have "unat (hs_Term h) \<le> Suc k"
    using t by (auto simp: vle_def word_less_nat_alt)
  ultimately show ?thesis
    using NewNode_hard [OF n'] r
    by (simp add: node_inv_def commits_quiet_def chain_ok_def queue_ok_def role_ok_def)
qed

text \<open>Lifting a change of one Node to the cluster.\<close>

lemma cluster_inv_update:
  assumes inv: "cluster_inv ms k s" and ms: "i \<in> set ms" "membership ms"
    and node: "node_inv ms (Suc k) (c_emitted s \<union> Pair i ` set as) i n h q"
    and as: "\<forall>a\<in>set as. emission_ok ms (Suc k) (c_emitted s) i h a" and h: "vle (c_disk s i) h"
    and s': "c_node s' = (c_node s)(i := n)" "c_disk s' = (c_disk s)(i := h)"
      "c_queue s' = (c_queue s)(i := q)" "c_emitted s' = c_emitted s \<union> Pair i ` set as"
  shows "cluster_inv ms (Suc k) s'"
proof -
  have "i \<noteq> ''''" using ms by (auto simp: membership_def)
  have "emitted_inv ms (Suc k) (c_emitted s \<union> Pair i ` set as) ((c_disk s)(i := h))"
    by (rule emitted_inv_extend [where D = "c_disk s" and k = k])
       (use inv ms(1) \<open>i \<noteq> ''''\<close> h as in \<open>simp_all add: cluster_inv_def\<close>)
  moreover have "node_inv ms (Suc k) (c_emitted s \<union> Pair i ` set as) j (c_node s j) (c_disk s j) (c_queue s j)"
    if "j \<in> set ms" for j
    using node_inv_mono [of "c_emitted s" "c_emitted s \<union> Pair i ` set as" k "Suc k"] inv that
    by (simp add: cluster_inv_def)
  ultimately show ?thesis using node s' by (simp add: cluster_inv_def)
qed

lemma delivered_event_ok:
  assumes em: "emitted_inv ms k E D" and a: "(i, a) \<in> E" and e: "delivers i a j e"
  shows "event_ok k E j e"
proof -
  have ok: "i \<in> set ms" "unat (act_term a) \<le> k" "action_ok ms E i a"
    using em a unfolding emitted_inv_def by blast+
  show ?thesis
  proof (cases a)
    case (SendVoteRequest p q)
    then have "vq_From q = i" "requested E (vq_Term q) i"
      using ok(3) a by (auto simp: action_ok_def requested_def)
    moreover from this have "i \<noteq> ''''" using em unfolding emitted_inv_def backs_def by blast
    ultimately show ?thesis using SendVoteRequest e ok(2) by (simp add: event_ok_def)
  next
    case (SendVoteResponse c r)
    then show ?thesis
      using ok e a by (cases r) (auto simp: event_ok_def action_ok_def granted_def)
  qed (use ok e in \<open>simp_all add: event_ok_def split: Event.splits\<close>)
qed

lemma local_event_ok: "local_event e \<Longrightarrow> event_ok k E i e"
  by (cases e) (simp_all add: event_ok_def)

lemma term_not_max: "unat (t :: u64) \<le> k \<Longrightarrow> Suc k < 2 ^ 64 \<Longrightarrow> t \<noteq> - 1"
  using unat_max_u64 by auto

lemma stepped_cluster_inv:
  assumes inv: "cluster_inv ms k s" and ms: "i \<in> set ms" "membership ms" and k: "Suc k < 2 ^ 64"
    and step: "Step (c_node s i) e = Some (n, as)" and ev: "event_ok k (c_emitted s) i e"
  shows "cluster_inv ms (Suc k) (emit i n as s)"
proof -
  have ni: "node_inv ms k (c_emitted s) i (c_node s i) (c_disk s i) (c_queue s i)"
    and em: "emitted_inv ms k (c_emitted s) (c_disk s)"
    using inv ms(1) by (simp_all add: cluster_inv_def)
  have "estep (c_node s i) e n as \<and> commits_quiet n"
    by (rule Step_estep [OF step]) (use ni k in \<open>auto simp: node_inv_def dest: term_not_max\<close>)
  then have "node_inv ms (Suc k) (c_emitted s \<union> Pair i ` set as) i n (c_disk s i) (c_queue s i @ hard_writes as)"
    "\<forall>a\<in>set as. emission_ok ms (Suc k) (c_emitted s) i (c_disk s i) a"
    using estep_preserves [OF _ ni _ em ms ev k] by blast+
  then show ?thesis
    by (rule cluster_inv_update [OF inv ms]) (simp_all add: emit_def)
qed

lemma cluster_step_inv:
  assumes step: "cluster_step ms s s'" and inv: "cluster_inv ms k s" and ms: "membership ms"
    and k: "Suc k < 2 ^ 64"
  shows "cluster_inv ms (Suc k) s'"
  using step
proof cases
  case (local_step i e n as)
  then show ?thesis using stepped_cluster_inv [OF inv _ ms k] local_event_ok by blast
next
  case (deliver_step i a j e n as)
  then show ?thesis
    using stepped_cluster_inv [OF inv _ ms k] delivered_event_ok inv by (metis cluster_inv_def)
next
  case (persist_step i pid h rest n as)
  have "node_inv ms k (c_emitted s) i (c_node s i) (c_disk s i) ((pid, h) # rest)"
    using inv persist_step by (metis cluster_inv_def)
  note p = persisted_preserves [OF this _ k, of n as]
  show ?thesis unfolding persist_step(1)
    by (rule cluster_inv_update [OF inv persist_step(2) ms, of as n h "rest @ hard_writes as"])
       (use p persist_step(3,4) in \<open>simp_all add: emit_def write_hard_def\<close>)
next
  case (crash_step i h r n)
  have "node_inv ms k (c_emitted s) i (c_node s i) (c_disk s i) (c_queue s i)"
    using inv crash_step by (metis cluster_inv_def)
  note c = crash_preserves [OF this crash_step(3-5)]
  show ?thesis unfolding crash_step(1)
    by (rule cluster_inv_update [OF inv crash_step(2) ms, of "[]" n h "[]"])
       (use c in \<open>simp_all add: reboot_def\<close>)
qed

lemma init_cluster_inv: "cluster_inv ms 0 (init ms)"
proof -
  have "NewNodeFromRecoveredState i (peers_of ms i) \<lparr>rs_HardState = HS 0 '''', rs_Log = [],
      rs_CommitIndex = 0, rs_SnapshotIndex = 0, rs_SnapshotTerm = 0\<rparr> = Some (init_node ms i)" for i
    by (simp add: init_node_def NewNode_def NewNodeWithHardState_def NewNodeWithLog_def
        NewNodeFromRecoveredState_def Let_def)
  from NewNode_hard [OF this] show ?thesis
    by (simp add: cluster_inv_def init_def emitted_inv_def node_inv_def commits_quiet_def chain_ok_def
        queue_ok_def role_ok_def backs_def granted_def requested_def)
qed

lemma reach_inv: "reach ms k s \<Longrightarrow> membership ms \<Longrightarrow> k < 2 ^ 64 \<Longrightarrow> cluster_inv ms k s"
  by (induction rule: reach.induct) (auto intro: init_cluster_inv cluster_step_inv)

subsection \<open>Election safety\<close>

lemma elected_unique:
  assumes em: "emitted_inv ms k E D" and "(i, BecameLeader t) \<in> E" "(j, BecameLeader t) \<in> E"
  shows "i = j"
proof -
  have "action_ok ms E i (BecameLeader t)" "action_ok ms E j (BecameLeader t)"
    using assms unfolding emitted_inv_def by blast+
  then obtain P Q where "majority ms P" "\<forall>v\<in>P. backs E t v i" "majority ms Q" "\<forall>v\<in>Q. backs E t v j"
    unfolding action_ok_def by auto
  moreover have "backs E t v c \<Longrightarrow> backs E t v d \<Longrightarrow> c = d" for v c d
    using em unfolding emitted_inv_def by blast
  ultimately show ?thesis using majority.unique_winner [of ms P "backs E t" i Q j] by blast
qed

lemma reach_emitted:
  assumes "membership ms" "reach ms k s" "k < 2 ^ 64"
  shows "emitted_inv ms k (c_emitted s) (c_disk s)"
  using reach_inv [OF assms(2,1,3)] by (simp add: cluster_inv_def)

lemma threeNodeIDs_membership: "membership threeNodeIDs"
  by code_simp

text \<open>The cluster the election schedule ends in.\<close>

lemma elected_cluster:
  obtains s where "reach threeNodeIDs 7 s" "(''node-1'', BecameLeader 1) \<in> c_emitted s"
    "n_role (c_node s ''node-1'') = Leader" "n_term (c_node s ''node-1'') = 1"
    "(''node-2'', SendVoteResponse ''node-1'' \<lparr>vr_From = ''node-2'', vr_Term = 1, vr_Granted = True\<rparr>)
       \<in> c_emitted s"
proof (cases "run_schedule threeNodeIDs election_schedule (init threeNodeIDs)")
  case None
  with election_schedule_runs show thesis by simp
next
  case (Some s)
  have "length election_schedule = 7" by (simp add: election_schedule_def Let_def)
  with run_schedule_reach [OF Some] election_schedule_runs Some that show thesis by simp
qed

text \<open>C1. Election safety over a whole run: however messages are delayed, lost, duplicated or
  reordered and however Nodes crash and restart, two Nodes that ever announced leadership of the
  same Term are the same Node.\<close>

theorem election_safety:
  assumes "membership ms" and "reach ms k s" and "k < 2 ^ 64"
    and "(i, BecameLeader t) \<in> c_emitted s" and "(j, BecameLeader t) \<in> c_emitted s"
  shows "i = j"
  by (rule elected_unique [OF reach_emitted [OF assms(1-3)] assms(4,5)])

theorem election_safety_witness:
  "\<exists>s. reach threeNodeIDs 7 s \<and> {i. (i, BecameLeader 1) \<in> c_emitted s} = {''node-1''}"
proof -
  obtain s where s: "reach threeNodeIDs 7 s" "(''node-1'', BecameLeader 1) \<in> c_emitted s"
    by (rule elected_cluster)
  have "j = ''node-1''" if "(j, BecameLeader 1) \<in> c_emitted s" for j
    by (rule election_safety [OF threeNodeIDs_membership s(1) _ that s(2)]) simp
  with s show ?thesis by blast
qed

text \<open>C2. At any moment of a run, no two members are Leader in the same Term, which is what the
  simulation harness asserts after every event.\<close>

theorem one_leader_per_term:
  assumes "membership ms" and "reach ms k s" and "k < 2 ^ 64" and "i \<in> set ms" and "j \<in> set ms"
    and "n_role (c_node s i) = Leader" and "n_role (c_node s j) = Leader"
    and "n_term (c_node s i) = n_term (c_node s j)"
  shows "i = j"
proof -
  have "(l, BecameLeader (n_term (c_node s l))) \<in> c_emitted s"
    if "l \<in> set ms" "n_role (c_node s l) = Leader" for l
    using reach_inv [OF assms(2,1,3)] that by (auto simp: cluster_inv_def node_inv_def role_ok_def)
  with assms elected_unique [OF reach_emitted [OF assms(1-3)]] show ?thesis by metis
qed

theorem one_leader_per_term_witness:
  "\<exists>s. reach threeNodeIDs 7 s \<and> {i \<in> set threeNodeIDs. n_role (c_node s i) = Leader \<and>
     n_term (c_node s i) = 1} = {''node-1''}"
proof -
  obtain s where s: "reach threeNodeIDs 7 s" "n_role (c_node s ''node-1'') = Leader"
    "n_term (c_node s ''node-1'') = 1"
    by (rule elected_cluster)
  have m: "''node-1'' \<in> set threeNodeIDs" by (simp add: threeNodeIDs_def)
  have "j = ''node-1''" if "j \<in> set threeNodeIDs" "n_role (c_node s j) = Leader" "n_term (c_node s j) = 1" for j
    by (rule one_leader_per_term [OF threeNodeIDs_membership s(1) _ that(1) m that(2) s(2)])
       (use that(3) s(3) in simp_all)
  with s m show ?thesis by blast
qed

text \<open>C3. A Node grants its vote of a Term to one candidate only, also when it crashed and restarted
  in between and also counting the vote it gives itself when it stands.\<close>

theorem vote_once:
  assumes "membership ms" and "reach ms k s" and "k < 2 ^ 64"
    and "granted (c_emitted s) j t c" and "granted (c_emitted s) j t d \<or> j = d \<and> requested (c_emitted s) t d"
  shows "c = d"
  using reach_emitted [OF assms(1-3)] assms(4,5) unfolding emitted_inv_def backs_def by blast

theorem vote_once_witness:
  "\<exists>s. reach threeNodeIDs 7 s \<and> {c. granted (c_emitted s) ''node-2'' 1 c} = {''node-1''}"
proof -
  obtain s where s: "reach threeNodeIDs 7 s"
    "(''node-2'', SendVoteResponse ''node-1'' \<lparr>vr_From = ''node-2'', vr_Term = 1, vr_Granted = True\<rparr>)
       \<in> c_emitted s"
    by (rule elected_cluster)
  have g: "granted (c_emitted s) ''node-2'' 1 ''node-1''" using s(2) by (simp add: granted_def)
  have "c = ''node-1''" if "granted (c_emitted s) ''node-2'' 1 c" for c
    by (rule vote_once [OF threeNodeIDs_membership s(1) _ that]) (use g in simp_all)
  with s g show ?thesis by blast
qed

text \<open>C4. Votes are durable before they are answered: when a granted vote reply has been sent, the
  voter's disk holds that Term and vote, or a later Term.\<close>

theorem vote_durable_before_reply:
  assumes "membership ms" and "reach ms k s" and "k < 2 ^ 64" and "granted (c_emitted s) j t c"
  shows "t < hs_Term (c_disk s j) \<or> c_disk s j = \<lparr>hs_Term = t, hs_VotedFor = c\<rparr>"
proof -
  have "c \<noteq> '''' \<and> vle (HS t c) (c_disk s j)"
    using reach_emitted [OF assms(1-3)] assms(4) unfolding emitted_inv_def backs_def by blast
  then show ?thesis by (cases "c_disk s j") (auto simp: vle_def)
qed

theorem vote_durable_before_reply_witness:
  "\<exists>s. reach threeNodeIDs 7 s \<and> granted (c_emitted s) ''node-2'' 1 ''node-1'' \<and>
     (1 < hs_Term (c_disk s ''node-2'') \<or> c_disk s ''node-2'' = \<lparr>hs_Term = 1, hs_VotedFor = ''node-1''\<rparr>)"
proof -
  obtain s where s: "reach threeNodeIDs 7 s"
    "(''node-2'', SendVoteResponse ''node-1'' \<lparr>vr_From = ''node-2'', vr_Term = 1, vr_Granted = True\<rparr>)
       \<in> c_emitted s"
    by (rule elected_cluster)
  have g: "granted (c_emitted s) ''node-2'' 1 ''node-1''" using s(2) by (simp add: granted_def)
  show ?thesis
    using vote_durable_before_reply [OF threeNodeIDs_membership s(1) _ g] s(1) g by auto
qed

end
