(* ===== verification/Raft_Invariants.thy ===== *)
theory Raft_Invariants
  imports Raft_Core
begin

text \<open>
  The invariant of one Node and its preservation by every handler: with a well-formed log and
  ordered commit positions no index expression of the core is ever out of range, so \<^verbatim>\<open>Step\<close> never
  panics; commit positions only grow; and an entry at or below the commit index is never replaced.
\<close>

subsection \<open>The invariant\<close>

text \<open>A replication request a follower can take: its entries are numbered from
  \<^verbatim>\<open>PrevLogIndex+1\<close> without wrapping around.\<close>

definition request_ok :: "AppendEntries \<Rightarrow> bool" where
  "request_ok r \<longleftrightarrow> consecutive (ae_PrevLogIndex r + 1) (ae_Entries r) \<and>
     unat (ae_PrevLogIndex r) + length (ae_Entries r) < 2 ^ 64 - 1"

fun message_ok :: "Action \<Rightarrow> bool" where
  "message_ok (SendAppendEntries _ r) = request_ok r"
| "message_ok _ = True"

text \<open>The part of a Node the log and commit positions live in.\<close>

definition lview where
  "lview n = (n_logBaseIndex n, n_logBaseTerm n, n_log n, n_lastLogIndex n, n_lastLogTerm n,
     n_commitIndex n, n_durableCommitIndex n, n_lastApplied n)"

definition positions_ok :: "Node \<Rightarrow> bool" where
  "positions_ok n \<longleftrightarrow> n_logBaseIndex n \<le> n_lastApplied n \<and> n_lastApplied n \<le> n_durableCommitIndex n \<and>
     n_durableCommitIndex n \<le> n_commitIndex n \<and> n_commitIndex n \<le> n_lastLogIndex n"

definition pending_ok :: "Node \<Rightarrow> bool" where
  "pending_ok n \<longleftrightarrow>
     (\<forall>pid p. n_pendingCommit n pid = Some p \<longrightarrow>
        pc_commitIndex p \<le> n_commitIndex n \<and> (\<forall>a\<in>set (pc_after p). message_ok a)) \<and>
     (\<forall>pid p. n_pendingHardState n pid = Some p \<longrightarrow> (\<forall>a\<in>set (ph_after p). message_ok a)) \<and>
     distinct (map fst (n_pendingReads n))"

definition wf_node :: "Node \<Rightarrow> bool" where
  "wf_node n \<longleftrightarrow> log_ok n \<and> positions_ok n \<and> pending_ok n"

text \<open>Progress: positions grow, and committed entries that are still retained stay as they are.\<close>

definition grows :: "Node \<Rightarrow> Node \<Rightarrow> bool" where
  "grows n n' \<longleftrightarrow> n_logBaseIndex n \<le> n_logBaseIndex n' \<and> n_commitIndex n \<le> n_commitIndex n' \<and>
     n_durableCommitIndex n \<le> n_durableCommitIndex n' \<and>
     (\<forall>k. unat (n_logBaseIndex n') < k \<longrightarrow> k \<le> unat (n_commitIndex n) \<longrightarrow> entryAt n' k = entryAt n k)"

definition step_ok :: "Node \<Rightarrow> Node \<Rightarrow> Action list \<Rightarrow> bool" where
  "step_ok n n' as \<longleftrightarrow> wf_node n' \<and> grows n n' \<and> (\<forall>a\<in>set as. message_ok a)"

text \<open>Total correctness of an operation that may panic.\<close>

definition achieves :: "(Node \<times> Action list) option \<Rightarrow> (Node \<Rightarrow> Action list \<Rightarrow> bool) \<Rightarrow> bool" where
  "achieves r P \<longleftrightarrow> (\<exists>n as. r = Some (n, as) \<and> P n as)"

lemma achievesI [intro]: "P n as \<Longrightarrow> achieves (Some (n, as)) P"
  by (auto simp: achieves_def)

lemma achieves_bind:
  assumes "achieves r P" and "\<And>n as. P n as \<Longrightarrow> achieves (f (n, as)) Q"
  shows "achieves (do { x \<leftarrow> r; f x }) Q"
  using assms by (auto simp: achieves_def)

lemma achieves_mono: "achieves r P \<Longrightarrow> (\<And>n as. P n as \<Longrightarrow> Q n as) \<Longrightarrow> achieves r Q"
  by (auto simp: achieves_def)

lemma achievesD: "achieves r P \<Longrightarrow> r = Some (n, as) \<Longrightarrow> P n as"
  by (auto simp: achieves_def)

subsection \<open>Frames\<close>

lemma lview_frame [simp, frame]:
  "lview (n_id_update f1 n) = lview n"
  "lview (n_peers_update f2 n) = lview n"
  "lview (n_role_update f3 n) = lview n"
  "lview (n_term_update f4 n) = lview n"
  "lview (n_votedFor_update f5 n) = lview n"
  "lview (n_leaderID_update f6 n) = lview n"
  "lview (n_durableLogIndex_update f7 n) = lview n"
  "lview (n_readReady_update f8 n) = lview n"
  "lview (n_votes_update f9 n) = lview n"
  "lview (n_preVotes_update f10 n) = lview n"
  "lview (n_activePeers_update f11 n) = lview n"
  "lview (n_matchIndex_update f12 n) = lview n"
  "lview (n_nextIndex_update f13 n) = lview n"
  "lview (n_appendInFlight_update f14 n) = lview n"
  "lview (n_snapshotInFlight_update f15 n) = lview n"
  "lview (n_nextRequestID_update f16 n) = lview n"
  "lview (n_pendingReads_update f17 n) = lview n"
  "lview (n_recentLeaderContact_update f18 n) = lview n"
  "lview (n_durableTerm_update f19 n) = lview n"
  "lview (n_durableVotedFor_update f20 n) = lview n"
  "lview (n_nextHardStatePersistence_update f21 n) = lview n"
  "lview (n_pendingHardState_update f22 n) = lview n"
  "lview (n_nextLogPersistence_update f23 n) = lview n"
  "lview (n_pendingLog_update f24 n) = lview n"
  "lview (n_nextCommitPersistence_update f25 n) = lview n"
  "lview (n_pendingCommit_update f26 n) = lview n"
  by (simp_all add: lview_def)

lemma lview_eq:
  assumes "lview n' = lview n"
  shows "n_logBaseIndex n' = n_logBaseIndex n" "n_logBaseTerm n' = n_logBaseTerm n" "n_log n' = n_log n"
    "n_lastLogIndex n' = n_lastLogIndex n" "n_lastLogTerm n' = n_lastLogTerm n"
    "n_commitIndex n' = n_commitIndex n" "n_durableCommitIndex n' = n_durableCommitIndex n"
    "n_lastApplied n' = n_lastApplied n"
  using assms by (simp_all add: lview_def)

lemma lview_log:
  assumes "lview n' = lview n"
  shows "log_ok n' = log_ok n" "entryAt n' = entryAt n" "termAt n' = termAt n" "positions_ok n' = positions_ok n"
  using lview_eq [OF assms] by (auto simp: log_ok_def entryAt_def termAt_def positions_ok_def fun_eq_iff)

lemma grows_refl [simp]: "grows n n"
  by (simp add: grows_def)

lemma grows_trans [trans]: "grows n n1 \<Longrightarrow> grows n1 n2 \<Longrightarrow> grows n n2"
  by (fastforce simp: grows_def word_le_nat_alt)

lemma grows_lview: "lview n' = lview n \<Longrightarrow> grows n n'"
  using lview_eq [of n' n] lview_log [of n' n] by (simp add: grows_def)

lemma step_ok_trans: "step_ok n n1 as1 \<Longrightarrow> step_ok n1 n2 as2 \<Longrightarrow> step_ok n n2 (as1 @ as2)"
  by (auto simp: step_ok_def intro: grows_trans)

lemma step_ok_trans0: "step_ok n n1 [] \<Longrightarrow> step_ok n1 n2 as \<Longrightarrow> step_ok n n2 as"
  using step_ok_trans [of n n1 "[]"] by simp

lemma step_ok_wf: "step_ok n n' as \<Longrightarrow> wf_node n'"
  by (simp add: step_ok_def)

lemma step_ok_refl: "wf_node n \<Longrightarrow> (\<And>a. a \<in> set as \<Longrightarrow> message_ok a) \<Longrightarrow> step_ok n n as"
  by (simp add: step_ok_def)

text \<open>A step that leaves the log view alone.\<close>

lemma lview_step_ok:
  assumes "wf_node n" "lview n' = lview n" "pending_ok n'" "\<And>a. a \<in> set as \<Longrightarrow> message_ok a"
  shows "step_ok n n' as"
  using assms lview_log [OF assms(2)] grows_lview [OF assms(2)] by (simp add: step_ok_def wf_node_def)

subsection \<open>Reads\<close>

text \<open>Which reads \<^verbatim>\<open>completeReads\<close> answers: confirmed ones whose captured commit index is applied.\<close>

definition readable :: "Node \<Rightarrow> pendingRead \<Rightarrow> bool" where
  "readable n r \<longleftrightarrow> pr_confirmed r \<and> pr_commitIndex r \<le> n_lastApplied n"

definition answers :: "Node \<Rightarrow> Action \<Rightarrow> bool" where
  "answers n a \<longleftrightarrow> (\<exists>rid r. a = ReadConfirmed rid (pr_commitIndex r) \<and>
     map_of (n_pendingReads n) rid = Some r \<and> readable n r)"

lemma completeReads_loop_total:
  assumes "distinct ids" "set ids \<subseteq> fst ` set (n_pendingReads n)" "distinct (map fst (n_pendingReads n))"
  shows "\<exists>ps as. completeReads_loop ids n = Some (n\<lparr>n_pendingReads := ps\<rparr>, as) \<and> distinct (map fst ps) \<and>
    (\<forall>a\<in>set as. answers n a)"
  using assms
proof (induction ids arbitrary: n)
  case Nil
  then show ?case by (intro exI [of _ "n_pendingReads n"]) simp
next
  case (Cons i ids)
  from Cons.prems(2,3) obtain r where r: "map_of (n_pendingReads n) i = Some r" by fastforce
  show ?case
  proof (cases "readable n r")
    case False
    with Cons.IH [of n] Cons.prems r show ?thesis by (auto simp: readable_def not_le)
  next
    case True
    let ?m = "n\<lparr>n_pendingReads := AList.delete i (n_pendingReads n)\<rparr>"
    have keys: "map fst (n_pendingReads ?m) = removeAll i (map fst (n_pendingReads n))"
      by (simp add: AList.delete_keys)
    then have "set (map fst (n_pendingReads ?m)) = set (map fst (n_pendingReads n)) - {i}" by simp
    then have "set ids \<subseteq> fst ` set (n_pendingReads ?m)" using Cons.prems(1,2) by auto
    moreover have "distinct (map fst (n_pendingReads ?m))"
      using keys Cons.prems(3) by (simp add: distinct_removeAll)
    ultimately obtain ps as where
      rec: "completeReads_loop ids ?m = Some (?m\<lparr>n_pendingReads := ps\<rparr>, as)" "distinct (map fst ps)"
      "\<forall>a\<in>set as. answers ?m a"
      using Cons.IH [of ?m] Cons.prems(1) by auto
    have sub: "map_of (n_pendingReads ?m) rid = Some r' \<Longrightarrow> map_of (n_pendingReads n) rid = Some r'" for rid r'
      by (cases "rid = i") (simp_all add: delete_conv')
    have "completeReads_loop (i # ids) n =
        Some (n\<lparr>n_pendingReads := ps\<rparr>, ReadConfirmed i (pr_commitIndex r) # as)"
      using r True rec(1) by (auto simp: readable_def dest: leD)
    moreover have "answers ?m a \<Longrightarrow> answers n a" for a
      using sub by (auto simp: answers_def readable_def)
    moreover have "answers n (ReadConfirmed i (pr_commitIndex r))"
      using r True by (auto simp: answers_def)
    ultimately show ?thesis using rec(2,3) by auto
  qed
qed

lemma completeReads_reads:
  assumes "distinct (map fst (n_pendingReads n))"
  shows "\<exists>ps as. completeReads n = Some (n\<lparr>n_pendingReads := ps\<rparr>, as) \<and> distinct (map fst ps) \<and>
    (\<forall>a\<in>set as. answers n a)"
  unfolding completeReads_def by (rule completeReads_loop_total) (use assms in simp_all)

lemma completeReads_total:
  assumes wf: "wf_node n"
  shows "achieves (completeReads n) (step_ok n)"
proof -
  have "distinct (map fst (n_pendingReads n))" using wf by (simp add: wf_node_def pending_ok_def)
  from completeReads_reads [OF this] obtain ps as where
    r: "completeReads n = Some (n\<lparr>n_pendingReads := ps\<rparr>, as)" "distinct (map fst ps)"
    "\<forall>a\<in>set as. answers n a"
    by blast
  have "message_ok a" if "a \<in> set as" for a using r(3) that by (auto simp: answers_def)
  then show ?thesis unfolding r(1)
    by (intro achievesI lview_step_ok [OF wf]) (use wf r(2) in \<open>auto simp: wf_node_def pending_ok_def\<close>)
qed

lemma pendingReads_step_ok:
  assumes "wf_node n" "distinct (map fst ps)"
  shows "step_ok n (n\<lparr>n_pendingReads := ps\<rparr>) []"
  by (rule lview_step_ok [OF assms(1)]) (use assms in \<open>auto simp: wf_node_def pending_ok_def\<close>)

lemma acknowledgeRead_total:
  assumes wf: "wf_node n"
  shows "achieves (acknowledgeRead n r) (step_ok n)"
proof -
  have upd: "step_ok n (n\<lparr>n_pendingReads := AList.update k v (n_pendingReads n)\<rparr>) []" for k v
    by (rule pendingReads_step_ok [OF wf]) (use wf in \<open>auto simp: wf_node_def pending_ok_def distinct_update\<close>)
  have "achieves (completeReads (n\<lparr>n_pendingReads := AList.update k v (n_pendingReads n)\<rparr>)) (step_ok n)" for k v
    by (rule achieves_mono [OF completeReads_total [OF step_ok_wf [OF upd]]]) (rule step_ok_trans0 [OF upd])
  moreover have "achieves (Some (n, [])) (step_ok n)" by (intro achievesI step_ok_refl [OF wf]) simp
  ultimately show ?thesis
    using upd by (auto simp: acknowledgeRead_def Let_def split: option.split)
qed

subsection \<open>Applying committed entries\<close>

text \<open>The entries an action list applies, and the retained entries with index in \<open>(i, j]\<close>.\<close>

fun applied :: "Action list \<Rightarrow> LogEntry list" where
  "applied [] = []"
| "applied (ApplyEntry e # as) = e # applied as"
| "applied (_ # as) = applied as"

definition log_range :: "Node \<Rightarrow> nat \<Rightarrow> nat \<Rightarrow> LogEntry list" where
  "log_range n i j = map (\<lambda>k. the (entryAt n k)) [i + 1..<j + 1]"

lemma applied_append [simp]: "applied (as @ bs) = applied as @ applied bs"
  by (induction as rule: applied.induct) simp_all

lemma applied_none: "(\<And>e. ApplyEntry e \<notin> set as) \<Longrightarrow> applied as = []"
  by (induction as rule: applied.induct) auto

lemma log_range_empty [simp]: "j \<le> i \<Longrightarrow> log_range n i j = []"
  by (simp add: log_range_def)

lemma log_range_Cons: "i < j \<Longrightarrow> log_range n i j = the (entryAt n (Suc i)) # log_range n (Suc i) j"
  by (simp add: log_range_def upt_rec)

definition apply_action :: "Action \<Rightarrow> bool" where
  "apply_action a \<longleftrightarrow> (\<exists>e. a = ApplyEntry e) \<or> (\<exists>t. a = BecameReadReady t)"

lemma applyLoop_spec:
  assumes "log_ok n" "n_logBaseIndex n \<le> n_lastApplied n" "index \<le> n_lastLogIndex n"
  shows "\<exists>r as. applyLoop index n =
      Some (n\<lparr>n_lastApplied := max (n_lastApplied n) index, n_readReady := r\<rparr>, as) \<and>
    applied as = log_range n (unat (n_lastApplied n)) (unat index) \<and> (\<forall>a\<in>set as. apply_action a)"
  using assms
proof (induction index n rule: applyLoop.induct)
  case (1 index n)
  show ?case
  proof (cases "n_lastApplied n < index")
    case False
    then have "max (n_lastApplied n) index = n_lastApplied n" "unat index \<le> unat (n_lastApplied n)"
      "applyLoop index n = Some (n, [])"
      by (simp_all add: applyLoop.simps [of index n] word_le_nat_alt [symmetric])
    then show ?thesis by (intro exI [of _ "n_readReady n"] exI [of _ "[]"]) simp
  next
    case True
    let ?i = "n_lastApplied n + 1"
    have i: "n_logBaseIndex n < ?i" "?i \<le> n_lastLogIndex n" and u: "unat ?i = Suc (unat (n_lastApplied n))"
      using True "1.prems" by (auto simp: word_less_nat_alt word_le_nat_alt)
    from entryAt_Some [OF "1.prems"(1) i] obtain entry where entry: "entryAt n (unat ?i) = Some entry" .
    then have gi: "go_index (n_log n) (?i - n_logBaseIndex n - 1) = Some entry"
      using go_index_log [OF "1.prems"(1) i] by simp
    define ready where "ready \<longleftrightarrow> n_role n = Leader \<and> \<not> n_readReady n \<and> e_Type entry = EntryNoOp \<and>
                           e_Term entry = n_term n"
    let ?m = "n\<lparr>n_lastApplied := ?i, n_readReady := n_readReady n \<or> ready\<rparr>"
    have m: "log_ok ?m" "n_logBaseIndex ?m \<le> n_lastApplied ?m" "index \<le> n_lastLogIndex ?m" "entryAt ?m = entryAt n"
      using "1.prems" i by (auto simp: log_ok_def entryAt_def fun_eq_iff)
    from "1.IH" [OF True gi ready_def m(1-3)] obtain r as where
      rec: "applyLoop index ?m = Some (?m\<lparr>n_lastApplied := max (n_lastApplied ?m) index, n_readReady := r\<rparr>, as)"
      "applied as = log_range ?m (unat (n_lastApplied ?m)) (unat index)" "\<forall>a\<in>set as. apply_action a"
      by blast
    have mx: "max ?i index = index" "max (n_lastApplied n) index = index"
      using True u by (auto simp: max_def word_le_nat_alt word_less_nat_alt)
    have "applyLoop index n = Some (n\<lparr>n_lastApplied := index, n_readReady := r\<rparr>,
        ApplyEntry entry # (if ready then [BecameReadReady (n_term n)] else []) @ as)"
      using True gi rec(1) mx by (simp add: applyLoop.simps [of index n] Let_def ready_def)
    moreover have "applied (ApplyEntry entry # (if ready then [BecameReadReady (n_term n)] else []) @ as) =
        log_range n (unat (n_lastApplied n)) (unat index)"
      using rec(2) u entry m(4) log_range_Cons [of "unat (n_lastApplied n)" "unat index" n] True
      by (simp add: word_less_nat_alt log_range_def)
    ultimately show ?thesis
      using rec(3) mx(2) by (fastforce simp: apply_action_def)
  qed
qed

lemma applyThrough_spec:
  assumes wf: "wf_node n" and idx: "index \<le> n_durableCommitIndex n"
  shows "\<exists>r ps as. applyThrough n index =
      Some (n\<lparr>n_lastApplied := max (n_lastApplied n) index, n_readReady := r, n_pendingReads := ps\<rparr>, as) \<and>
    distinct (map fst ps) \<and> applied as = log_range n (unat (n_lastApplied n)) (unat index) \<and>
    (\<forall>a\<in>set as. apply_action a \<or> answers (n\<lparr>n_lastApplied := max (n_lastApplied n) index\<rparr>) a)"
proof -
  have ok: "log_ok n" "n_logBaseIndex n \<le> n_lastApplied n" "index \<le> n_lastLogIndex n"
    and d: "distinct (map fst (n_pendingReads n))"
    using wf idx by (auto simp: wf_node_def positions_ok_def pending_ok_def)
  from applyLoop_spec [OF ok] obtain r as1 where
    l: "applyLoop index n = Some (n\<lparr>n_lastApplied := max (n_lastApplied n) index, n_readReady := r\<rparr>, as1)"
    "applied as1 = log_range n (unat (n_lastApplied n)) (unat index)" "\<forall>a\<in>set as1. apply_action a" by blast
  let ?m = "n\<lparr>n_lastApplied := max (n_lastApplied n) index, n_readReady := r\<rparr>"
  have "distinct (map fst (n_pendingReads ?m))" using d by simp
  from completeReads_reads [OF this] obtain ps as2 where
    c: "completeReads ?m = Some (?m\<lparr>n_pendingReads := ps\<rparr>, as2)" "distinct (map fst ps)"
    "\<forall>a\<in>set as2. answers ?m a" by blast
  have a2: "applied as2 = []" using c(3) by (intro applied_none) (auto simp: answers_def)
  have ans: "answers ?m a \<Longrightarrow> answers (n\<lparr>n_lastApplied := max (n_lastApplied n) index\<rparr>) a" for a
    by (simp add: answers_def readable_def)
  have "applyThrough n index = Some (?m\<lparr>n_pendingReads := ps\<rparr>, as1 @ as2)"
  proof (cases "index \<le> n_lastApplied n")
    case True
    then have "applyLoop index n = Some (n, [])" by (simp add: applyLoop.simps [of index n] leD)
    with l(1) have "?m = n \<and> as1 = []" by simp
    then show ?thesis using True c(1) by (simp add: applyThrough_def)
  next
    case False
    then show ?thesis using l(1) c(1) by (simp add: applyThrough_def)
  qed
  then show ?thesis
    using c(2,3) l(2,3) a2 ans
    by (intro exI [of _ r] exI [of _ ps] exI [of _ "as1 @ as2"]) auto
qed

lemma quiet_message_ok: "apply_action a \<Longrightarrow> message_ok a" "answers n a \<Longrightarrow> message_ok a"
  by (auto simp: apply_action_def answers_def)

lemma applyThrough_achieves:
  assumes wf: "wf_node n" and idx: "index \<le> n_durableCommitIndex n"
  shows "achieves (applyThrough n index) (step_ok n)"
proof -
  from applyThrough_spec [OF assms] obtain r ps as where
    a: "applyThrough n index =
      Some (n\<lparr>n_lastApplied := max (n_lastApplied n) index, n_readReady := r, n_pendingReads := ps\<rparr>, as)"
    "distinct (map fst ps)"
    "\<forall>a\<in>set as. apply_action a \<or> answers (n\<lparr>n_lastApplied := max (n_lastApplied n) index\<rparr>) a" by blast
  define m where "m = n\<lparr>n_lastApplied := max (n_lastApplied n) index, n_readReady := r, n_pendingReads := ps\<rparr>"
  have "log_ok m = log_ok n" "entryAt m = entryAt n" "n_logBaseIndex m = n_logBaseIndex n"
    "n_commitIndex m = n_commitIndex n" "n_durableCommitIndex m = n_durableCommitIndex n"
    by (simp_all add: m_def log_ok_def entryAt_def fun_eq_iff)
  moreover have "positions_ok m" using wf idx by (simp add: m_def wf_node_def positions_ok_def le_max_iff_disj)
  moreover have "pending_ok m" using wf a(2) by (simp add: m_def wf_node_def pending_ok_def)
  ultimately have "wf_node m" "grows n m" using wf by (simp_all add: wf_node_def grows_def)
  moreover have "message_ok a" if "a \<in> set as" for a
    using a(3) that quiet_message_ok by blast
  ultimately show ?thesis unfolding a(1) m_def by (intro achievesI) (simp add: step_ok_def)
qed

subsection \<open>Writes, commit positions and replication requests\<close>

lemma persistLog_step_ok:
  assumes "wf_node n" "persistLog n es p = (n', as)"
  shows "step_ok n n' as"
  by (rule lview_step_ok [OF assms(1)])
     (use assms in \<open>auto simp: persistLog_def Let_def wf_node_def pending_ok_def\<close>)

lemma persistCommit_step_ok:
  assumes "wf_node n" "persistCommit n after = (n', as)" "\<forall>a\<in>set after. message_ok a"
  shows "step_ok n n' as"
  by (rule lview_step_ok [OF assms(1)])
     (use assms in \<open>auto simp: persistCommit_def Let_def wf_node_def pending_ok_def split: if_splits\<close>)

lemma persistHardState_step_ok:
  assumes "wf_node n" "persistHardState n after = (n', as)" "\<forall>a\<in>set after. message_ok a"
  shows "step_ok n n' as"
  by (rule lview_step_ok [OF assms(1)])
     (use assms in \<open>auto simp: persistHardState_def Let_def wf_node_def pending_ok_def split: if_splits\<close>)

lemma commit_step_ok:
  assumes wf: "wf_node n" and c: "n_commitIndex n \<le> c" "c \<le> n_lastLogIndex n"
  shows "step_ok n (n\<lparr>n_commitIndex := c\<rparr>) []"
proof -
  have "pending_ok (n\<lparr>n_commitIndex := c\<rparr>)"
    using wf c(1) unfolding wf_node_def pending_ok_def by (auto intro: order.trans)
  then show ?thesis
    using wf c by (auto simp: step_ok_def wf_node_def grows_def positions_ok_def log_ok_def entryAt_def)
qed

lemma advanceFollowerCommit_achieves:
  assumes wf: "wf_node n" and after: "\<forall>a\<in>set after. message_ok a"
  shows "achieves (advanceFollowerCommit n lc after) (step_ok n)"
proof (cases "min lc (n_lastLogIndex n) > n_commitIndex n")
  case True
  let ?m = "n\<lparr>n_commitIndex := min lc (n_lastLogIndex n)\<rparr>"
  have m: "step_ok n ?m []" using True by (intro commit_step_ok [OF wf]) auto
  obtain n' as where "persistCommit ?m after = (n', as)" by (cases "persistCommit ?m after")
  with step_ok_trans0 [OF m persistCommit_step_ok [OF step_ok_wf [OF m] _ after]] True show ?thesis
    by (auto simp: advanceFollowerCommit_def Let_def)
next
  case False
  have "achieves (applyThrough n (n_durableCommitIndex n)) (step_ok n)"
    by (rule applyThrough_achieves [OF wf order_refl])
  then have "achieves (do { (n', as) \<leftarrow> applyThrough n (n_durableCommitIndex n); Some (n', as @ after) }) (step_ok n)"
    using after by (intro achieves_bind [of _ "step_ok n"]) (auto simp: step_ok_def intro!: achievesI)
  with False show ?thesis unfolding advanceFollowerCommit_def Let_def by auto
qed

lemma advanceLeaderCommit_loop_spec:
  assumes "log_ok n" "index \<le> n_lastLogIndex n"
  shows "\<exists>r. advanceLeaderCommit_loop n index = Some r \<and>
    (case r of None \<Rightarrow> True
     | Some c \<Rightarrow> n_commitIndex n < c \<and> c \<le> index \<and> termAt n c = Some (n_term n) \<and>
         quorum n \<le> 1 + length (filter (\<lambda>peer. map_get (n_matchIndex n) peer \<ge> c) (n_peers n)))"
  using assms
proof (induction n index rule: advanceLeaderCommit_loop.induct)
  case (1 n index)
  show ?case
  proof (cases "index > n_commitIndex n")
    case False
    then show ?thesis by (simp add: advanceLeaderCommit_loop.simps [of n index])
  next
    case True
    obtain t where t: "termAt n index = Some t" using termAt_ex [OF "1.prems"(1)] by blast
    define reps where "reps = 1 + length (filter (\<lambda>peer. map_get (n_matchIndex n) peer \<ge> index) (n_peers n))"
    have unfold: "advanceLeaderCommit_loop n index =
        (if t = n_term n \<and> reps \<ge> quorum n then Some (Some index) else advanceLeaderCommit_loop n (index - 1))"
      using True t by (simp add: advanceLeaderCommit_loop.simps [of n index] Let_def reps_def)
    have le: "index - 1 \<le> index"
      using word_pos_if_less [OF True] by (simp add: word_le_nat_alt unat_minus_one_pos)
    show ?thesis
    proof (cases "t = n_term n \<and> reps \<ge> quorum n")
      case found: True
      with True t show ?thesis by (simp add: unfold reps_def)
    next
      case go: False
      from "1.IH" [OF True t reps_def go "1.prems"(1)] le "1.prems"(2) obtain r where
        r: "advanceLeaderCommit_loop n (index - 1) = Some r"
        "case r of None \<Rightarrow> True
         | Some c \<Rightarrow> n_commitIndex n < c \<and> c \<le> index - 1 \<and> termAt n c = Some (n_term n) \<and>
             quorum n \<le> 1 + length (filter (\<lambda>peer. map_get (n_matchIndex n) peer \<ge> c) (n_peers n))"
        by (meson order.trans)
      have unfold': "advanceLeaderCommit_loop n index = Some r" using unfold go r(1) by auto
      show ?thesis
      proof (cases r)
        case None
        then show ?thesis using unfold' by simp
      next
        case (Some c)
        then have "c \<le> index" using r(2) le by (auto intro: order.trans)
        with Some r(2) unfold' show ?thesis by simp
      qed
    qed
  qed
qed

lemma advanceLeaderCommit_spec:
  assumes wf: "wf_node n"
  shows "\<exists>n' b. advanceLeaderCommit n = Some (n', b) \<and> step_ok n n' [] \<and> n' = n\<lparr>n_commitIndex := n_commitIndex n'\<rparr>"
proof -
  have "log_ok n" using wf by (simp add: wf_node_def)
  from advanceLeaderCommit_loop_spec [OF this order_refl] obtain r where
    r: "advanceLeaderCommit_loop n (n_lastLogIndex n) = Some r"
    "case r of None \<Rightarrow> True | Some c \<Rightarrow> n_commitIndex n < c \<and> c \<le> n_lastLogIndex n"
    by (auto split: option.splits)
  show ?thesis
  proof (cases r)
    case None
    with r(1) have "advanceLeaderCommit n = Some (n, False)" by (simp add: advanceLeaderCommit_def)
    with wf show ?thesis by (auto intro: step_ok_refl)
  next
    case (Some c)
    with r wf show ?thesis
      by (auto simp: advanceLeaderCommit_def intro!: commit_step_ok)
  qed
qed

lemma entriesBatch_request:
  assumes ok: "log_ok n" and first: "n_logBaseIndex n < first"
  shows "\<exists>es. entriesBatch n first lst = Some es \<and> consecutive first es \<and>
    (es \<noteq> [] \<longrightarrow> unat first + length es \<le> unat (n_lastLogIndex n) + 1)"
proof (cases "first = 0 \<or> first > lst \<or> lst > n_lastLogIndex n")
  case True
  then show ?thesis by (simp add: entriesBatch_def)
next
  case False
  let ?s = "unat first - unat (n_logBaseIndex n) - 1"
  have r: "first \<le> lst" "lst \<le> n_lastLogIndex n" using False by auto
  obtain j where j: "j \<le> unat lst - unat first + 1"
    "entriesBatch n first lst = Some (take j (drop ?s (n_log n)))"
    using entriesBatch_spec [OF ok first r] by metis
  have l: "unat (n_lastLogIndex n) = unat (n_logBaseIndex n) + length (n_log n)" by (rule log_ok_last [OF ok])
  have s: "?s \<le> length (n_log n)" "unat (n_logBaseIndex n) + 1 + ?s = unat first"
    using r first l by (auto simp: word_le_nat_alt word_less_nat_alt)
  have "n_logBaseIndex n + 1 + of_nat ?s = first"
  proof (rule unat_inj_u64)
    have "unat (n_logBaseIndex n + of_nat (1 + ?s)) = unat (n_logBaseIndex n) + (1 + ?s)"
      by (rule unat_add_of_nat) (use s r l log_ok_bound [OF ok] in \<open>simp add: word_le_nat_alt\<close>)
    then show "unat (n_logBaseIndex n + 1 + of_nat ?s) = unat first" using s(2) by (simp add: add.assoc)
  qed
  then have "consecutive first (drop ?s (n_log n))"
    using consecutive_drop [OF _ s(1), of "n_logBaseIndex n + 1"] ok by (simp add: log_ok_def)
  then have "consecutive first (take j (drop ?s (n_log n)))" by (rule consecutive_take)
  moreover have "length (take j (drop ?s (n_log n))) \<le> unat (n_lastLogIndex n) + 1 - unat first"
    using s l by simp
  ultimately show ?thesis using j(2) r first by (auto simp: word_le_nat_alt)
qed

lemma sendAppendEntriesTo_achieves:
  assumes wf: "wf_node n"
  shows "achieves (sendAppendEntriesTo n peer rid) (step_ok n)"
proof -
  have ok: "log_ok n" using wf by (simp add: wf_node_def)
  define d where "d = min (n_durableLogIndex n) (n_lastLogIndex n)"
  define nx where "nx = (if map_get (n_nextIndex n) peer = 0 \<or> map_get (n_nextIndex n) peer > d + 1
                         then d + 1 else map_get (n_nextIndex n) peer)"
  have unf: "step_ok n (n\<lparr>n_nextRequestID := r, n_snapshotInFlight := f\<rparr>) [ActSendInstallSnapshot a]"
    "request_ok q \<Longrightarrow> step_ok n (n\<lparr>n_nextRequestID := r, n_appendInFlight := g\<rparr>) [SendAppendEntries peer q]"
    for r f a g q
    by (rule lview_step_ok [OF wf]; use wf in \<open>auto simp: wf_node_def pending_ok_def\<close>)+
  have "d \<le> n_lastLogIndex n" by (simp add: d_def)
  then have d: "unat d < 2 ^ 64 - 1" "d \<noteq> - 1"
    using log_ok_last [OF ok] log_ok_bound [OF ok] unat_max_u64 by (auto simp: word_le_nat_alt)
  have nx: "nx \<le> d + 1" "0 < nx"
    using unat_plus_one_max [OF d(2)] by (auto simp: nx_def word_le_nat_alt word_less_nat_alt unat_gt_0)
  then have prev: "unat (nx - 1) = unat nx - 1" "unat nx \<le> unat d + 1"
    using unat_plus_one_max [OF d(2)] by (auto simp: unat_minus_one_pos word_le_nat_alt)
  obtain t where t: "termAt n (nx - 1) = Some t" using termAt_ex [OF ok] by blast
  have "achieves (do { entries \<leftarrow> entriesBatch n nx d;
      Some (n\<lparr>n_nextRequestID := n_nextRequestID n + 1,
              n_appendInFlight := (n_appendInFlight n)(peer \<mapsto> (n_nextRequestID n + 1, n_commitIndex n))\<rparr>,
            [SendAppendEntries peer \<lparr>ae_From = n_id n, ae_Term = n_term n,
               ae_RequestID = n_nextRequestID n + 1, ae_PrevLogIndex = nx - 1, ae_PrevLogTerm = t,
               ae_Entries = entries, ae_LeaderCommit = n_commitIndex n, ae_ReadID = rid\<rparr>]) }) (step_ok n)"
    if b: "\<not> nx \<le> n_logBaseIndex n"
  proof -
    have b': "n_logBaseIndex n < nx" using b by simp
    obtain es where "entriesBatch n nx d = Some es" "consecutive nx es"
      "es \<noteq> [] \<longrightarrow> unat nx + length es \<le> unat (n_lastLogIndex n) + 1"
      using entriesBatch_request [OF ok b', of d] by blast
    moreover have "0 < unat nx" using nx(2) by (simp add: word_less_nat_alt)
    ultimately show ?thesis using prev d log_ok_last [OF ok] log_ok_bound [OF ok]
      by (auto intro!: achievesI unf(2) simp: request_ok_def)
  qed
  moreover have "achieves (Some (n, [])) (step_ok n)" by (intro achievesI step_ok_refl [OF wf]) simp
  ultimately show ?thesis
    using unf(1) t unfolding sendAppendEntriesTo_def Let_def d_def [symmetric] nx_def [symmetric] by auto
qed

lemma sendAppendEntries_achieves:
  assumes wf: "wf_node n"
  shows "achieves (sendAppendEntries n rid) (step_ok n)"
proof -
  let ?f = "\<lambda>peer m. sendAppendEntriesTo m peer (if rid = 0 then pendingReadFor m peer else rid)"
  have step: "\<exists>m' as. ?f x m = Some (m', as) \<and> (step_ok n m' [] \<and> (\<forall>a\<in>set as. message_ok a))"
    if m: "step_ok n m []" for x m
  proof -
    obtain m' as where m': "?f x m = Some (m', as)" "step_ok m m' as"
      using sendAppendEntriesTo_achieves [OF step_ok_wf [OF m]] unfolding achieves_def by blast
    from step_ok_trans0 [OF m m'(2)] m'(1) show ?thesis by (auto simp: step_ok_def)
  qed
  have s0: "step_ok n n []" by (rule step_ok_refl [OF wf]) simp
  obtain n' as where r: "for_each ?f (n_peers n) n = Some (n', as)"
    using for_each_total [of "\<lambda>m. step_ok n m []", OF s0, of "n_peers n" ?f] step by blast
  have "step_ok n m' [] \<and> (\<forall>a\<in>set bs. message_ok a)"
    if "step_ok n m []" "?f x m = Some (m', bs)" for x m m' bs
    using step [OF that(1), of x] that(2) by simp
  then have "step_ok n n' [] \<and> (\<forall>a\<in>set as. message_ok a)"
    using for_each_invariant [OF r, of "\<lambda>m. step_ok n m []" message_ok, OF s0] by blast
  then show ?thesis unfolding sendAppendEntries_def r by (intro achievesI) (simp add: step_ok_def)
qed

subsection \<open>Extending and truncating the log\<close>

lemma appendEntries_step_ok:
  assumes wf: "wf_node n" and es: "es \<noteq> []" "consecutive (n_lastLogIndex n + 1) es"
    and room: "unat (n_lastLogIndex n) + length es < 2 ^ 64 - 1"
  shows "\<exists>m. appendEntries n es = Some m \<and> step_ok n m []"
proof -
  have ok: "log_ok n" using wf by (simp add: wf_node_def)
  let ?m = "n\<lparr>n_log := n_log n @ es, n_lastLogIndex := n_lastLogIndex n + of_nat (length es),
              n_lastLogTerm := e_Term (last es)\<rparr>"
  have last: "unat (n_lastLogIndex n + of_nat (length es)) = unat (n_lastLogIndex n) + length es"
    by (rule unat_add_of_nat) (use room in simp)
  have pos: "positions_ok ?m"
    using wf last by (simp add: wf_node_def positions_ok_def word_le_nat_alt)
  have "entryAt ?m k = entryAt n k" if "k \<le> unat (n_commitIndex n)" for k
    using that wf log_ok_last [OF ok]
    by (auto simp: entryAt_def wf_node_def positions_ok_def word_le_nat_alt nth_append)
  then have "grows n ?m" by (simp add: grows_def)
  then have "step_ok n ?m []"
    using wf pos appendEntries_ok(2) [OF ok es room] by (simp add: step_ok_def wf_node_def pending_ok_def)
  then show ?thesis using appendEntries_ok(1) [OF ok es room] by blast
qed

lemma truncateLog_step_ok:
  assumes wf: "wf_node n" and f: "n_commitIndex n < f" "f \<le> n_lastLogIndex n"
  shows "\<exists>m. truncateLog n f = Some m \<and> step_ok n m [] \<and> n_lastLogIndex m = f - 1"
proof -
  have ok: "log_ok n" "n_logBaseIndex n < f"
    using wf f by (auto simp: wf_node_def positions_ok_def word_le_nat_alt word_less_nat_alt)
  obtain m t where m: "truncateLog n f = Some m" "log_ok m"
    "m = n\<lparr>n_log := take (unat f - unat (n_logBaseIndex n) - 1) (n_log n), n_lastLogIndex := f - 1,
           n_lastLogTerm := t, n_durableLogIndex := min (n_durableLogIndex n) (f - 1)\<rparr>"
    using truncateLog_ok [OF ok f(2)] by blast
  have "unat (f - 1) = unat f - 1" using f(1) by (intro unat_minus_one_pos word_pos_if_less)
  then have "positions_ok m"
    using wf f(1) m(3) by (auto simp: wf_node_def positions_ok_def word_le_nat_alt word_less_nat_alt)
  moreover have "grows n m"
    using entryAt_truncate [OF ok f(2) m(1)] f(1) m(3) by (auto simp: grows_def word_less_nat_alt)
  moreover have "pending_ok m" using wf m(3) by (simp add: wf_node_def pending_ok_def)
  ultimately show ?thesis using m by (auto simp: step_ok_def wf_node_def)
qed

text \<open>A Leader appends one entry after its log.\<close>

definition room :: "Node \<Rightarrow> bool" where
  "room n \<longleftrightarrow> unat (n_lastLogIndex n) + 1 < 2 ^ 64 - 1"

lemma leader_append_step_ok:
  assumes "wf_node n" "room n" "e_Index e = n_lastLogIndex n + 1"
  shows "\<exists>m. appendEntries n [e] = Some m \<and> step_ok n m []"
  using appendEntries_step_ok [OF assms(1), of "[e]"] assms(2,3)
  by (simp add: room_def consecutive_Cons)

lemma log_event_step_ok:
  assumes wf: "wf_node n" and m: "lview m = lview n" "pending_ok m"
    and a: "\<exists>m1. appendEntries m es = Some m1 \<and> step_ok m m1 []"
  obtains m1 where "appendEntries m es = Some m1" "step_ok n m1 []" "\<And>p. achieves (Some (persistLog m1 es p)) (step_ok n)"
proof -
  have s0: "step_ok n m []" by (rule lview_step_ok [OF wf m]) simp
  obtain m1 where m1: "appendEntries m es = Some m1" "step_ok m m1 []" using a by blast
  have s: "step_ok n m1 []" by (rule step_ok_trans0 [OF s0 m1(2)])
  have "achieves (Some (persistLog m1 es p)) (step_ok n)" for p
    using step_ok_trans0 [OF s persistLog_step_ok [OF step_ok_wf [OF s]], of es p]
    by (cases "persistLog m1 es p") auto
  with m1(1) s that show thesis by blast
qed

lemma achieves_Cons:
  "achieves (Some r) (step_ok n) \<Longrightarrow> (\<And>a. a \<in> set as \<Longrightarrow> message_ok a) \<Longrightarrow>
   achieves (Some (fst r, as @ snd r)) (step_ok n)"
  by (auto simp: achieves_def step_ok_def)

lemma proposeEntry_achieves:
  assumes wf: "wf_node n" and "room n" "e_Index e = n_lastLogIndex n + 1"
  shows "achieves (proposeEntry n pid e) (step_ok n)"
proof -
  obtain m where "appendEntries n [e] = Some m" "\<And>p. achieves (Some (persistLog m [e] p)) (step_ok n)"
    using log_event_step_ok [OF wf refl _ leader_append_step_ok [OF assms]] wf
    by (metis wf_node_def)
  then show ?thesis
    using achieves_Cons [of _ n "[ProposalAccepted pid (e_Index e)]"]
    by (simp add: proposeEntry_def split_beta)
qed

lemma propose_achieves:
  assumes "wf_node n" "room n"
  shows "achieves (proposeSession n e1) (step_ok n)" "achieves (proposeSet n e2) (step_ok n)"
    "achieves (proposeDelete n e3) (step_ok n)"
  using assms
  by (auto simp: proposeSession_def proposeSet_def proposeDelete_def
      intro!: achievesI step_ok_refl proposeEntry_achieves)

subsection \<open>Handlers\<close>

lemma pair_achieves: "(\<And>n' as. r = (n', as) \<Longrightarrow> P n' as) \<Longrightarrow> achieves (Some r) P"
  by (cases r) auto

lemma becomeFollower_step_ok:
  assumes "wf_node n"
  shows "step_ok n (becomeFollower n t l) []"
  by (rule lview_step_ok [OF assms])
     (use assms in \<open>auto simp: becomeFollower_def Let_def wf_node_def pending_ok_def\<close>)

lemma acceptLeader_step_ok:
  assumes "wf_node n"
  shows "step_ok n (acceptLeader n t l) []"
proof -
  have "step_ok n (becomeFollower n t l\<lparr>n_recentLeaderContact := True\<rparr>) []"
    using becomeFollower_step_ok [OF assms, of t l]
    by (intro lview_step_ok [OF assms])
       (use assms in \<open>auto simp: becomeFollower_def Let_def wf_node_def pending_ok_def\<close>)
  moreover have "step_ok n (n\<lparr>n_role := Follower, n_leaderID := l, n_readReady := False,
      n_recentLeaderContact := True\<rparr>) []"
    by (rule lview_step_ok [OF assms]) (use assms in \<open>auto simp: wf_node_def pending_ok_def\<close>)
  ultimately show ?thesis by (simp add: acceptLeader_def Let_def)
qed

lemma stepDown_achieves:
  assumes "wf_node n"
  shows "achieves (Some (persistHardState (becomeFollower n t l) [])) (step_ok n)"
proof (rule pair_achieves)
  fix n' as assume "persistHardState (becomeFollower n t l) [] = (n', as)"
  from persistHardState_step_ok [OF step_ok_wf [OF becomeFollower_step_ok [OF assms]] this]
  show "step_ok n n' as" by (simp add: step_ok_trans0 [OF becomeFollower_step_ok [OF assms]])
qed

lemma lview_persist_achieves:
  assumes "wf_node n" "lview m = lview n" "pending_ok m" "\<forall>a\<in>set after. message_ok a"
  shows "achieves (Some (persistHardState m after)) (step_ok n)"
proof (rule pair_achieves)
  have s: "step_ok n m []" by (rule lview_step_ok [OF assms(1-3)]) simp
  fix n' as assume "persistHardState m after = (n', as)"
  from step_ok_trans0 [OF s persistHardState_step_ok [OF step_ok_wf [OF s] this assms(4)]]
  show "step_ok n n' as" .
qed

lemma startElection_achieves:
  assumes "wf_node n" "lview m = lview n" "pending_ok m"
  shows "achieves (Some (startElection m)) (step_ok n)"
  unfolding startElection_def Let_def
  by (rule lview_persist_achieves [OF assms(1)]) (use assms in \<open>auto simp: pending_ok_def\<close>)

lemma startPreVote_achieves:
  assumes wf: "wf_node n"
  shows "achieves (Some (startPreVote n)) (step_ok n)"
proof (cases "n_role n = Leader")
  case True
  then show ?thesis using wf by (auto simp: startPreVote_def intro!: achievesI step_ok_refl)
next
  case False
  define m where "m = n\<lparr>n_recentLeaderContact := False, n_leaderID := '''', n_role := PreCandidate,
                  n_preVotes := {n_id n}\<rparr>"
  define as where "as = ResetElectionTimer #
              map (\<lambda>peer. SendPreVoteRequest peer
                     \<lparr>pvq_From = n_id m, pvq_Term = n_term m + 1, pvq_LastLogIndex = n_lastLogIndex m,
                      pvq_LastLogTerm = n_lastLogTerm m\<rparr>) (n_peers m)"
  have m: "lview m = lview n" "pending_ok m" using wf by (auto simp: m_def wf_node_def pending_ok_def)
  have as: "message_ok a" if "a \<in> set as" for a using that by (auto simp: as_def)
  have "startPreVote n = (if quorum n = 1 then (fst (startElection m), as @ snd (startElection m)) else (m, as))"
    using False by (simp add: startPreVote_def Let_def m_def as_def quorum_def split_beta)
  moreover have "achieves (Some (fst (startElection m), as @ snd (startElection m))) (step_ok n)"
    by (rule achieves_Cons [OF startElection_achieves [OF wf m] as])
  moreover have "achieves (Some (m, as)) (step_ok n)"
    by (intro achievesI lview_step_ok [OF wf m] as)
  ultimately show ?thesis by simp
qed

lemma handlePreVoteRequest_achieves:
  "wf_node n \<Longrightarrow> achieves (Some (handlePreVoteRequest n r)) (step_ok n)"
  by (auto simp: handlePreVoteRequest_def Let_def intro!: achievesI step_ok_refl)

lemma handlePreVoteResponse_achieves:
  assumes wf: "wf_node n"
  shows "achieves (Some (handlePreVoteResponse n r)) (step_ok n)"
proof -
  let ?m = "n\<lparr>n_preVotes := insert (pvr_From r) (n_preVotes n)\<rparr>"
  have m: "lview ?m = lview n" "pending_ok ?m" using wf by (auto simp: wf_node_def pending_ok_def)
  have "achieves (Some (?m, [])) (step_ok n)" by (intro achievesI lview_step_ok [OF wf m]) simp
  moreover have "achieves (Some (n, [])) (step_ok n)" by (intro achievesI step_ok_refl [OF wf]) simp
  ultimately show ?thesis
    using startElection_achieves [OF wf m] stepDown_achieves [OF wf]
    by (simp add: handlePreVoteResponse_def Let_def)
qed

lemma handleVoteRequest_achieves:
  assumes wf: "wf_node n"
  shows "achieves (Some (handleVoteRequest n r)) (step_ok n)"
proof -
  have vr: "message_ok a" if "a \<in> set (voteResponse m to g)" for a m to g
    using that by (simp add: voteResponse_def)
  have own: "achieves (Some (n, voteResponse n (vq_From r) False)) (step_ok n)"
    by (intro achievesI step_ok_refl [OF wf] vr)
  define m where "m = (if vq_Term r > n_term n then becomeFollower n (vq_Term r) '''' else n)"
  define g where "g \<longleftrightarrow> (n_votedFor m = '''' \<or> n_votedFor m = vq_From r) \<and>
    candidateLogIsUpToDate m (vq_LastLogTerm r) (vq_LastLogIndex r)"
  define m' where "m' = (if g then m\<lparr>n_votedFor := vq_From r\<rparr> else m)"
  have m': "lview m' = lview n" "pending_ok m'"
    using wf by (auto simp: m'_def m_def becomeFollower_def Let_def wf_node_def pending_ok_def)
  have "achieves (Some (persistHardState m' (voteResponse m' (vq_From r) g))) (step_ok n)"
    by (rule lview_persist_achieves [OF wf m']) (use vr in blast)
  moreover have "achieves (Some (m', voteResponse m' (vq_From r) g)) (step_ok n)"
    by (intro achievesI lview_step_ok [OF wf m'] vr)
  moreover have "handleVoteRequest n r = (if vq_Term r < n_term n then (n, voteResponse n (vq_From r) False)
    else if vq_Term r > n_term n \<or> g \<and> \<not> voteIsDurable m' (vq_From r)
    then persistHardState m' (voteResponse m' (vq_From r) g) else (m', voteResponse m' (vq_From r) g))"
    unfolding handleVoteRequest_def Let_def m'_def g_def m_def by simp
  ultimately show ?thesis using own by simp
qed

lemma handleVoteResponse_achieves:
  assumes wf: "wf_node n" and room: "room n"
  shows "achieves (handleVoteResponse n r) (step_ok n)"
proof -
  have n0: "achieves (Some (n, [])) (step_ok n)" by (intro achievesI step_ok_refl [OF wf]) simp
  let ?c = "n\<lparr>n_votes := insert (vr_From r) (n_votes n)\<rparr>"
  have c: "achieves (Some (?c, [])) (step_ok n)"
    by (intro achievesI lview_step_ok [OF wf]) (use wf in \<open>auto simp: wf_node_def pending_ok_def\<close>)
  define m where "m = ?c\<lparr>n_role := Leader, n_leaderID := n_id n, n_activePeers := {},
    n_matchIndex := Map.empty, n_nextIndex := Map.empty, n_appendInFlight := Map.empty,
    n_snapshotInFlight := Map.empty, n_readReady := False\<rparr>"
  define entry where "entry = \<lparr>e_Index = n_lastLogIndex m + 1, e_Term = n_term m, e_Type = EntryNoOp,
                          e_SessionID = zeroSessionID, e_Sequence = 0, e_Key = '''', e_Value = []\<rparr>"
  have lv: "lview m = lview n" "pending_ok m" using wf by (auto simp: m_def wf_node_def pending_ok_def)
  have "step_ok n m []" by (rule lview_step_ok [OF wf lv]) simp
  then have wfm: "wf_node m" "room m" using room lview_eq(4) [OF lv(1)] by (auto simp: step_ok_def room_def)
  have "\<exists>m1. appendEntries m [entry] = Some m1 \<and> step_ok m m1 []"
    by (rule leader_append_step_ok [OF wfm]) (simp add: entry_def)
  from log_event_step_ok [OF wf lv this] obtain m1 where
    m1: "appendEntries m [entry] = Some m1" "step_ok n m1 []" by metis
  have persisted: "achieves (Some (fst (persistLog (m1\<lparr>n_nextIndex := g\<rparr>) [entry] p),
      as @ snd (persistLog (m1\<lparr>n_nextIndex := g\<rparr>) [entry] p))) (step_ok n)"
    if "\<And>a. a \<in> set as \<Longrightarrow> message_ok a" for g p as
  proof (rule achieves_Cons [OF pair_achieves that])
    have "step_ok m1 (m1\<lparr>n_nextIndex := g\<rparr>) []"
      by (rule lview_step_ok) (use step_ok_wf [OF m1(2)] in \<open>auto simp: wf_node_def pending_ok_def\<close>)
    then have s: "step_ok n (m1\<lparr>n_nextIndex := g\<rparr>) []" by (rule step_ok_trans0 [OF m1(2)])
    fix n' as' assume "persistLog (m1\<lparr>n_nextIndex := g\<rparr>) [entry] p = (n', as')"
    from step_ok_trans0 [OF s persistLog_step_ok [OF step_ok_wf [OF s] this]] show "step_ok n n' as'" .
  qed
  show ?thesis
    using n0 c m1(1) stepDown_achieves [OF wf]
    by (simp add: handleVoteResponse_def Let_def split_beta m_def entry_def del: append.simps)
       (intro impI persisted [unfolded entry_def m_def, simplified], auto)
qed

lemma afterTermChange_achieves:
  assumes "step_ok n m as"
  shows "achieves (Some (afterTermChange changed m as)) (step_ok n)"
proof (cases changed)
  case True
  have m: "step_ok n m []" "\<forall>a\<in>set as. message_ok a" using assms by (simp_all add: step_ok_def)
  have "achieves (Some (persistHardState m as)) (step_ok n)"
    by (rule pair_achieves) (use step_ok_trans0 [OF m(1) persistHardState_step_ok [OF step_ok_wf [OF m(1)] _ m(2)]] in blast)
  with True show ?thesis by (simp add: afterTermChange_def)
next
  case False
  with assms show ?thesis by (auto simp: afterTermChange_def)
qed

text \<open>What a follower does with an accepted replication request.\<close>

lemma followerAppend_step_ok:
  assumes wf: "wf_node n" and r: "request_ok r"
    and plan: "entriesToAppend n (ae_PrevLogIndex r) (ae_Entries r) = Some (Some (es, tf))" and es: "es \<noteq> []"
  shows "\<exists>n1 n2. (if tf \<noteq> 0 then truncateLog n tf else Some n) = Some n1 \<and> appendEntries n1 es = Some n2 \<and>
    step_ok n n2 []"
proof -
  from plan obtain k where k: "appendable n (ae_PrevLogIndex r + 1) (ae_Entries r) k es tf"
    unfolding entriesToAppend_def by (auto dest: entriesToAppend_loop_spec)
  then have es': "es = drop k (ae_Entries r)" "k \<le> length (ae_Entries r)"
    and hd: "e_Index (hd es) = ae_PrevLogIndex r + 1 + of_nat k"
    using es by (auto simp: appendable_def)
  have cons: "consecutive (e_Index (hd es)) es"
    using r es' hd consecutive_drop by (simp add: request_ok_def)
  have "unat (ae_PrevLogIndex r + of_nat (1 + k)) = unat (ae_PrevLogIndex r) + (1 + k)"
    by (rule unat_add_of_nat) (use r es' es in \<open>auto simp: request_ok_def\<close>)
  then have first: "unat (e_Index (hd es)) = unat (ae_PrevLogIndex r) + 1 + k"
    using hd by (simp add: add.assoc)
  have room: "unat (e_Index (hd es)) - 1 + length es < 2 ^ 64 - 1" "0 < unat (e_Index (hd es))"
    using r es' first by (auto simp: request_ok_def)
  obtain n1 where n1: "(if tf \<noteq> 0 then truncateLog n tf else Some n) = Some n1" "step_ok n n1 []"
    "n_lastLogIndex n1 + 1 = e_Index (hd es)"
  proof (cases "tf = 0")
    case True
    have "step_ok n n []" by (rule step_ok_refl [OF wf]) simp
    with True k es that [of n] show thesis by (auto simp: appendable_def)
  next
    case False
    with k have tf: "n_commitIndex n < tf" "tf \<le> n_lastLogIndex n" "tf = e_Index (hd es)"
      by (auto simp: appendable_def)
    from truncateLog_step_ok [OF wf tf(1,2)] obtain m where
      "truncateLog n tf = Some m" "step_ok n m []" "n_lastLogIndex m = tf - 1" by blast
    with False tf(3) that [of m] show thesis by simp
  qed
  have "unat (n_lastLogIndex n1) = unat (e_Index (hd es)) - 1"
    using n1(3) room(2) unat_minus_one_pos [of "e_Index (hd es)"] by (metis add_diff_cancel_right' unat_0 word_less_nat_alt)
  with appendEntries_step_ok [OF step_ok_wf [OF n1(2)] es] cons n1(3) room(1)
  obtain n2 where "appendEntries n1 es = Some n2" "step_ok n1 n2 []" by auto
  with n1(1,2) show ?thesis using step_ok_trans0 by blast
qed

lemma response_message_ok: "a \<in> set (appendEntriesResponse n to rid s m ct ci rd) \<Longrightarrow> message_ok a"
  by (simp add: appendEntriesResponse_def)

lemma acceptedAppend_achieves:
  assumes wf: "wf_node n" and r: "request_ok r"
  shows "achieves (acceptedAppend n r) (step_ok n)"
proof -
  have ok: "log_ok n" using wf by (simp add: wf_node_def)
  obtain b where b: "matches n (ae_PrevLogIndex r) (ae_PrevLogTerm r) = Some b" using matches_ex [OF ok] by blast
  obtain plan where plan: "(if b then entriesToAppend n (ae_PrevLogIndex r) (ae_Entries r) else Some None) = Some plan"
    using entriesToAppend_loop_ex [OF ok] by (cases b) (auto simp: entriesToAppend_def)
  obtain ct ci where hint: "conflictHint n (if b then ae_PrevLogIndex r + 1 else ae_PrevLogIndex r) = Some (ct, ci)"
    using conflictHint_ex [OF ok] by blast
  have stay: "achieves (Some (n, as)) (step_ok n)" if "\<And>a. a \<in> set as \<Longrightarrow> message_ok a" for as
    by (intro achievesI step_ok_refl [OF wf] that)
  show ?thesis
  proof (cases plan)
    case None
    with b plan hint show ?thesis
      by (simp add: acceptedAppend_def stay response_message_ok)
  next
    case (Some p)
    obtain es tf where p: "p = (es, tf)" by (cases p)
    with Some plan have plan': "entriesToAppend n (ae_PrevLogIndex r) (ae_Entries r) = Some (Some (es, tf))" "b"
      by (auto split: if_splits)
    show ?thesis
    proof (cases "es = []")
      case True
      have "achieves (advanceFollowerCommit n (ae_LeaderCommit r) (appendEntriesResponse n (ae_From r)
          (ae_RequestID r) True (n_lastLogIndex n) 0 0 (ae_ReadID r))) (step_ok n)"
        by (rule advanceFollowerCommit_achieves [OF wf]) (use response_message_ok in blast)
      with b plan' True stay [of "[]"] show ?thesis by (simp add: acceptedAppend_def)
    next
      case False
      from followerAppend_step_ok [OF wf r plan'(1) False] obtain n1 n2 where
        n2: "(if tf \<noteq> 0 then truncateLog n tf else Some n) = Some n1" "appendEntries n1 es = Some n2" "step_ok n n2 []"
        by blast
      have "achieves (Some (persistLog n2 es q)) (step_ok n)" for q
        by (rule pair_achieves) (use step_ok_trans0 [OF n2(3) persistLog_step_ok [OF step_ok_wf [OF n2(3)]]] in blast)
      with b plan' n2 False show ?thesis by (simp add: acceptedAppend_def)
    qed
  qed
qed

lemma handleAppendEntries_achieves:
  assumes wf: "wf_node n" and r: "request_ok r"
  shows "achieves (handleAppendEntries n r) (step_ok n)"
proof (cases "ae_Term r < n_term n")
  case True
  then show ?thesis
    using wf by (auto simp: handleAppendEntries_accept intro!: achievesI step_ok_refl dest: response_message_ok)
next
  case False
  let ?a = "acceptLeader n (ae_Term r) (ae_From r)"
  note a = acceptLeader_step_ok [OF wf, of "ae_Term r" "ae_From r"]
  have "achieves (do { (m, as) \<leftarrow> acceptedAppend ?a r;
      Some (afterTermChange (ae_Term r > n_term n) m (ResetElectionTimer # as)) }) (step_ok n)"
  proof (rule achieves_bind [OF acceptedAppend_achieves [OF step_ok_wf [OF a] r]])
    fix m as assume "step_ok ?a m as"
    then have "step_ok n m (ResetElectionTimer # as)" using step_ok_trans0 [OF a] by (simp add: step_ok_def)
    then show "achieves (case (m, as) of (m, as) \<Rightarrow>
        Some (afterTermChange (ae_Term r > n_term n) m (ResetElectionTimer # as))) (step_ok n)"
      by (simp add: afterTermChange_achieves)
  qed
  with False show ?thesis by (simp add: handleAppendEntries_accept)
qed

text \<open>A snapshot the runtime may report as installed: it does not roll back committed entries that
  disagree with it.\<close>

definition snapshot_ok :: "Node \<Rightarrow> InstallSnapshot \<Rightarrow> bool" where
  "snapshot_ok n r \<longleftrightarrow> unat (is_SnapshotIndex r) < 2 ^ 64 - 1 \<and>
     (n_commitIndex n \<le> is_SnapshotIndex r \<or> termAt n (is_SnapshotIndex r) = Some (is_SnapshotTerm r))"

lemma takeWhile_log:
  assumes ok: "log_ok n" and S: "n_logBaseIndex n < S" "S \<le> n_lastLogIndex n"
  shows "length (takeWhile (\<lambda>e. e_Index e \<le> S) (n_log n)) = unat S - unat (n_logBaseIndex n)"
proof -
  let ?k = "unat S - unat (n_logBaseIndex n)"
  have idx: "unat (e_Index (n_log n ! i)) = unat (n_logBaseIndex n) + i + 1" if "i < length (n_log n)" for i
    using log_ok_Index [OF ok that] by simp
  have "takeWhile (\<lambda>e. e_Index e \<le> S) (n_log n) = take ?k (n_log n)"
    by (rule takeWhile_eq_take_P_nth) (use idx S(1) in \<open>auto simp: word_le_nat_alt word_less_nat_alt\<close>)
  then show ?thesis using S log_ok_last [OF ok] by (simp add: word_le_nat_alt)
qed

lemma log_ok_drop:
  assumes ok: "log_ok n" and S: "n_logBaseIndex n < S" "S \<le> n_lastLogIndex n" and T: "termAt n S = Some t"
  shows "log_ok (n\<lparr>n_log := drop (unat S - unat (n_logBaseIndex n)) (n_log n), n_logBaseIndex := S,
    n_logBaseTerm := t\<rparr>)"
proof -
  let ?c = "n\<lparr>n_lastApplied := S\<rparr>"
  have c: "log_ok ?c = log_ok n" "termAt ?c S = termAt n S" by (simp_all add: log_ok_def termAt_def)
  have "unat (S - n_logBaseIndex n) \<le> length (n_log n)"
    using S log_ok_last [OF ok] unat_sub_le [OF less_imp_le [OF S(1)]] by (simp add: word_le_nat_alt)
  then have "\<exists>m. compactLog ?c S t = Some m \<and> n_logBaseIndex m = S"
    using S T c by (auto simp: compactLog_def go_from_def not_le)
  moreover have "n_logBaseIndex ?c \<noteq> S" using S(1) by simp
  ultimately have "compactLog ?c S t \<noteq> Some ?c" by (metis option.inject)
  with compactLog_cases [of ?c S t] c ok S(2) have
    "log_ok (?c\<lparr>n_log := drop (unat S - unat (n_logBaseIndex ?c)) (n_log ?c), n_logBaseIndex := S,
       n_logBaseTerm := t\<rparr>)" by auto
  then show ?thesis by (simp add: log_ok_def)
qed

lemma log_ok_last_entry:
  assumes ok: "log_ok n" and "n_log n \<noteq> []"
  shows "e_Index (last (n_log n)) = n_lastLogIndex n"
proof (rule unat_inj_u64)
  show "unat (e_Index (last (n_log n))) = unat (n_lastLogIndex n)"
    using log_ok_Index [OF ok, of "length (n_log n) - 1"] log_ok_last [OF ok] assms(2)
    by (simp add: last_conv_nth)
qed

lemma snapshot_keep_step_ok:
  assumes wf: "wf_node n" and S: "n_logBaseIndex n < S" "S \<le> n_lastLogIndex n" and T: "termAt n S = Some t"
  shows "step_ok n (n\<lparr>n_log := drop (unat S - unat (n_logBaseIndex n)) (n_log n), n_logBaseIndex := S,
    n_logBaseTerm := t, n_commitIndex := max (n_commitIndex n) S,
    n_durableCommitIndex := max (n_durableCommitIndex n) S, n_lastApplied := S\<rparr>) []" (is "step_ok n ?m []")
proof -
  have ok: "log_ok n" using wf by (simp add: wf_node_def)
  have "log_ok ?m" using log_ok_drop [OF ok S T] by (simp add: log_ok_def)
  moreover have "positions_ok ?m"
    using wf S by (auto simp: wf_node_def positions_ok_def le_max_iff_disj)
  moreover have "pending_ok ?m"
    using wf unfolding wf_node_def pending_ok_def by (auto simp: le_max_iff_disj)
  moreover have "entryAt ?m k = entryAt n k" if "unat S < k" for k
    using S that log_ok_last [OF ok] by (auto simp: entryAt_def word_le_nat_alt word_less_nat_alt)
  then have "grows n ?m" using S(1) by (simp add: grows_def le_max_iff_disj)
  ultimately show ?thesis by (simp add: step_ok_def wf_node_def)
qed

lemma snapshot_replace_step_ok:
  assumes wf: "wf_node n" and S: "n_logBaseIndex n < S" "n_commitIndex n \<le> S" "unat S < 2 ^ 64 - 1"
  shows "step_ok n (n\<lparr>n_log := [], n_lastLogIndex := S, n_lastLogTerm := t, n_durableLogIndex := S,
    n_logBaseIndex := S, n_logBaseTerm := t, n_commitIndex := max (n_commitIndex n) S,
    n_durableCommitIndex := max (n_durableCommitIndex n) S, n_lastApplied := S\<rparr>) []" (is "step_ok n ?m []")
proof -
  have "log_ok ?m" using S(3) by (simp add: log_ok_def)
  moreover have "positions_ok ?m" using wf S by (auto simp: wf_node_def positions_ok_def)
  moreover have "pending_ok ?m"
    using wf unfolding wf_node_def pending_ok_def by (auto simp: le_max_iff_disj)
  moreover have "grows n ?m" using S by (auto simp: grows_def) (simp add: word_le_nat_alt)
  ultimately show ?thesis by (simp add: step_ok_def wf_node_def)
qed

lemma installSnapshotLog_step_ok:
  assumes wf: "wf_node n" and S: "n_logBaseIndex n < is_SnapshotIndex r" and r: "snapshot_ok n r"
  shows "\<exists>m. installSnapshotLog n r = Some m \<and> step_ok n m []"
proof -
  let ?S = "is_SnapshotIndex r" and ?T = "is_SnapshotTerm r"
  have ok: "log_ok n" and cl: "n_commitIndex n \<le> n_lastLogIndex n"
    using wf by (simp_all add: wf_node_def positions_ok_def)
  show ?thesis
  proof (cases "?S \<le> n_lastLogIndex n \<and> termAt n ?S = Some ?T")
    case True
    note keep = snapshot_keep_step_ok [OF wf S conjunct1 [OF True] conjunct2 [OF True]]
    let ?m = "n\<lparr>n_log := drop (unat ?S - unat (n_logBaseIndex n)) (n_log n), n_logBaseIndex := ?S,
      n_logBaseTerm := ?T, n_commitIndex := max (n_commitIndex n) ?S,
      n_durableCommitIndex := max (n_durableCommitIndex n) ?S, n_lastApplied := ?S\<rparr>"
    have lok: "log_ok ?m" using keep by (simp add: step_ok_def wf_node_def)
    have "n_lastLogIndex ?m = e_Index (last (n_log ?m)) \<and> n_lastLogTerm ?m = e_Term (last (n_log ?m))"
      if "n_log ?m \<noteq> []"
      using lok that log_ok_last_entry [OF lok that] by (simp add: log_ok_def)
    then have "installSnapshotLog n r = Some (if n_log ?m \<noteq> []
        then ?m\<lparr>n_durableLogIndex := e_Index (last (n_log ?m))\<rparr> else ?m)"
      using True takeWhile_log [OF ok S] by (simp add: installSnapshotLog_def Let_def)
    moreover have "step_ok n (if n_log ?m \<noteq> [] then ?m\<lparr>n_durableLogIndex := e_Index (last (n_log ?m))\<rparr> else ?m) []"
      using keep lview_step_ok [OF step_ok_wf [OF keep], of "?m\<lparr>n_durableLogIndex := e_Index (last (n_log ?m))\<rparr>" "[]"]
      by (auto simp: step_ok_def wf_node_def pending_ok_def intro: grows_trans)
    ultimately show ?thesis by blast
  next
    case False
    obtain t where t: "termAt n ?S = Some t" using termAt_ex [OF ok] by blast
    have "n_commitIndex n \<le> ?S" using False r cl by (auto simp: snapshot_ok_def not_le intro: order.trans)
    from snapshot_replace_step_ok [OF wf S this] r False t show ?thesis
      by (auto simp: installSnapshotLog_def Let_def snapshot_ok_def)
  qed
qed

lemma handleInstallSnapshot_achieves:
  assumes wf: "wf_node n" and r: "is_Installed r \<and> n_logBaseIndex n < is_SnapshotIndex r \<longrightarrow> snapshot_ok n r"
  shows "achieves (handleInstallSnapshot n r) (step_ok n)"
proof (cases "is_Term r < n_term n")
  case True
  then show ?thesis
    using wf by (auto simp: handleInstallSnapshot_def snapshotResponse_def intro!: achievesI step_ok_refl)
next
  case False
  let ?a = "acceptLeader n (is_Term r) (is_From r)"
  note a = acceptLeader_step_ok [OF wf, of "is_Term r" "is_From r"]
  have lv: "lview ?a = lview n" by (simp add: acceptLeader_def becomeFollower_def Let_def)
  have "\<exists>m. (if is_Installed r \<and> is_SnapshotIndex r > n_logBaseIndex ?a then installSnapshotLog ?a r else Some ?a) =
      Some m \<and> step_ok n m []"
  proof (cases "is_Installed r \<and> is_SnapshotIndex r > n_logBaseIndex ?a")
    case True
    then have "n_logBaseIndex ?a < is_SnapshotIndex r" "snapshot_ok ?a r"
      using r lview_eq [OF lv] lview_log(3) [OF lv] by (auto simp: snapshot_ok_def)
    from installSnapshotLog_step_ok [OF step_ok_wf [OF a] this] True step_ok_trans0 [OF a] show ?thesis by auto
  qed (use a in auto)
  then obtain m where m: "(if is_Installed r \<and> is_SnapshotIndex r > n_logBaseIndex ?a
      then installSnapshotLog ?a r else Some ?a) = Some m" "step_ok n m []" by blast
  have "step_ok n m (ResetElectionTimer # snapshotResponse m r (is_Success r) (is_NextOffset r) (is_Installed r))"
    using m(2) by (simp add: step_ok_def snapshotResponse_def)
  from afterTermChange_achieves [OF this, of "is_Term r > n_term n"] m(1) False show ?thesis
    by (simp add: handleInstallSnapshot_def Let_def)
qed

lemma lview_send_achieves:
  assumes "wf_node n" "lview m = lview n" "pending_ok m"
  shows "achieves (sendAppendEntriesTo m peer rid) (step_ok n)"
proof -
  have s: "step_ok n m []" by (rule lview_step_ok [OF assms]) simp
  show ?thesis
    by (rule achieves_mono [OF sendAppendEntriesTo_achieves [OF step_ok_wf [OF s]]]) (rule step_ok_trans0 [OF s])
qed

lemma lview_sendAll_achieves:
  assumes "wf_node n" "lview m = lview n" "pending_ok m"
  shows "achieves (sendAppendEntries m rid) (step_ok n)"
proof -
  have s: "step_ok n m []" by (rule lview_step_ok [OF assms]) simp
  show ?thesis
    by (rule achieves_mono [OF sendAppendEntries_achieves [OF step_ok_wf [OF s]]]) (rule step_ok_trans0 [OF s])
qed

lemma lview_achieves:
  assumes "wf_node n" "lview m = lview n" "pending_ok m" "\<And>a. a \<in> set as \<Longrightarrow> message_ok a"
  shows "achieves (Some (m, as)) (step_ok n)"
  by (intro achievesI lview_step_ok assms)

lemma handleInstallSnapshotResponse_achieves:
  assumes wf: "wf_node n"
  shows "achieves (handleInstallSnapshotResponse n r) (step_ok n)"
  using wf
  by (auto simp: handleInstallSnapshotResponse_def Let_def wf_node_def pending_ok_def
      intro!: stepDown_achieves lview_achieves lview_send_achieves)

lemma confirmRead_achieves:
  assumes wf: "wf_node n"
  shows "achieves (confirmRead n rid) (step_ok n)"
  using wf
  by (auto simp: confirmRead_def wf_node_def pending_ok_def distinct_update
      intro!: lview_achieves lview_sendAll_achieves)

lemma heartbeatRound_achieves:
  assumes wf: "wf_node n"
  shows "achieves (heartbeatRound n) (step_ok n)"
proof -
  have "achieves (sendAppendEntries (n\<lparr>n_appendInFlight := Map.empty\<rparr>) 0) (step_ok n)"
    using wf by (intro lview_sendAll_achieves) (auto simp: wf_node_def pending_ok_def)
  then have "achieves (do { (n, as) \<leftarrow> sendAppendEntries (n\<lparr>n_appendInFlight := Map.empty\<rparr>) 0;
      Some (n, ResetHeartbeatTimer # as) }) (step_ok n)"
    by (rule achieves_bind) (auto simp: step_ok_def)
  moreover have "achieves (Some (n, [])) (step_ok n)" using wf by (intro lview_achieves) (auto simp: wf_node_def)
  ultimately show ?thesis by (simp add: heartbeatRound_def)
qed

lemma checkQuorum_achieves:
  assumes wf: "wf_node n"
  shows "achieves (Some (checkQuorum n)) (step_ok n)"
  using wf
  by (auto simp: checkQuorum_def becomeFollower_def wf_node_def pending_ok_def intro!: lview_achieves)

lemma handleAppendEntriesFailed_achieves:
  assumes wf: "wf_node n"
  shows "achieves (Some (handleAppendEntriesFailed n to rid, [])) (step_ok n)"
  using wf
  by (auto simp: handleAppendEntriesFailed_def Let_def wf_node_def pending_ok_def intro!: lview_achieves)

lemma hardStatePersisted_achieves:
  assumes wf: "wf_node n"
  shows "achieves (Some (hardStatePersisted n pid)) (step_ok n)"
proof (cases "n_pendingHardState n pid")
  case None
  then show ?thesis using wf by (auto simp: hardStatePersisted_def wf_node_def intro!: lview_achieves)
next
  case (Some p)
  let ?m = "n\<lparr>n_pendingHardState := map_delete (n_pendingHardState n) pid, n_durableTerm := ph_term p,
    n_durableVotedFor := ph_votedFor p\<rparr>"
  have m: "pending_ok ?m" "\<And>a. a \<in> set (ph_after p) \<Longrightarrow> message_ok a"
    using wf Some by (auto simp: wf_node_def pending_ok_def)
  have "hardStatePersisted n pid =
      (?m, if ph_term p \<noteq> n_term n \<or> ph_votedFor p \<noteq> n_votedFor n then [] else ph_after p)"
    using Some by (auto simp: hardStatePersisted_def Let_def)
  moreover have "achieves (Some (?m, as)) (step_ok n)" if "as = [] \<or> as = ph_after p" for as
    by (rule lview_achieves [OF wf _ m(1)]) (use that m(2) in auto)
  ultimately show ?thesis by auto
qed

lemma logEntriesPersisted_achieves:
  assumes wf: "wf_node n"
  shows "achieves (logEntriesPersisted n pid) (step_ok n)"
proof (cases "n_pendingLog n pid")
  case None
  then show ?thesis using wf by (auto simp: logEntriesPersisted_def wf_node_def intro!: lview_achieves)
next
  case (Some p)
  define m where "m = n\<lparr>n_pendingLog := map_delete (n_pendingLog n) pid\<rparr>"
  define m1 where "m1 = (if pl_lastIndex p > n_durableLogIndex m
    then m\<lparr>n_durableLogIndex := pl_lastIndex p\<rparr> else m)"
  have m1: "lview m1 = lview n" "pending_ok m1" using wf by (auto simp: m1_def m_def wf_node_def pending_ok_def)
  have s: "step_ok n m1 []" by (rule lview_step_ok [OF wf m1]) simp
  have "achieves (advanceFollowerCommit m1 lc (appendEntriesResponse m1 to rid True i 0 0 rd)) (step_ok n)" for lc to rid i rd
    by (rule achieves_mono [OF advanceFollowerCommit_achieves [OF step_ok_wf [OF s]]])
       (auto intro: step_ok_trans0 [OF s] dest: response_message_ok)
  moreover have "achieves (Some (m1, [])) (step_ok n)" using s by auto
  moreover have "logEntriesPersisted n pid = Some (m1, []) \<or> logEntriesPersisted n pid = sendAppendEntries m1 0 \<or>
    logEntriesPersisted n pid = advanceFollowerCommit m1 (pl_leaderCommit p) (appendEntriesResponse m1
      (pl_leader p) (pl_requestID p) True (pl_lastIndex p) 0 0 (pl_readID p))"
    using Some unfolding m1_def m_def by (simp add: logEntriesPersisted_def Let_def split: logPersistencePurpose.split)
  ultimately show ?thesis using lview_sendAll_achieves [OF wf m1] by metis
qed

lemma commitIndexPersisted_achieves:
  assumes wf: "wf_node n"
  shows "achieves (commitIndexPersisted n pid) (step_ok n)"
proof (cases "n_pendingCommit n pid")
  case None
  then show ?thesis using wf by (auto simp: commitIndexPersisted_def wf_node_def intro!: lview_achieves)
next
  case (Some p)
  let ?m = "n\<lparr>n_pendingCommit := map_delete (n_pendingCommit n) pid,
    n_durableCommitIndex := max (n_durableCommitIndex n) (pc_commitIndex p)\<rparr>"
  have p: "pc_commitIndex p \<le> n_commitIndex n" "\<forall>a\<in>set (pc_after p). message_ok a"
    using wf Some by (auto simp: wf_node_def pending_ok_def)
  have "log_ok ?m = log_ok n" "entryAt ?m = entryAt n" by (simp_all add: log_ok_def entryAt_def fun_eq_iff)
  moreover have "positions_ok ?m" using wf p(1) by (auto simp: wf_node_def positions_ok_def le_max_iff_disj)
  moreover have "pending_ok ?m" using wf by (auto simp: wf_node_def pending_ok_def)
  ultimately have s: "step_ok n ?m []" using wf by (simp add: step_ok_def wf_node_def grows_def)
  have "achieves (applyThrough ?m (pc_commitIndex p)) (step_ok n)"
    by (rule achieves_mono [OF applyThrough_achieves [OF step_ok_wf [OF s]]]) (auto intro: step_ok_trans0 [OF s])
  then have "achieves (do { (n, as) \<leftarrow> applyThrough ?m (pc_commitIndex p); Some (n, as @ pc_after p) }) (step_ok n)"
    by (rule achieves_bind) (use p(2) in \<open>auto simp: step_ok_def intro!: achievesI\<close>)
  then show ?thesis
    using Some by (cases "n_durableCommitIndex n < pc_commitIndex p") 
       (auto simp: commitIndexPersisted_def Let_def max_absorb1 max_absorb2 leD)
qed

lemma recordAppendResponse_step_ok:
  assumes wf: "wf_node n"
  shows "\<exists>m. recordAppendResponse n r = Some m \<and> step_ok n m []"
proof -
  define m where "m = n\<lparr>n_appendInFlight := map_delete (n_appendInFlight n) (ar_From r),
                n_activePeers := insert (ar_From r) (n_activePeers n)\<rparr>"
  have lv: "lview m = lview n" "pending_ok m" using wf by (auto simp: m_def wf_node_def pending_ok_def)
  have "log_ok m" using lview_log(1) [OF lv(1)] wf by (simp add: wf_node_def)
  from nextIndexFromConflict_range [OF this] obtain x where x: "nextIndexFromConflict m r = Some x" by blast
  then obtain m' where m': "recordAppendResponse n r = Some m'"
    by (cases "ar_Success r") (simp_all add: recordAppendResponse_def m_def [symmetric] Let_def)
  then have "lview m' = lview n \<and> n_pendingCommit m' = n_pendingCommit n \<and>
      n_pendingHardState m' = n_pendingHardState n \<and> n_pendingReads m' = n_pendingReads n \<and>
      n_commitIndex m' = n_commitIndex n"
    by (cases "ar_Success r") (auto simp: recordAppendResponse_def Let_def Option.bind_eq_Some_conv)
  then have "step_ok n m' []" using wf by (intro lview_step_ok) (simp_all add: wf_node_def pending_ok_def)
  with m' show ?thesis by blast
qed

lemma replicateAfterResponse_achieves:
  assumes wf: "wf_node n"
  shows "achieves (replicateAfterResponse n r p adv) (step_ok n)"
proof (cases adv)
  case True
  have "achieves (do { (n, as) \<leftarrow> sendAppendEntries n 0; Some (persistCommit n as) }) (step_ok n)"
  proof (rule achieves_bind [OF sendAppendEntries_achieves [OF wf]])
    fix m as assume "step_ok n m as"
    then have m: "step_ok n m []" "\<forall>a\<in>set as. message_ok a" by (simp_all add: step_ok_def)
    have "achieves (Some (persistCommit m as)) (step_ok n)"
      by (rule pair_achieves) (use step_ok_trans0 [OF m(1) persistCommit_step_ok [OF step_ok_wf [OF m(1)] _ m(2)]] in blast)
    then show "achieves (case (m, as) of (n, as) \<Rightarrow> Some (persistCommit n as)) (step_ok n)" by simp
  qed
  with True show ?thesis by (simp add: replicateAfterResponse_def)
next
  case False
  have "achieves (Some (n, [])) (step_ok n)" using wf by (auto intro!: achievesI step_ok_refl)
  with False sendAppendEntriesTo_achieves [OF wf] show ?thesis by (simp add: replicateAfterResponse_def Let_def)
qed

lemma handleAppendEntriesResponse_achieves:
  assumes wf: "wf_node n"
  shows "achieves (handleAppendEntriesResponse n r) (step_ok n)"
proof -
  obtain m where m: "recordAppendResponse n r = Some m" "step_ok n m []"
    using recordAppendResponse_step_ok [OF wf] by blast
  obtain m2 b where m2: "advanceLeaderCommit m = Some (m2, b)" "step_ok m m2 []"
    using advanceLeaderCommit_spec [OF step_ok_wf [OF m(2)]] by blast
  have s: "step_ok n m2 []" by (rule step_ok_trans0 [OF m(2) m2(2)])
  have "achieves (do { (n, actions) \<leftarrow> replicateAfterResponse m2 r p b;
      (n, as) \<leftarrow> acknowledgeRead n r; Some (n, actions @ as) }) (step_ok n)" for p
  proof (rule achieves_bind [OF replicateAfterResponse_achieves [OF step_ok_wf [OF s]]])
    fix n3 as assume n3: "step_ok m2 n3 as"
    have "achieves (do { (n, as') \<leftarrow> acknowledgeRead n3 r; Some (n, as @ as') }) (step_ok n)"
    proof (rule achieves_bind [OF acknowledgeRead_total [OF step_ok_wf [OF n3]]])
      fix n4 as' assume "step_ok n3 n4 as'"
      from step_ok_trans0 [OF s step_ok_trans [OF n3 this]]
      show "achieves (case (n4, as') of (n, as') \<Rightarrow> Some (n, as @ as')) (step_ok n)" by auto
    qed
    then show "achieves (case (n3, as) of (n, actions) \<Rightarrow>
      do { (n, as) \<leftarrow> acknowledgeRead n r; Some (n, actions @ as) }) (step_ok n)" by simp
  qed
  moreover have "achieves (Some (n, [])) (step_ok n)" using wf by (auto intro!: achievesI step_ok_refl)
  ultimately show ?thesis
    using m(1) m2(1) stepDown_achieves [OF wf]
    by (simp add: handleAppendEntriesResponse_def Let_def)
qed

lemma compactLog_achieves:
  assumes wf: "wf_node n"
  shows "achieves (map_option (\<lambda>n. (n, [])) (compactLog n i t)) (step_ok n)"
proof -
  have ok: "log_ok n" "n_lastApplied n \<le> n_lastLogIndex n" "n_lastApplied n \<le> n_commitIndex n"
    using wf by (auto simp: wf_node_def positions_ok_def)
  show ?thesis
  proof (cases rule: compactLog_cases [OF ok(1,2), of i t])
    case 1
    then show ?thesis using wf by (auto intro!: achievesI step_ok_refl)
  next
    case 2
    define m where "m = n\<lparr>n_log := drop (unat i - unat (n_logBaseIndex n)) (n_log n),
                n_logBaseIndex := i, n_logBaseTerm := t\<rparr>"
    have m: "n_commitIndex m = n_commitIndex n" "n_durableCommitIndex m = n_durableCommitIndex n"
      "n_logBaseIndex m = i" "pending_ok m" "positions_ok m"
      using wf 2(2,3) by (auto simp: m_def wf_node_def pending_ok_def positions_ok_def)
    have "i \<le> n_lastLogIndex n" using 2(3) ok(2) by simp
    then have "entryAt m k = entryAt n k" if "unat i < k" for k
      using that 2(2) log_ok_last [OF ok(1)]
      by (auto simp: m_def entryAt_def word_le_nat_alt word_less_nat_alt)
    then have "step_ok n m []"
      using 2(2,5) m by (simp add: step_ok_def wf_node_def grows_def m_def [symmetric])
    then show ?thesis using 2(1) by (auto simp: m_def [symmetric])
  qed
qed

text \<open>The conditions on events: a replication request numbers its entries without a gap, an installed
  snapshot agrees with committed entries, and a Leader still has an index to assign.\<close>

fun event_wf :: "Node \<Rightarrow> Event \<Rightarrow> bool" where
  "event_wf n (EvAppendEntries r) = request_ok r"
| "event_wf n (EvInstallSnapshot r) = (is_Installed r \<and> n_logBaseIndex n < is_SnapshotIndex r \<longrightarrow> snapshot_ok n r)"
| "event_wf n (EvProposeSession _) = room n"
| "event_wf n (EvProposeSet _) = room n"
| "event_wf n (EvProposeDelete _) = room n"
| "event_wf n (EvVoteResponse _) = room n"
| "event_wf n _ = True"

lemma Step_achieves:
  assumes wf: "wf_node n" and e: "event_wf n e"
  shows "achieves (Step n e) (step_ok n)"
proof (cases e)
  case RecoverCommitted
  then show ?thesis using applyThrough_achieves [OF wf order_refl] by simp
qed (use e in \<open>simp_all add: startPreVote_achieves [OF wf] heartbeatRound_achieves [OF wf]
  checkQuorum_achieves [OF wf] hardStatePersisted_achieves [OF wf] logEntriesPersisted_achieves [OF wf]
  commitIndexPersisted_achieves [OF wf] compactLog_achieves [OF wf] propose_achieves [OF wf]
  confirmRead_achieves [OF wf] handlePreVoteRequest_achieves [OF wf] handlePreVoteResponse_achieves [OF wf]
  handleVoteRequest_achieves [OF wf] handleVoteResponse_achieves [OF wf] handleAppendEntries_achieves [OF wf]
  handleAppendEntriesResponse_achieves [OF wf] handleAppendEntriesFailed_achieves [OF wf]
  handleInstallSnapshot_achieves [OF wf] handleInstallSnapshotResponse_achieves [OF wf]\<close>)

end
