(* ===== verification/Raft_Properties.thy ===== *)
theory Raft_Properties
  imports Raft_Invariants
begin

text \<open>
  The properties of one Node: totality of \<^verbatim>\<open>Step\<close>, stability of the committed prefix, the commit rule
  of a Leader, what a follower's log holds after a replication request, batches, conflict hints, and
  ordered application.
\<close>

subsection \<open>Recovery\<close>

text \<open>What the write-ahead log hands to \<^verbatim>\<open>NewNodeFromRecoveredState\<close>: the entries above the snapshot,
  or, for a log that was never compacted, all entries from 1.\<close>

definition recovered_ok :: "RecoveredState \<Rightarrow> bool" where
  "recovered_ok r \<longleftrightarrow>
     (let S = rs_SnapshotIndex r; log = rs_Log r; c = rs_CommitIndex r in
      S \<le> c \<and>
      ((consecutive (S + 1) log \<and> unat S + length log < 2 ^ 64 - 1 \<and> unat c \<le> unat S + length log) \<or>
       (consecutive 1 log \<and> length log < 2 ^ 64 - 1 \<and> 0 < S \<and> unat S \<le> length log \<and> unat c \<le> length log)))"

lemma fresh_pending_ok:
  "n_pendingCommit n = Map.empty \<Longrightarrow> n_pendingHardState n = Map.empty \<Longrightarrow> n_pendingReads n = [] \<Longrightarrow> pending_ok n"
  by (simp add: pending_ok_def)

lemma consecutive_last:
  assumes "consecutive (S + 1) es" "es \<noteq> []"
  shows "e_Index (last es) = S + of_nat (length es)"
proof -
  obtain k where k: "length es = Suc k" using assms(2) by (cases es) auto
  then show ?thesis
    using consecutive_nth [OF assms(1), of k] assms(2) by (simp add: last_conv_nth)
qed

text \<open>The Node built from a snapshot position and the entries above it.\<close>

lemma recovered_above_wf:
  assumes S: "S \<le> c" and log: "consecutive (S + 1) es" "unat S + length es < 2 ^ 64 - 1"
    and c: "unat c \<le> unat S + length es"
    and n: "n_logBaseIndex n = S" "n_logBaseTerm n = t" "n_log n = es"
      "n_lastLogIndex n = (if es = [] then S else e_Index (last es))"
      "n_lastLogTerm n = (if es = [] then t else e_Term (last es))"
      "n_commitIndex n = c" "n_durableCommitIndex n = c" "n_lastApplied n = S"
    and p: "pending_ok n"
  shows "wf_node n"
proof -
  have last: "n_lastLogIndex n = S + of_nat (length es)"
    using n(4) consecutive_last [OF log(1)] by simp
  then have "unat (n_lastLogIndex n) = unat S + length es"
    using unat_add_of_nat [of S "length es"] log(2) by simp
  then have "positions_ok n" using n S c by (simp add: positions_ok_def word_le_nat_alt)
  moreover have "log_ok n" using n last log by (simp add: log_ok_def)
  ultimately show ?thesis using p by (simp add: wf_node_def)
qed

lemma recovered_wf:
  assumes r: "recovered_ok r"
  shows "\<exists>n. NewNodeFromRecoveredState nid peers r = Some n \<and> wf_node n"
proof -
  let ?S = "rs_SnapshotIndex r" and ?log = "rs_Log r"
  show ?thesis
  proof (cases "consecutive (?S + 1) ?log \<and> unat ?S + length ?log < 2 ^ 64 - 1 \<and>
      unat (rs_CommitIndex r) \<le> unat ?S + length ?log")
    case True
    have "\<not> (?S > 0 \<and> e_Index (hd ?log) = 1)" if "?log \<noteq> []"
      using True that by (cases ?log) (auto simp: consecutive_Cons)
    with True r show ?thesis
      by (cases ?log)
         (auto simp: NewNodeFromRecoveredState_def Let_def recovered_ok_def
           intro!: recovered_above_wf [where S = ?S and c = "rs_CommitIndex r"] fresh_pending_ok)
  next
    case False
    with r have f: "consecutive 1 ?log" "length ?log < 2 ^ 64 - 1" "0 < ?S" "unat ?S \<le> length ?log"
      "unat (rs_CommitIndex r) \<le> length ?log" "?S \<le> rs_CommitIndex r"
      by (auto simp: recovered_ok_def Let_def)
    have ne: "?log \<noteq> []" using f(3,4) by (auto simp: word_less_nat_alt)
    then obtain e es where log: "?log = e # es" "e_Index e = 1"
      using f(1) by (cases ?log) (auto simp: consecutive_Cons)
    have S: "?S \<le> of_nat (length ?log)"
      using f(2,4) unat_of_nat_u64 [of "length ?log"] by (simp add: word_le_nat_alt)
    have "unat (?S - 1) < length ?log" using f(3,4) by (simp add: unat_minus_one_pos word_less_nat_alt)
    then obtain x where x: "go_index ?log (?S - 1) = Some x" by (simp add: go_index_def)
    have fr: "go_from ?log ?S = Some (drop (unat ?S) ?log)" using f(4) by (simp add: go_from_def)
    have "consecutive (?S + 1) (drop (unat ?S) ?log)"
      using consecutive_drop [OF f(1,4)] by (simp add: add.commute)
    then have above: "unat ?S + length (drop (unat ?S) ?log) < 2 ^ 64 - 1"
      "unat (rs_CommitIndex r) \<le> unat ?S + length (drop (unat ?S) ?log)" "consecutive (?S + 1) (drop (unat ?S) ?log)"
      using f by simp_all
    show ?thesis
      using f(3) log S x fr above f(6)
      by (cases "drop (unat ?S) ?log = []"; cases "rs_SnapshotTerm r = 0")
         (auto simp: NewNodeFromRecoveredState_def Let_def
           intro!: recovered_above_wf [where S = ?S and c = "rs_CommitIndex r"] fresh_pending_ok)
  qed
qed

subsection \<open>The step function\<close>

lemma Step_ok:
  assumes "wf_node n" "event_wf n e" "Step n e = Some (n', as)"
  shows "step_ok n n' as"
  using achievesD [OF Step_achieves [OF assms(1,2)] assms(3)] .

text \<open>A Node with one committed entry and one uncommitted entry, and the request of a newer Leader
  that replaces the uncommitted one.\<close>

definition sample_entry :: "u64 \<Rightarrow> u64 \<Rightarrow> LogEntry" where
  "sample_entry i t = \<lparr>e_Index = i, e_Term = t, e_Type = EntrySet, e_SessionID = replicate 16 1,
     e_Sequence = i, e_Key = ''key'', e_Value = [1, 2, 3]\<rparr>"

definition sample_state :: RecoveredState where
  "sample_state = \<lparr>rs_HardState = \<lparr>hs_Term = 2, hs_VotedFor = ''b''\<rparr>,
     rs_Log = [sample_entry 1 1, sample_entry 2 1], rs_CommitIndex = 1, rs_SnapshotIndex = 0,
     rs_SnapshotTerm = 0\<rparr>"

definition sample_node :: Node where
  "sample_node = the (NewNodeFromRecoveredState ''a'' [''b'', ''c''] sample_state)"

definition sample_request :: AppendEntries where
  "sample_request = \<lparr>ae_From = ''b'', ae_Term = 2, ae_RequestID = 7, ae_PrevLogIndex = 1,
     ae_PrevLogTerm = 1, ae_Entries = [sample_entry 2 2, sample_entry 3 2], ae_LeaderCommit = 1, ae_ReadID = 0\<rparr>"

lemma sample_wf: "wf_node sample_node"
proof -
  have "recovered_ok sample_state"
    by (simp add: recovered_ok_def sample_state_def sample_entry_def consecutive_Cons)
  from recovered_wf [OF this, of "''a''" "[''b'', ''c'']"] show ?thesis
    unfolding sample_node_def by auto
qed

lemma sample_request_ok: "request_ok sample_request"
  by (simp add: request_ok_def sample_request_def sample_entry_def consecutive_Cons)

text \<open>C5. The consensus core never panics: on a well-formed Node every event the runtime may deliver
  is handled, and the Node is well-formed again. In particular no index or slice expression on the
  log is out of range, for any Term, any conflicting log and any interleaving of writes.\<close>

theorem Step_never_panics:
  assumes "wf_node n" and "event_wf n e"
  shows "\<exists>n' as. Step n e = Some (n', as) \<and> wf_node n'"
  using Step_achieves [OF assms] by (auto simp: achieves_def step_ok_def)

theorem Step_never_panics_witness:
  "\<exists>n' as. Step sample_node (EvAppendEntries sample_request) = Some (n', as) \<and> wf_node n'"
  by (rule Step_never_panics) (simp_all add: sample_wf sample_request_ok)

text \<open>C6. Committed entries are permanent: a step never lowers the commit index or the durable commit
  index, and every entry at or below the commit index that the Node still retains is unchanged.\<close>

theorem committed_prefix_stable:
  assumes "wf_node n" and "event_wf n e" and "Step n e = Some (n', as)"
  shows "n_commitIndex n \<le> n_commitIndex n' \<and> n_durableCommitIndex n \<le> n_durableCommitIndex n' \<and>
    (\<forall>k. unat (n_logBaseIndex n') < k \<longrightarrow> k \<le> unat (n_commitIndex n) \<longrightarrow> entryAt n' k = entryAt n k)"
  using Step_ok [OF assms] by (simp add: step_ok_def grows_def)

theorem committed_prefix_stable_witness:
  "\<exists>n' as. Step sample_node (EvAppendEntries sample_request) = Some (n', as) \<and>
     entryAt n' 1 = entryAt sample_node 1"
proof -
  have e: "event_wf sample_node (EvAppendEntries sample_request)" by (simp add: sample_request_ok)
  obtain n' as where s: "Step sample_node (EvAppendEntries sample_request) = Some (n', as)"
    using Step_achieves [OF sample_wf e] by (auto simp: achieves_def)
  moreover have "unat (n_logBaseIndex n') < 1 \<and> 1 \<le> unat (n_commitIndex sample_node)"
  proof -
    have "case Step sample_node (EvAppendEntries sample_request) of
      Some (n', as) \<Rightarrow> unat (n_logBaseIndex n') < 1 | None \<Rightarrow> False" by code_simp
    moreover have "1 \<le> unat (n_commitIndex sample_node)" by code_simp
    ultimately show ?thesis using s by simp
  qed
  ultimately show ?thesis using committed_prefix_stable [OF sample_wf e s] by blast
qed

text \<open>C11. What a Leader sends, a follower can take: every replication request a well-formed Node emits
  numbers its entries from \<^verbatim>\<open>PrevLogIndex+1\<close> without a gap and without wrapping around, which is the
  condition under which the receiving \<^verbatim>\<open>Step\<close> is total.\<close>

theorem requests_wellformed:
  assumes "wf_node n" and "event_wf n e" and "Step n e = Some (n', as)"
    and "SendAppendEntries to r \<in> set as"
  shows "event_wf m (EvAppendEntries r)"
  using Step_ok [OF assms(1-3)] assms(4) by (force simp: step_ok_def)

text \<open>A Leader whose heartbeat sends its log to a follower.\<close>

definition sample_leader :: Node where
  "sample_leader = sample_node\<lparr>n_role := Leader, n_leaderID := ''a'', n_nextIndex := [''b'' \<mapsto> 1, ''c'' \<mapsto> 3]\<rparr>"

lemma sample_leader_wf: "wf_node sample_leader"
proof -
  have "step_ok sample_node sample_leader []"
    by (rule lview_step_ok [OF sample_wf])
       (use sample_wf in \<open>auto simp: sample_leader_def wf_node_def pending_ok_def\<close>)
  then show ?thesis by (rule step_ok_wf)
qed

definition sample_heartbeat :: AppendEntries where
  "sample_heartbeat = \<lparr>ae_From = ''a'', ae_Term = 2, ae_RequestID = 1, ae_PrevLogIndex = 0, ae_PrevLogTerm = 0,
     ae_Entries = [sample_entry 1 1, sample_entry 2 1], ae_LeaderCommit = 1, ae_ReadID = 0\<rparr>"

lemma sample_heartbeat_sent:
  "case Step sample_leader HeartbeatTimeout of
     None \<Rightarrow> False | Some (n', as) \<Rightarrow> SendAppendEntries ''b'' sample_heartbeat \<in> set as"
  by code_simp

theorem requests_wellformed_witness: "event_wf sample_node (EvAppendEntries sample_heartbeat)"
proof (cases "Step sample_leader HeartbeatTimeout")
  case None
  with sample_heartbeat_sent show ?thesis by simp
next
  case (Some p)
  obtain n' as where p: "p = (n', as)" by (cases p)
  from sample_heartbeat_sent Some p have "SendAppendEntries ''b'' sample_heartbeat \<in> set as" by simp
  from requests_wellformed [OF sample_leader_wf _ Some [unfolded p] this] show ?thesis by simp
qed

subsection \<open>The commit rule of a Leader\<close>

text \<open>An index a Leader may commit: above the commit index, holding an entry of the current Term, and
  stored on a quorum of Nodes, the Leader included.\<close>

definition committable :: "Node \<Rightarrow> u64 \<Rightarrow> bool" where
  "committable n i \<longleftrightarrow> n_commitIndex n < i \<and> i \<le> n_lastLogIndex n \<and> termAt n i = Some (n_term n) \<and>
     quorum n \<le> 1 + length (filter (\<lambda>peer. map_get (n_matchIndex n) peer \<ge> i) (n_peers n))"

lemma advanceLeaderCommit_loop_max:
  assumes "advanceLeaderCommit_loop n index = Some r" "index \<le> n_lastLogIndex n" "committable n i" "i \<le> index"
  shows "\<exists>c. r = Some c \<and> i \<le> c"
  using assms
proof (induction n index rule: advanceLeaderCommit_loop.induct)
  case (1 n index)
  have gt: "index > n_commitIndex n" using "1.prems"(3,4) by (auto simp: committable_def)
  then obtain t where t: "termAt n index = Some t"
    using "1.prems"(1) by (auto simp: advanceLeaderCommit_loop.simps [of n index] Option.bind_eq_Some_conv)
  define reps where "reps = 1 + length (filter (\<lambda>peer. map_get (n_matchIndex n) peer \<ge> index) (n_peers n))"
  have unfold: "advanceLeaderCommit_loop n index =
      (if t = n_term n \<and> reps \<ge> quorum n then Some (Some index) else advanceLeaderCommit_loop n (index - 1))"
    using gt t by (simp add: advanceLeaderCommit_loop.simps [of n index] Let_def reps_def)
  show ?case
  proof (cases "t = n_term n \<and> reps \<ge> quorum n")
    case True
    then show ?thesis using "1.prems"(1,4) unfold by auto
  next
    case False
    have "i \<noteq> index" using False "1.prems"(3) t by (auto simp: committable_def reps_def)
    then have i: "i \<le> index - 1"
      using u64_le_cases [OF "1.prems"(4) word_pos_if_less [OF gt]] by blast
    have "index - 1 \<le> n_lastLogIndex n"
      using "1.prems"(2) word_pos_if_less [OF gt] by (simp add: word_le_nat_alt unat_minus_one_pos)
    moreover have "advanceLeaderCommit_loop n (index - 1) = Some r" using False unfold "1.prems"(1) by auto
    ultimately show ?thesis using "1.IH" [OF gt t reps_def False] "1.prems"(3) i by blast
  qed
qed

text \<open>C8. The commit rule: \<^verbatim>\<open>advanceLeaderCommit\<close> moves the commit index exactly when some index is
  committable, and then to the largest one; nothing else of the Node changes.\<close>

theorem leader_commit_rule:
  assumes "wf_node n" and "advanceLeaderCommit n = Some (n', advanced)"
  shows "n' = n\<lparr>n_commitIndex := n_commitIndex n'\<rparr> \<and> (advanced \<longleftrightarrow> (\<exists>i. committable n i)) \<and>
    (if advanced then committable n (n_commitIndex n') \<and> (\<forall>i. committable n i \<longrightarrow> i \<le> n_commitIndex n')
     else n' = n)"
proof -
  have ok: "log_ok n" using assms(1) by (simp add: wf_node_def)
  obtain r where r: "advanceLeaderCommit_loop n (n_lastLogIndex n) = Some r"
    using advanceLeaderCommit_loop_spec [OF ok order_refl] by blast
  have max: "committable n i \<Longrightarrow> \<exists>c. r = Some c \<and> i \<le> c" for i
    using advanceLeaderCommit_loop_max [OF r order_refl] by (auto simp: committable_def)
  show ?thesis
  proof (cases r)
    case None
    with max r assms(2) show ?thesis by (auto simp: advanceLeaderCommit_def)
  next
    case (Some c)
    have "committable n c"
      using advanceLeaderCommit_loop_spec [OF ok order_refl] r Some by (auto simp: committable_def)
    moreover have "n' = n\<lparr>n_commitIndex := c\<rparr>" "advanced"
      using r Some assms(2) by (auto simp: advanceLeaderCommit_def)
    ultimately show ?thesis using max Some by auto
  qed
qed

definition sample_ready :: Node where
  "sample_ready = sample_leader\<lparr>n_term := 1, n_matchIndex := [''b'' \<mapsto> 2]\<rparr>"

lemma sample_ready_wf: "wf_node sample_ready"
proof -
  have "step_ok sample_leader sample_ready []"
    by (rule lview_step_ok [OF sample_leader_wf])
       (use sample_leader_wf in \<open>auto simp: sample_ready_def wf_node_def pending_ok_def\<close>)
  then show ?thesis by (rule step_ok_wf)
qed

theorem leader_commit_rule_witness:
  "\<exists>n'. advanceLeaderCommit sample_ready = Some (n', True) \<and> committable sample_ready (n_commitIndex n')"
proof -
  have "case advanceLeaderCommit sample_ready of Some (n', b) \<Rightarrow> b | None \<Rightarrow> False" by code_simp
  then obtain n' where "advanceLeaderCommit sample_ready = Some (n', True)"
    by (auto split: option.splits)
  with leader_commit_rule [OF sample_ready_wf this] show ?thesis by auto
qed

subsection \<open>Conflict hints\<close>

text \<open>The hint a follower gives for a conflict inside its log names the Term of the conflicting
  entry and the first index of the run of that Term that ends there.\<close>

theorem conflictHint_first_of_term:
  assumes "wf_node n" and "n_logBaseIndex n < index" and "index \<le> n_lastLogIndex n"
  shows "\<exists>t first. conflictHint n index = Some (t, first) \<and> termAt n index = Some t \<and>
    n_logBaseIndex n < first \<and> first \<le> index \<and> (\<forall>k. first \<le> k \<and> k \<le> index \<longrightarrow> termAt n k = Some t) \<and>
    (first = n_logBaseIndex n + 1 \<or> termAt n (first - 1) \<noteq> Some t)"
proof -
  have ok: "log_ok n" using assms(1) by (simp add: wf_node_def)
  obtain t first where h: "conflictHint n index = Some (t, first)" using conflictHint_ex [OF ok] by blast
  have "index \<noteq> 0" "\<not> index > n_lastLogIndex n" using assms(2,3) by auto
  with h have "termAt n index = Some t" "conflictHint_loop n t index = Some first"
    by (auto simp: conflictHint_def Option.bind_eq_Some_conv)
  with conflictHint_loop_spec [OF ok assms(2,3)] h show ?thesis by blast
qed

theorem conflictHint_first_of_term_witness:
  "\<exists>t first. conflictHint sample_node 2 = Some (t, first) \<and> first \<le> 2 \<and> termAt sample_node 2 = Some t"
proof -
  have "n_logBaseIndex sample_node < 2" "2 \<le> n_lastLogIndex sample_node" by code_simp+
  from conflictHint_first_of_term [OF sample_wf this] show ?thesis by blast
qed

text \<open>C13. Where a Leader resumes after a rejection: at an index between 1 and one past its log, and
  when its own log has the follower's conflicting Term, one past its last entry of that Term.\<close>

theorem nextIndexFromConflict_resumes:
  assumes "wf_node n" and "nextIndexFromConflict n r = Some next"
  shows "0 < next \<and> next \<le> n_lastLogIndex n + 1 \<and>
    (\<forall>i. ar_ConflictTerm r \<noteq> 0 \<and> 0 < i \<and> i \<le> n_lastLogIndex n \<and> termAt n i = Some (ar_ConflictTerm r) \<longrightarrow>
       i < next \<and> termAt n (next - 1) = Some (ar_ConflictTerm r))"
proof -
  have ok: "log_ok n" using assms(1) by (simp add: wf_node_def)
  have range: "0 < next \<and> next \<le> n_lastLogIndex n + 1"
    using nextIndexFromConflict_range [OF ok, of r] assms(2) by auto
  moreover have "i < next \<and> termAt n (next - 1) = Some (ar_ConflictTerm r)"
    if i: "ar_ConflictTerm r \<noteq> 0" "0 < i" "i \<le> n_lastLogIndex n" "termAt n i = Some (ar_ConflictTerm r)" for i
  proof -
    obtain f where f: "nextIndexFromConflict_loop n (ar_ConflictTerm r) (n_lastLogIndex n) = Some f"
      "case f of None \<Rightarrow> \<forall>k. 0 < k \<and> k \<le> n_lastLogIndex n \<longrightarrow> termAt n k \<noteq> Some (ar_ConflictTerm r)
       | Some m \<Rightarrow> 0 < m - 1 \<and> m - 1 \<le> n_lastLogIndex n \<and> termAt n (m - 1) = Some (ar_ConflictTerm r) \<and>
           (\<forall>k. m - 1 < k \<and> k \<le> n_lastLogIndex n \<longrightarrow> termAt n k \<noteq> Some (ar_ConflictTerm r))"
      using nextIndexFromConflict_loop_spec [OF ok order_refl] by blast
    with i obtain m where m: "f = Some m" "0 < m - 1" "m - 1 \<le> n_lastLogIndex n"
      "termAt n (m - 1) = Some (ar_ConflictTerm r)" "i \<le> m - 1"
      by (cases f) (auto simp: not_less [symmetric])
    have "m - 1 \<noteq> - 1" using m(3) log_ok_last_not_max [OF ok] by (metis word_order.extremum_uniqueI)
    then have um: "unat m = Suc (unat (m - 1))" using unat_plus_one_max [of "m - 1"] by simp
    have "m \<le> n_lastLogIndex n + 1"
      using um m(3) unat_plus_one_max [OF log_ok_last_not_max [OF ok]] by (simp add: word_le_nat_alt)
    then have "next = m" using assms(2) f(1) m(1,2) i(1) um
      by (auto simp: nextIndexFromConflict_def)
    with m um show ?thesis by (auto simp: word_less_nat_alt word_le_nat_alt)
  qed
  ultimately show ?thesis by blast
qed

definition sample_rejection :: AppendEntriesResponse where
  "sample_rejection = \<lparr>ar_From = ''b'', ar_Term = 2, ar_RequestID = 1, ar_Success = False, ar_MatchIndex = 0,
     ar_ConflictTerm = 1, ar_ConflictIndex = 1, ar_ReadID = 0\<rparr>"

theorem nextIndexFromConflict_resumes_witness:
  "\<exists>next. nextIndexFromConflict sample_node sample_rejection = Some next \<and> 2 < next \<and>
     termAt sample_node (next - 1) = Some 1"
proof -
  have ok: "log_ok sample_node" using sample_wf by (simp add: wf_node_def)
  obtain x where x: "nextIndexFromConflict sample_node sample_rejection = Some x"
    using nextIndexFromConflict_range [OF ok] by blast
  have "2 \<le> n_lastLogIndex sample_node" "termAt sample_node 2 = Some 1" by code_simp+
  then show ?thesis
    using nextIndexFromConflict_resumes [OF sample_wf x, THEN conjunct2, THEN conjunct2, rule_format, of 2] x
    by (auto simp: sample_rejection_def)
qed

subsection \<open>Replication to a follower\<close>

lemma entryAt_append:
  assumes ok: "log_ok n" and es: "es \<noteq> []" "consecutive (n_lastLogIndex n + 1) es"
    and room: "unat (n_lastLogIndex n) + length es < 2 ^ 64 - 1" and m: "appendEntries n es = Some m"
  shows "entryAt m k = (if k \<le> unat (n_lastLogIndex n) then entryAt n k
    else if k \<le> unat (n_lastLogIndex n) + length es then Some (es ! (k - unat (n_lastLogIndex n) - 1)) else None)"
    and "unat (n_lastLogIndex m) = unat (n_lastLogIndex n) + length es"
    and "n_logBaseIndex m = n_logBaseIndex n" "n_logBaseTerm m = n_logBaseTerm n"
proof -
  have m': "m = n\<lparr>n_log := n_log n @ es, n_lastLogIndex := n_lastLogIndex n + of_nat (length es),
              n_lastLogTerm := e_Term (last es)\<rparr>"
    using appendEntries_ok(1) [OF ok es room] m by simp
  show "unat (n_lastLogIndex m) = unat (n_lastLogIndex n) + length es"
    using unat_add_of_nat [of "n_lastLogIndex n" "length es"] room m' by simp
  show "entryAt m k = (if k \<le> unat (n_lastLogIndex n) then entryAt n k
    else if k \<le> unat (n_lastLogIndex n) + length es then Some (es ! (k - unat (n_lastLogIndex n) - 1)) else None)"
    using log_ok_last [OF ok] by (auto simp: m' entryAt_def nth_append)
qed (use appendEntries_ok(1) [OF ok es room] m in auto)

text \<open>The follower's log once the new entries of a request are in it, with \<open>k\<close> entries known before.\<close>

lemma followerAppend_log:
  assumes wf: "wf_node n" and r: "request_ok r" and es: "es \<noteq> []"
    and k: "appendable n (ae_PrevLogIndex r + 1) (ae_Entries r) k es tf"
    and n1: "(if tf \<noteq> 0 then truncateLog n tf else Some n) = Some n1" and n2: "appendEntries n1 es = Some n2"
  shows "log_ok n2 \<and> n_logBaseIndex n2 = n_logBaseIndex n \<and> n_logBaseTerm n2 = n_logBaseTerm n \<and>
    n_logBaseIndex n \<le> ae_PrevLogIndex r + of_nat k \<and>
    unat (n_lastLogIndex n2) = unat (ae_PrevLogIndex r) + length (ae_Entries r) \<and>
    (\<forall>j. entryAt n2 j = (if j \<le> unat (ae_PrevLogIndex r) + k then entryAt n j
       else if j \<le> unat (ae_PrevLogIndex r) + length (ae_Entries r)
       then Some (ae_Entries r ! (j - unat (ae_PrevLogIndex r) - 1)) else None))"
proof -
  let ?p = "ae_PrevLogIndex r"
  have ok: "log_ok n" using wf by (simp add: wf_node_def)
  have es': "es = drop k (ae_Entries r)" "k < length (ae_Entries r)"
    and hd: "e_Index (hd es) = ?p + 1 + of_nat k"
    using k es by (auto simp: appendable_def not_le [symmetric])
  have bound: "unat ?p + length (ae_Entries r) < 2 ^ 64 - 1" using r by (simp add: request_ok_def)
  have pk: "unat (?p + of_nat k) = unat ?p + k" "unat (?p + of_nat (1 + k)) = unat ?p + (1 + k)"
    by (rule unat_add_of_nat; use bound es'(2) in simp)+
  have first: "e_Index (hd es) = ?p + of_nat k + 1" "unat (e_Index (hd es)) = unat ?p + k + 1"
    using hd pk(2) by (simp_all add: add.assoc add.commute add.left_commute)
  have last1: "n_lastLogIndex n1 = ?p + of_nat k \<and> log_ok n1 \<and> n_logBaseIndex n1 = n_logBaseIndex n \<and>
      n_logBaseTerm n1 = n_logBaseTerm n \<and> (\<forall>j \<le> unat ?p + k. entryAt n1 j = entryAt n j)"
  proof (cases "tf = 0")
    case True
    with k es first(1) n1 ok show ?thesis by (auto simp: appendable_def)
  next
    case False
    with k have tf: "n_commitIndex n < tf" "tf \<le> n_lastLogIndex n" "tf = e_Index (hd es)"
      by (auto simp: appendable_def)
    have "n_logBaseIndex n \<le> n_commitIndex n" using wf by (auto simp: wf_node_def positions_ok_def)
    then have f: "n_logBaseIndex n < tf" using tf(1) by simp
    from False n1 have t: "truncateLog n tf = Some n1" by simp
    with truncateLog_ok [OF ok f tf(2)] entryAt_truncate [OF ok f tf(2) t] first tf(3) show ?thesis
      by auto
  qed
  have cons: "consecutive (n_lastLogIndex n1 + 1) es"
    using r es'(1) es'(2) consecutive_drop [of "?p + 1" "ae_Entries r" k] last1
    by (simp add: request_ok_def add.assoc add.commute add.left_commute)
  have room: "unat (n_lastLogIndex n1) + length es < 2 ^ 64 - 1" using last1 pk(1) es' bound by simp
  have ok2: "log_ok n2" using appendEntries_ok [OF _ es cons room] last1 n2 by simp
  note app = entryAt_append [OF _ es cons room n2]
  have "entryAt n2 j = (if j \<le> unat ?p + k then entryAt n j
       else if j \<le> unat ?p + length (ae_Entries r) then Some (ae_Entries r ! (j - unat ?p - 1)) else None)" for j
  proof -
    have "es ! (j - (unat ?p + k) - 1) = ae_Entries r ! (j - unat ?p - 1)" if "unat ?p + k < j"
      using that es' by (simp add: add.commute)
    then show ?thesis using app(1) [of j] last1 pk(1) es' by simp
  qed
  moreover have "n_logBaseIndex n \<le> ?p + of_nat k" using log_ok_base_le [of n1] last1 by simp
  ultimately show ?thesis using app(2-4) last1 pk(1) es' ok2 by simp
qed

lemma request_index:
  assumes "request_ok r" "i < length (ae_Entries r)"
  shows "unat (e_Index (ae_Entries r ! i)) = unat (ae_PrevLogIndex r) + i + 1"
proof -
  have "e_Index (ae_Entries r ! i) = ae_PrevLogIndex r + 1 + of_nat i"
    using assms consecutive_nth by (simp add: request_ok_def)
  moreover have "unat (ae_PrevLogIndex r + of_nat (1 + i)) = unat (ae_PrevLogIndex r) + (1 + i)"
    by (rule unat_add_of_nat) (use assms in \<open>simp add: request_ok_def\<close>)
  ultimately show ?thesis by (simp add: add.assoc)
qed

lemma followerAppend_terms:
  assumes wf: "wf_node n" and r: "request_ok r" and es: "es \<noteq> []"
    and k: "appendable n (ae_PrevLogIndex r + 1) (ae_Entries r) k es tf"
    and n1: "(if tf \<noteq> 0 then truncateLog n tf else Some n) = Some n1" and n2: "appendEntries n1 es = Some n2"
    and i: "i < length (ae_Entries r)"
  shows "termAt n2 (e_Index (ae_Entries r ! i)) = Some (e_Term (ae_Entries r ! i))"
proof -
  let ?p = "ae_PrevLogIndex r" and ?e = "ae_Entries r ! i"
  note l = followerAppend_log [OF wf r es k n1 n2]
  have ok: "log_ok n" using wf by (simp add: wf_node_def)
  have idx: "unat (e_Index ?e) = unat ?p + i + 1" by (rule request_index [OF r i])
  have le2: "e_Index ?e \<le> n_lastLogIndex n2" using idx i l by (simp add: word_le_nat_alt)
  show ?thesis
  proof (cases "i < k")
    case True
    then have old: "e_Index ?e \<le> n_lastLogIndex n" "termAt n (e_Index ?e) = Some (e_Term ?e)"
      using k by (auto simp: appendable_def)
    show ?thesis
    proof (cases "n_logBaseIndex n < e_Index ?e")
      case above: True
      have "entryAt n2 (unat (e_Index ?e)) = entryAt n (unat (e_Index ?e))"
        using l idx True by simp
      then show ?thesis
        using termAt_log [of n2, OF _ _ le2] termAt_log [OF ok above old(1)] above old(2) l by simp
    next
      case False
      then show ?thesis using old l by (auto simp: termAt_def split: if_splits)
    qed
  next
    case False
    have "k < length (ae_Entries r)" using k es by (auto simp: appendable_def not_le [symmetric])
    have "unat (?p + of_nat k) = unat ?p + k"
      by (rule unat_add_of_nat) (use r \<open>k < _\<close> in \<open>simp add: request_ok_def\<close>)
    then have "n_logBaseIndex n2 < e_Index ?e" using False idx l by (simp add: word_less_nat_alt word_le_nat_alt)
    with termAt_log [of n2, OF _ this le2] l idx False i show ?thesis by simp
  qed
qed

text \<open>Two Nodes with the same log.\<close>

definition same_log :: "Node \<Rightarrow> Node \<Rightarrow> bool" where
  "same_log m n \<longleftrightarrow> n_logBaseIndex m = n_logBaseIndex n \<and> n_logBaseTerm m = n_logBaseTerm n \<and>
     n_log m = n_log n \<and> n_lastLogIndex m = n_lastLogIndex n"

lemma same_log_reads:
  assumes "same_log m n"
  shows "entryAt m = entryAt n" "termAt m = termAt n" "matches m = matches n"
  using assms by (auto simp: same_log_def entryAt_def termAt_def matches_def fun_eq_iff)

lemma same_log_refl [simp]: "same_log n n" by (simp add: same_log_def)

lemma same_log_lview: "lview m = lview n \<Longrightarrow> same_log m n"
  by (simp add: same_log_def lview_def)

lemma same_log_afterTermChange [simp]: "same_log (fst (afterTermChange b m as)) m"
  by (simp add: afterTermChange_def persistHardState_def Let_def same_log_def)

lemma same_log_advanceFollowerCommit:
  assumes "wf_node n" "advanceFollowerCommit n c after = Some (n', as)"
  shows "same_log n' n"
  using assms applyThrough_spec [OF assms(1) order_refl]
  by (fastforce simp: advanceFollowerCommit_def Let_def persistCommit_def same_log_def split: if_splits)

lemma lview_acceptLeader [simp]: "lview (acceptLeader n t l) = lview n"
  by (simp add: acceptLeader_def becomeFollower_def Let_def)

lemma entriesToAppend_lview:
  assumes "lview m = lview n"
  shows "entriesToAppend m = entriesToAppend n"
proof -
  have t: "termAt m = termAt n" "n_lastLogIndex m = n_lastLogIndex n" "n_commitIndex m = n_commitIndex n"
    using lview_eq [OF assms] lview_log [OF assms] by auto
  have "entriesToAppend_loop m w es = entriesToAppend_loop n w es" for w es
    by (induction es arbitrary: w) (simp_all add: t cong: if_cong)
  then show ?thesis by (simp add: entriesToAppend_def fun_eq_iff)
qed

text \<open>How a log takes the entries \<open>es\<close>, those from \<open>k\<close> on being new to it.\<close>

definition takes_entries :: "Node \<Rightarrow> LogEntry list \<Rightarrow> nat \<Rightarrow> Node \<Rightarrow> bool" where
  "takes_entries n es k n' \<longleftrightarrow>
     (\<forall>i<k. termAt n (e_Index (es ! i)) = Some (e_Term (es ! i)) \<and>
        entryAt n' (unat (e_Index (es ! i))) = entryAt n (unat (e_Index (es ! i)))) \<and>
     (\<forall>i. k \<le> i \<and> i < length es \<longrightarrow> entryAt n' (unat (e_Index (es ! i))) = Some (es ! i)) \<and>
     (\<forall>i<length es. termAt n' (e_Index (es ! i)) = Some (e_Term (es ! i)))"

lemma followerAppend_takes:
  assumes wf: "wf_node n" and r: "request_ok r" and es: "es \<noteq> []"
    and k: "appendable n (ae_PrevLogIndex r + 1) (ae_Entries r) k es tf"
    and n1: "(if tf \<noteq> 0 then truncateLog n tf else Some n) = Some n1" and n2: "appendEntries n1 es = Some n2"
  shows "takes_entries n (ae_Entries r) k n2"
  unfolding takes_entries_def
proof (intro conjI allI impI)
  note l = followerAppend_log [OF wf r es k n1 n2]
  have kl: "k \<le> length (ae_Entries r)" using k by (simp add: appendable_def)
  fix i
  show "termAt n2 (e_Index (ae_Entries r ! i)) = Some (e_Term (ae_Entries r ! i))" if "i < length (ae_Entries r)"
    using followerAppend_terms [OF wf r es k n1 n2 that] .
  show "entryAt n2 (unat (e_Index (ae_Entries r ! i))) = Some (ae_Entries r ! i)" if "k \<le> i \<and> i < length (ae_Entries r)"
    using that l request_index [OF r, of i] by simp
  assume i: "i < k"
  then show "termAt n (e_Index (ae_Entries r ! i)) = Some (e_Term (ae_Entries r ! i))"
    using k unfolding appendable_def by blast
  show "entryAt n2 (unat (e_Index (ae_Entries r ! i))) = entryAt n (unat (e_Index (ae_Entries r ! i)))"
    using i kl l request_index [OF r, of i] by simp
qed

lemma acceptedAppend_agrees:
  assumes wf: "wf_node n" and r: "request_ok r" and h: "acceptedAppend n r = Some (n', as)"
    and m: "matches n (ae_PrevLogIndex r) (ae_PrevLogTerm r) = Some True"
    and p: "entriesToAppend n (ae_PrevLogIndex r) (ae_Entries r) = Some (Some (es, tf))"
  shows "(\<exists>k\<le>length (ae_Entries r). es = drop k (ae_Entries r) \<and> takes_entries n (ae_Entries r) k n') \<and>
    (\<forall>j\<le>unat (ae_PrevLogIndex r). entryAt n' j = entryAt n j)"
proof -
  obtain k where k: "appendable n (ae_PrevLogIndex r + 1) (ae_Entries r) k es tf"
    using entriesToAppend_loop_spec [OF p [unfolded entriesToAppend_def]] by blast
  have kl: "k \<le> length (ae_Entries r)" "es = drop k (ae_Entries r)" using k by (auto simp: appendable_def)
  have known: "takes_entries n (ae_Entries r) k m" if "es = []" "entryAt m = entryAt n" "termAt m = termAt n" for m
    using k that by (auto simp: appendable_def takes_entries_def)
  from h show ?thesis
  proof (cases rule: acceptedAppendE)
    case (reject ct ci)
    have "es = []"
      using h m p reject(2)
      by (auto simp: acceptedAppend_def persistLog_def Let_def appendEntriesResponse_def
        Option.bind_eq_Some_conv split: if_splits)
    with known reject kl show ?thesis by blast
  next
    case (append es' tf' n1 n2)
    with p have e: "es' = es" "tf' = tf" by simp_all
    have "same_log n' n2" using append(6) by (auto simp: persistLog_def Let_def same_log_def)
    note same = same_log_reads [OF this]
    note app = append(3-5) [unfolded e]
    have "entryAt n' j = entryAt n j" if "j \<le> unat (ae_PrevLogIndex r)" for j
      using followerAppend_log [OF wf r app(1) k app(2,3)] that unfolding same(1) by auto
    moreover have "takes_entries n (ae_Entries r) k n'"
      using followerAppend_takes [OF wf r app(1) k app(2,3)] unfolding takes_entries_def same .
    ultimately show ?thesis using kl by blast
  next
    case (wait tf')
    with p known kl show ?thesis by auto
  next
    case (commit tf')
    note same = same_log_reads [OF same_log_advanceFollowerCommit [OF wf commit(4)]]
    from commit p known [OF _ same(1,2)] kl show ?thesis unfolding same(1) by auto
  qed
qed

text \<open>C7. Agreement after replication: once a follower accepts a request, the entries of the request that it did not
  have, those \<^verbatim>\<open>entriesToAppend\<close> returns, are in its log as they were sent, every field included; the entries before
  them were in its log with the same Term and are kept; its log has the Term of every entry of the request at that
  entry's index; and its entries up to \<^verbatim>\<open>PrevLogIndex\<close> are the ones it had.\<close>

theorem follower_log_agrees:
  assumes "wf_node n" and "request_ok r" and "n_term n \<le> ae_Term r"
    and "matches n (ae_PrevLogIndex r) (ae_PrevLogTerm r) = Some True"
    and "entriesToAppend n (ae_PrevLogIndex r) (ae_Entries r) = Some (Some (es, tf))"
    and "handleAppendEntries n r = Some (n', as)"
  shows "(\<exists>k\<le>length (ae_Entries r). es = drop k (ae_Entries r) \<and>
      (\<forall>i<k. termAt n (e_Index (ae_Entries r ! i)) = Some (e_Term (ae_Entries r ! i)) \<and>
         entryAt n' (unat (e_Index (ae_Entries r ! i))) = entryAt n (unat (e_Index (ae_Entries r ! i)))) \<and>
      (\<forall>i. k \<le> i \<and> i < length (ae_Entries r) \<longrightarrow>
         entryAt n' (unat (e_Index (ae_Entries r ! i))) = Some (ae_Entries r ! i))) \<and>
    (\<forall>i<length (ae_Entries r).
      termAt n' (e_Index (ae_Entries r ! i)) = Some (e_Term (ae_Entries r ! i))) \<and>
    (\<forall>j\<le>unat (ae_PrevLogIndex r). entryAt n' j = entryAt n j)"
proof -
  let ?n = "acceptLeader n (ae_Term r) (ae_From r)"
  have lv: "lview ?n = lview n" by simp
  note same = same_log_reads [OF same_log_lview [OF lv]] entriesToAppend_lview [OF lv]
  obtain m bs where m: "acceptedAppend ?n r = Some (m, bs)"
    "afterTermChange (ae_Term r > n_term n) m (ResetElectionTimer # bs) = (n', as)"
    using assms(6) leD [OF assms(3)]
    by (auto simp: handleAppendEntries_accept Option.bind_eq_Some_conv split_beta)
  have "same_log n' m" using same_log_afterTermChange m(2) by (metis fst_conv)
  moreover have "wf_node ?n" by (rule step_ok_wf [OF acceptLeader_step_ok [OF assms(1)]])
  ultimately have "(\<exists>k\<le>length (ae_Entries r). es = drop k (ae_Entries r) \<and> takes_entries n (ae_Entries r) k n') \<and>
      (\<forall>j\<le>unat (ae_PrevLogIndex r). entryAt n' j = entryAt n j)"
    using acceptedAppend_agrees [OF _ assms(2) m(1)] assms(4,5) same same_log_reads [of n' m]
    by (simp add: takes_entries_def)
  then show ?thesis unfolding takes_entries_def by blast
qed

theorem follower_log_agrees_witness:
  "\<exists>n' as. handleAppendEntries sample_node sample_request = Some (n', as) \<and>
     entryAt n' 3 = Some (ae_Entries sample_request ! 1) \<and> termAt n' 3 = Some 2 \<and> entryAt n' 1 = entryAt sample_node 1"
proof -
  have "entriesToAppend sample_node (ae_PrevLogIndex sample_request) (ae_Entries sample_request) =
      Some (Some (ae_Entries sample_request, 2))"
    "n_term sample_node \<le> ae_Term sample_request"
    "matches sample_node (ae_PrevLogIndex sample_request) (ae_PrevLogTerm sample_request) = Some True"
    by code_simp+
  note h = follower_log_agrees [OF sample_wf sample_request_ok this(2,3,1)]
  obtain n' as where s: "handleAppendEntries sample_node sample_request = Some (n', as)"
    using Step_achieves [OF sample_wf, of "EvAppendEntries sample_request"] sample_request_ok
    by (auto simp: achieves_def)
  from h [OF s, THEN conjunct1] obtain k where k: "ae_Entries sample_request = drop k (ae_Entries sample_request)"
    "\<forall>i. k \<le> i \<and> i < length (ae_Entries sample_request) \<longrightarrow>
      entryAt n' (unat (e_Index (ae_Entries sample_request ! i))) = Some (ae_Entries sample_request ! i)" by blast
  have l: "length (ae_Entries sample_request) = 2" by (simp add: sample_request_def)
  have "length (ae_Entries sample_request) = length (ae_Entries sample_request) - k"
    using arg_cong [OF k(1), of length] unfolding length_drop .
  with l have "k \<le> 1" by linarith
  with k(2) l have "entryAt n' (unat (e_Index (ae_Entries sample_request ! 1))) = Some (ae_Entries sample_request ! 1)"
    by (metis one_less_numeral_iff semiring_norm(76))
  then show ?thesis
    using h [OF s, THEN conjunct2, THEN conjunct1, rule_format, of 1] h [OF s, THEN conjunct2, THEN conjunct2, rule_format, of 1] s
    by (simp add: sample_request_def sample_entry_def)
qed

text \<open>C9. Ordered application: \<^verbatim>\<open>applyThrough\<close> hands the state machine exactly the log entries between
  the last applied index and the target, each once and in index order, and remembers the target.\<close>

theorem entries_applied_in_order:
  assumes "wf_node n" and "index \<le> n_durableCommitIndex n"
  shows "\<exists>n' as. applyThrough n index = Some (n', as) \<and>
    map Some (applied as) = map (entryAt n) [unat (n_lastApplied n) + 1..<unat index + 1] \<and>
    n_lastApplied n' = max (n_lastApplied n) index \<and> n_log n' = n_log n"
proof -
  obtain r ps as where a: "applyThrough n index =
      Some (n\<lparr>n_lastApplied := max (n_lastApplied n) index, n_readReady := r, n_pendingReads := ps\<rparr>, as)"
    "applied as = log_range n (unat (n_lastApplied n)) (unat index)"
    using applyThrough_spec [OF assms] by blast
  have ok: "log_ok n" and pos: "n_logBaseIndex n \<le> n_lastApplied n" "index \<le> n_lastLogIndex n"
    using assms by (auto simp: wf_node_def positions_ok_def)
  have "entryAt n k \<noteq> None" if "unat (n_lastApplied n) < k" "k \<le> unat index" for k
    using log_ok_last [OF ok] pos that by (simp add: entryAt_def word_le_nat_alt)
  then have "map Some (applied as) = map (entryAt n) [unat (n_lastApplied n) + 1..<unat index + 1]"
    by (auto simp: a(2) log_range_def)
  then show ?thesis using a(1) by simp
qed

theorem entries_applied_in_order_witness:
  "\<exists>n' as. applyThrough sample_node 1 = Some (n', as) \<and> applied as = [sample_entry 1 1] \<and> n_lastApplied n' = 1"
proof -
  have c: "1 \<le> n_durableCommitIndex sample_node" "n_lastApplied sample_node = 0"
    "entryAt sample_node 1 = Some (sample_entry 1 1)" by code_simp+
  have "max (n_lastApplied sample_node) 1 = 1" using c(2) by simp
  with entries_applied_in_order [OF sample_wf c(1)] c(2,3) show ?thesis by auto
qed

text \<open>C12. Batches: for a range of the retained log, \<^verbatim>\<open>entriesBatch\<close> returns a non-empty run of entries that
  starts at the first index and does not pass the last, of at most \<^verbatim>\<open>maxAppendEntriesBytes\<close> unless it is
  a single entry, so replication always advances.\<close>

theorem batch_bounded_and_progressing:
  assumes "wf_node n" and "n_logBaseIndex n < first" and "first \<le> final" and "final \<le> n_lastLogIndex n"
  shows "\<exists>es. entriesBatch n first final = Some es \<and> es \<noteq> [] \<and>
    (\<forall>i<length es. entryAt n (unat first + i) = Some (es ! i)) \<and> unat first + length es \<le> unat final + 1 \<and>
    (length es = 1 \<or> batchBytes es \<le> maxAppendEntriesBytes)"
proof -
  let ?s = "unat first - unat (n_logBaseIndex n) - 1"
  have ok: "log_ok n" using assms(1) by (simp add: wf_node_def)
  from entriesBatch_spec [OF ok assms(2-4)] obtain j where j: "0 < j" "j \<le> unat final - unat first + 1"
    "entriesBatch n first final = Some (take j (drop ?s (n_log n)))"
    "j \<le> 1 \<or> batchBytes (take j (drop ?s (n_log n))) \<le> maxAppendEntriesBytes" .
  have u: "unat (n_logBaseIndex n) < unat first" "unat first \<le> unat final"
    "unat final \<le> unat (n_logBaseIndex n) + length (n_log n)"
    using assms(2-4) log_ok_last [OF ok] by (simp_all add: word_le_nat_alt word_less_nat_alt)
  have len: "length (take j (drop ?s (n_log n))) = j" using j(2) u by simp
  have "entryAt n (unat first + i) = Some (take j (drop ?s (n_log n)) ! i)" if "i < j" for i
    using that j(2) u by (simp add: entryAt_def add.commute)
  with j len u show ?thesis by (intro exI [of _ "take j (drop ?s (n_log n))"]) auto
qed

theorem batch_bounded_and_progressing_witness:
  "\<exists>es. entriesBatch sample_node 1 2 = Some es \<and> es \<noteq> [] \<and> entryAt sample_node 1 = Some (es ! 0)"
proof -
  have "n_logBaseIndex sample_node < 1" "(1::u64) \<le> 2" "2 \<le> n_lastLogIndex sample_node" by code_simp+
  from batch_bounded_and_progressing [OF sample_wf this] show ?thesis by fastforce
qed

lemma entryAt_member:
  assumes ok: "log_ok n" and e: "e \<in> set (n_log n)"
  shows "entryAt n (unat (e_Index e)) = Some e"
proof -
  obtain i where i: "i < length (n_log n)" "e = n_log n ! i" using e by (auto simp: in_set_conv_nth)
  with log_ok_Index [OF ok, of i] show ?thesis by (simp add: entryAt_def)
qed

lemma consecutive_suffix:
  assumes "consecutive 1 log" "length log < 2 ^ 64" "e \<in> set log" "S < e_Index e"
  shows "e \<in> set (drop (unat S) log)"
proof -
  obtain i where i: "i < length log" "e = log ! i" using assms(3) by (auto simp: in_set_conv_nth)
  then have "e_Index e = 1 + of_nat i" using consecutive_nth [OF assms(1)] by simp
  moreover have "unat (1 + of_nat i :: u64) = 1 + i"
    using unat_add_of_nat [of "1::u64" i] i(1) assms(2) by simp
  ultimately have "unat S \<le> i" using assms(4) by (simp add: word_less_nat_alt)
  then show ?thesis using i by (auto simp: in_set_conv_nth intro!: exI [of _ "i - unat S"])
qed

lemma recovered_entries:
  assumes r: "recovered_ok r" and n: "NewNodeFromRecoveredState nid peers r = Some n"
    and e: "e \<in> set (rs_Log r)" "rs_SnapshotIndex r < e_Index e"
  shows "e \<in> set (n_log n)"
proof -
  let ?S = "rs_SnapshotIndex r" and ?log = "rs_Log r"
  have ne: "?log \<noteq> []" using e(1) by auto
  show ?thesis
  proof (cases "?S > 0 \<and> e_Index (hd ?log) = 1 \<and> ?S \<le> of_nat (length ?log)")
    case False
    then have "n_log n = ?log" using n ne
      by (cases ?log) (auto simp: NewNodeFromRecoveredState_def Let_def)
    with e(1) show ?thesis by simp
  next
    case True
    then have "consecutive 1 ?log" "length ?log < 2 ^ 64 - 1"
      using r ne by (cases ?log; auto simp: recovered_ok_def Let_def consecutive_Cons)+
    then have "e \<in> set (drop (unat ?S) ?log)" using consecutive_suffix e by simp
    moreover have "n_log n = drop (unat ?S) ?log"
      using n ne True by (cases ?log)
        (auto simp: NewNodeFromRecoveredState_def Let_def Option.bind_eq_Some_conv go_from_def split: if_splits)
    ultimately show ?thesis by simp
  qed
qed

text \<open>C10. Recovery: from a durable state the write-ahead log may hand over, the constructor builds a
  well-formed follower with the stored Term, vote, commit index and entries, all of them marked durable.\<close>

theorem recovery_restores:
  assumes "recovered_ok r"
  shows "\<exists>n. NewNodeFromRecoveredState nid peers r = Some n \<and> wf_node n \<and> n_role n = Follower \<and>
    n_term n = hs_Term (rs_HardState r) \<and> n_votedFor n = hs_VotedFor (rs_HardState r) \<and>
    n_durableTerm n = n_term n \<and> n_durableVotedFor n = n_votedFor n \<and>
    n_commitIndex n = rs_CommitIndex r \<and> n_durableLogIndex n = n_lastLogIndex n \<and>
    (\<forall>e\<in>set (rs_Log r). e_Index e > rs_SnapshotIndex r \<longrightarrow> entryAt n (unat (e_Index e)) = Some e)"
proof -
  obtain n where n: "NewNodeFromRecoveredState nid peers r = Some n" "wf_node n"
    using recovered_wf [OF assms] by blast
  have "entryAt n (unat (e_Index e)) = Some e" if "e \<in> set (rs_Log r)" "e_Index e > rs_SnapshotIndex r" for e
    using entryAt_member recovered_entries [OF assms n(1) that] n(2) by (simp add: wf_node_def)
  moreover have "n_role n = Follower \<and> n_term n = hs_Term (rs_HardState r) \<and>
    n_votedFor n = hs_VotedFor (rs_HardState r) \<and>
    n_durableTerm n = n_term n \<and> n_durableVotedFor n = n_votedFor n \<and>
    n_commitIndex n = rs_CommitIndex r \<and> n_durableLogIndex n = n_lastLogIndex n"
    using n(1)
    by (auto simp: NewNodeFromRecoveredState_def Let_def Option.bind_eq_Some_conv split: list.splits if_splits)
  ultimately show ?thesis using n by blast
qed

theorem recovery_restores_witness:
  "\<exists>n. NewNodeFromRecoveredState ''a'' [''b'', ''c''] sample_state = Some n \<and> n_votedFor n = ''b'' \<and>
     entryAt n 2 = Some (sample_entry 2 1)"
proof -
  have "recovered_ok sample_state"
    by (simp add: recovered_ok_def sample_state_def sample_entry_def consecutive_Cons)
  from recovery_restores [OF this, of "''a''" "[''b'', ''c'']"] show ?thesis
    by (auto simp: sample_state_def sample_entry_def)
qed

end
