(* ===== verification/Codec.thy ===== *)
theory Codec
  imports Ternion_Prelude
begin

text \<open>
  The parts of Go's standard library that fix bytes on disk and on the wire, as the sources use them:
  \<^verbatim>\<open>binary.BigEndian\<close> for 32 and 64 bits, \<^verbatim>\<open>crc32.ChecksumIEEE\<close>, \<^verbatim>\<open>utf8.ValidString\<close> and the test
  \<^verbatim>\<open>strings.TrimSpace(s) == ""\<close>. A Go string is a list of 8-bit characters, \<open>bytes_of\<close> and
  \<open>string_of\<close> convert between it and its bytes.
\<close>

unbundle bit_operations_syntax

named_theorems codec \<open>round trips of the byte encodings\<close>

subsection \<open>Strings and bytes\<close>

definition byte_of :: "char \<Rightarrow> byte" where
  "byte_of c = of_nat (of_char c)"

definition char_of_byte :: "byte \<Rightarrow> char" where
  "char_of_byte b = char_of (unat b)"

definition bytes_of :: "string \<Rightarrow> byte list" where
  "bytes_of s = map byte_of s"

definition string_of :: "byte list \<Rightarrow> string" where
  "string_of bs = map char_of_byte bs"

lemma unat_byte_of: "unat (byte_of c) = of_char c"
proof -
  have "(of_char c :: nat) < 2 ^ 8" by simp
  then show ?thesis by (simp add: byte_of_def unat_of_nat take_bit_nat_eq_self del: of_nat_of_char)
qed

lemma char_of_byte_of [simp, codec]: "char_of_byte (byte_of c) = c"
  by (simp add: char_of_byte_def unat_byte_of)

lemma byte_of_char_of [simp, codec]: "byte_of (char_of_byte b) = b"
proof (rule unsigned_word_eqI)
  have "unat b < 2 ^ 8" using unsigned_less [of b] by simp
  then show "unat (byte_of (char_of_byte b)) = unat b"
    by (simp add: unat_byte_of char_of_byte_def)
qed

lemma string_of_bytes_of [simp, codec]: "string_of (bytes_of s) = s"
  by (simp add: string_of_def bytes_of_def comp_def)

lemma bytes_of_string_of [simp, codec]: "bytes_of (string_of bs) = bs"
  by (simp add: string_of_def bytes_of_def comp_def)

lemma length_bytes_of [simp]: "length (bytes_of s) = length s"
  by (simp add: bytes_of_def)

lemma bytes_of_inject [simp]: "bytes_of s = bytes_of t \<longleftrightarrow> s = t"
  by (metis string_of_bytes_of)

subsection \<open>Big-endian integers\<close>

text \<open>\<^verbatim>\<open>AppendUint32\<close>/\<^verbatim>\<open>PutUint32\<close> and \<^verbatim>\<open>AppendUint64\<close>/\<^verbatim>\<open>PutUint64\<close>: the most significant byte first.\<close>

definition be32 :: "u32 \<Rightarrow> byte list" where
  "be32 x = [ucast (drop_bit 24 x), ucast (drop_bit 16 x), ucast (drop_bit 8 x), ucast x]"

definition be64 :: "u64 \<Rightarrow> byte list" where
  "be64 x = be32 (ucast (drop_bit 32 x)) @ be32 (ucast x)"

text \<open>\<^verbatim>\<open>Uint32\<close> and \<^verbatim>\<open>Uint64\<close> read the first four and eight bytes; they panic on a shorter slice.\<close>

fun uint32 :: "byte list \<Rightarrow> u32 option" where
  "uint32 (a # b # c # d # _) =
     Some (push_bit 24 (ucast a) OR push_bit 16 (ucast b) OR push_bit 8 (ucast c) OR ucast d)"
| "uint32 _ = None"

definition uint64 :: "byte list \<Rightarrow> u64 option" where
  "uint64 bs = do { hi \<leftarrow> uint32 bs; lo \<leftarrow> uint32 (drop 4 bs); Some (push_bit 32 (ucast hi) OR ucast lo) }"

lemma length_be32 [simp]: "length (be32 x) = 4" by (simp add: be32_def)
lemma length_be64 [simp]: "length (be64 x) = 8" by (simp add: be64_def)

lemma uint32_be32 [simp, codec]: "uint32 (be32 x @ bs) = Some x"
proof -
  have "push_bit 24 (ucast (ucast (drop_bit 24 x) :: byte)) OR push_bit 16 (ucast (ucast (drop_bit 16 x) :: byte)) OR
    push_bit 8 (ucast (ucast (drop_bit 8 x) :: byte)) OR ucast (ucast x :: byte) = x"
  proof (rule bit_word_eqI)
    fix n assume "n < LENGTH(32)"
    then consider "n < 8" | "8 \<le> n" "n < 16" | "16 \<le> n" "n < 24" | "24 \<le> n" "n < 32" by fastforce
    then show "bit (push_bit 24 (ucast (ucast (drop_bit 24 x) :: byte)) OR
        push_bit 16 (ucast (ucast (drop_bit 16 x) :: byte)) OR
        push_bit 8 (ucast (ucast (drop_bit 8 x) :: byte)) OR ucast (ucast x :: byte) :: u32) n = bit x n"
      by cases (auto simp: bit_simps less_diff_conv2)
  qed
  then show ?thesis by (simp add: be32_def)
qed

lemma uint64_be64 [simp, codec]: "uint64 (be64 x @ bs) = Some x"
proof -
  have "push_bit 32 (ucast (ucast (drop_bit 32 x) :: u32)) OR ucast (ucast x :: u32) = x"
    by (rule bit_word_eqI) (auto simp: bit_simps)
  then show ?thesis by (simp add: uint64_def be64_def)
qed

lemma uint32_None: "uint32 bs = None \<longleftrightarrow> length bs < 4"
  by (induction bs rule: uint32.induct) auto

subsection \<open>CRC-32\<close>

text \<open>The IEEE polynomial, bit reversed, one byte at a time.\<close>

definition crc32_bit :: "u32 \<Rightarrow> u32" where
  "crc32_bit c = (if bit c 0 then drop_bit 1 c XOR 0xEDB88320 else drop_bit 1 c)"

definition crc32_byte :: "u32 \<Rightarrow> byte \<Rightarrow> u32" where
  "crc32_byte c b = (crc32_bit ^^ 8) (c XOR ucast b)"

definition checksumIEEE :: "byte list \<Rightarrow> u32" where
  "checksumIEEE bs = NOT (foldl crc32_byte (NOT 0) bs)"

lemma crc32_byte_unfold: "crc32_byte c b = crc32_bit (crc32_bit (crc32_bit (crc32_bit
    (crc32_bit (crc32_bit (crc32_bit (crc32_bit (c XOR ucast b))))))))"
  by (simp add: crc32_byte_def eval_nat_numeral)

lemmas checksum_eval = checksumIEEE_def crc32_byte_unfold crc32_bit_def

text \<open>The check value of the standard: the CRC of the nine digits.\<close>

lemma checksumIEEE_check: "checksumIEEE (bytes_of ''123456789'') = 0xCBF43926"
  by (simp add: checksum_eval bytes_of_def byte_of_def)

subsection \<open>UTF-8\<close>

text \<open>\<^verbatim>\<open>utf8.ValidString\<close>: shortest-form sequences of code points up to \<^verbatim>\<open>U+10FFFF\<close>, surrogates excluded.\<close>

definition in_range :: "byte \<Rightarrow> byte \<Rightarrow> byte \<Rightarrow> bool" where
  "in_range lo hi b \<longleftrightarrow> lo \<le> b \<and> b \<le> hi"

definition continuation :: "byte \<Rightarrow> bool" where
  "continuation = in_range 0x80 0xBF"

fun validUTF8 :: "byte list \<Rightarrow> bool" where
  "validUTF8 [] = True"
| "validUTF8 (a # rest) =
     (if a < 0x80 then validUTF8 rest
      else if in_range 0xC2 0xDF a
      then (case rest of b # rest' \<Rightarrow> continuation b \<and> validUTF8 rest' | _ \<Rightarrow> False)
      else if in_range 0xE0 0xEF a
      then (case rest of
              b # c # rest' \<Rightarrow>
                (if a = 0xE0 then in_range 0xA0 0xBF b
                 else if a = 0xED then in_range 0x80 0x9F b else continuation b) \<and>
                continuation c \<and> validUTF8 rest'
            | _ \<Rightarrow> False)
      else if in_range 0xF0 0xF4 a
      then (case rest of
              b # c # d # rest' \<Rightarrow>
                (if a = 0xF0 then in_range 0x90 0xBF b
                 else if a = 0xF4 then in_range 0x80 0x8F b else continuation b) \<and>
                continuation c \<and> continuation d \<and> validUTF8 rest'
            | _ \<Rightarrow> False)
      else False)"

definition ValidString :: "string \<Rightarrow> bool" where
  "ValidString s = validUTF8 (bytes_of s)"

text \<open>\<^verbatim>\<open>strings.TrimSpace(s) == ""\<close>: every rune of \<open>s\<close> is white space in the sense of
  \<^verbatim>\<open>unicode.IsSpace\<close>.\<close>

fun all_space :: "byte list \<Rightarrow> bool" where
  "all_space [] = True"
| "all_space (a # rest) =
     (if a = 0x20 \<or> in_range 0x09 0x0D a then all_space rest
      else (case rest of
              [] \<Rightarrow> False
            | b # rest1 \<Rightarrow>
                if a = 0xC2 then (b = 0x85 \<or> b = 0xA0) \<and> all_space rest1
                else (case rest1 of
                        [] \<Rightarrow> False
                      | c # rest2 \<Rightarrow>
                          ((a = 0xE1 \<and> b = 0x9A \<and> c = 0x80) \<or>
                           (a = 0xE2 \<and> b = 0x80 \<and> (in_range 0x80 0x8A c \<or> c = 0xA8 \<or> c = 0xA9 \<or> c = 0xAF)) \<or>
                           (a = 0xE2 \<and> b = 0x81 \<and> c = 0x9F) \<or>
                           (a = 0xE3 \<and> b = 0x80 \<and> c = 0x80)) \<and> all_space rest2)))"

definition blank :: "string \<Rightarrow> bool" where
  "blank s = all_space (bytes_of s)"

lemma blank_Nil [simp]: "blank ''''"
  by (simp add: blank_def bytes_of_def)

lemma ValidString_Nil [simp]: "ValidString ''''"
  by (simp add: ValidString_def bytes_of_def)

lemma validUTF8_ascii: "(\<And>b. b \<in> set bs \<Longrightarrow> b < 0x80) \<Longrightarrow> validUTF8 bs"
  by (induction bs) simp_all

text \<open>Reading is the inverse of writing: the bytes read are the encoding of the value.\<close>

lemma be32_uint32:
  fixes a b c d :: byte
  defines "x \<equiv> (push_bit 24 (ucast a) OR push_bit 16 (ucast b) OR push_bit 8 (ucast c) OR ucast d :: u32)"
  shows "be32 x = [a, b, c, d]"
proof -
  have "bit (ucast (drop_bit 24 x) :: byte) n = bit a n" if "n < 8" for n
    using that by (auto simp: x_def bit_simps dest: bit_imp_le_length)
  then have a: "ucast (drop_bit 24 x) = a" by (intro bit_word_eqI) simp
  have "bit (ucast (drop_bit 16 x) :: byte) n = bit b n" if "n < 8" for n
    using that by (auto simp: x_def bit_simps dest: bit_imp_le_length)
  then have b: "ucast (drop_bit 16 x) = b" by (intro bit_word_eqI) simp
  have "bit (ucast (drop_bit 8 x) :: byte) n = bit c n" if "n < 8" for n
    using that by (auto simp: x_def bit_simps dest: bit_imp_le_length)
  then have c: "ucast (drop_bit 8 x) = c" by (intro bit_word_eqI) simp
  have "bit (ucast x :: byte) n = bit d n" if "n < 8" for n
    using that by (auto simp: x_def bit_simps dest: bit_imp_le_length)
  then have "ucast x = d" by (intro bit_word_eqI) simp
  with a b c show ?thesis by (simp add: be32_def)
qed

lemma uint32_Some:
  assumes "uint32 bs = Some x"
  shows "bs = be32 x @ drop 4 bs"
  using assms by (induction bs rule: uint32.induct) (auto simp: be32_uint32)

lemma uint64_Some:
  assumes "uint64 bs = Some x"
  shows "bs = be64 x @ drop 8 bs"
proof -
  obtain hi lo where h: "uint32 bs = Some hi" "uint32 (drop 4 bs) = Some lo"
    and x: "x = push_bit 32 (ucast hi) OR ucast lo"
    using assms by (auto simp: uint64_def Option.bind_eq_Some_conv)
  have "bit (ucast (drop_bit 32 x) :: u32) n = bit hi n" "bit (ucast x :: u32) n = bit lo n" if "n < 32" for n
    using that by (auto simp: x bit_simps dest: bit_imp_le_length)
  then have "ucast (drop_bit 32 x) = hi" "ucast x = lo" by (auto intro!: bit_word_eqI)
  then have "be64 x = be32 hi @ be32 lo" by (simp add: be64_def)
  moreover have "bs = be32 hi @ be32 lo @ drop 4 (drop 4 bs)"
    using uint32_Some [OF h(1)] uint32_Some [OF h(2)] by metis
  ultimately show ?thesis by (simp add: add.commute)
qed

lemma uint32_ex: "4 \<le> length bs \<Longrightarrow> \<exists>x. uint32 bs = Some x"
  using uint32_None [of bs] by fastforce

end
