(* ===== verification/Snapshot_File.thy ===== *)
theory Snapshot_File
  imports Codec "HOL-Library.Product_Lexorder"
begin

text \<open>
  Snapshot files, \<^verbatim>\<open>src/internal/snapshot/snapshot.go\<close>: the state they hold, its validation, the
  checksummed file format, installing a file by writing a temporary one and renaming it, and choosing
  the newest file that agrees with the write-ahead log.

  The JSON codec of the standard library is a parameter: \<open>marshal\<close> stands for \<^verbatim>\<open>json.Marshal\<close>, and
  \<open>unmarshal\<close> for the two \<^verbatim>\<open>Decode\<close> calls (the decoded state, and whether nothing but white space
  followed it). The property the code relies on, \<open>json_codec\<close>, is that a state whose text is valid
  UTF-8 survives the round trip.

  A file carries the bytes a reader sees and the bytes that are known to be on disk. A directory carries
  the entries a reader sees and the entries as of its last sync: creating, renaming and removing a file
  reach the disk for certain only with the sync of the directory. Losing power between two file
  operations is a state of the model, for every choice of the unsynced entries that reached the disk.
\<close>

subsection \<open>The state\<close>

record Identity =
  sid_ClusterID :: string
  sid_NodeID :: string
  sid_MemberIDs :: "string list"

record Session =
  ss_ID :: "byte list"
  ss_Closed :: bool
  ss_LastSequence :: u64
  ss_LastResult :: byte
  ss_LastDeleteExisted :: bool

record SnapshotState =
  sn_Identity :: Identity
  sn_IncludedIndex :: u64
  sn_IncludedTerm :: u64
  sn_Values :: "string \<rightharpoonup> byte list"
  sn_Sessions :: "Session list"

record Compatibility =
  cp_Identity :: Identity
  cp_CommitIndex :: u64
  cp_LogStartIndex :: u64
  cp_LogTerms :: "u64 list"
  cp_SnapshotIndex :: u64
  cp_SnapshotTerm :: u64

text \<open>One constructor per error the package reports.\<close>

datatype SnapshotError =
    MissingIdentity | MemberCount | EmptyMember | MembersUnsorted | NodeAbsent
  | IndexTermMismatch | DuplicateSession
  | EncodeFailed | PayloadTooLarge | FileFailed | DestinationExists
  | FileTooLarge | ShorterThanHeader | InvalidMagic | UnsupportedVersion | LengthTooLarge
  | LengthMismatch | ChecksumMismatch | DecodeFailed | TrailingData
  | IdentityMismatch | NoCompatibleSnapshot | NotInstalled

subsection \<open>Validation\<close>

text \<open>The loop over the member identities, with the previous identity.\<close>

fun validateMembers :: "string option \<Rightarrow> string list \<Rightarrow> SnapshotError option" where
  "validateMembers prev [] = None"
| "validateMembers prev (m # ms) =
     (if blank m then Some EmptyMember
      else if (case prev of None \<Rightarrow> False | Some p \<Rightarrow> p \<ge> m) then Some MembersUnsorted
      else validateMembers (Some m) ms)"

fun duplicateSession :: "byte list set \<Rightarrow> Session list \<Rightarrow> bool" where
  "duplicateSession seen [] = False"
| "duplicateSession seen (s # rest) = (ss_ID s \<in> seen \<or> duplicateSession (insert (ss_ID s) seen) rest)"

definition validateState :: "SnapshotState \<Rightarrow> SnapshotError option" where
  "validateState state =
     (let ident = sn_Identity state in
      if blank (sid_ClusterID ident) \<or> blank (sid_NodeID ident) then Some MissingIdentity
      else if length (sid_MemberIDs ident) \<noteq> 3 then Some MemberCount
      else (case validateMembers None (sid_MemberIDs ident) of
              Some err \<Rightarrow> Some err
            | None \<Rightarrow>
                if sid_NodeID ident \<notin> set (sid_MemberIDs ident) then Some NodeAbsent
                else if (sn_IncludedIndex state = 0) \<noteq> (sn_IncludedTerm state = 0) then Some IndexTermMismatch
                else if duplicateSession {} (sn_Sessions state) then Some DuplicateSession
                else None))"

definition equalIdentity :: "Identity \<Rightarrow> Identity \<Rightarrow> bool" where
  "equalIdentity left right \<longleftrightarrow>
     sid_ClusterID left = sid_ClusterID right \<and> sid_NodeID left = sid_NodeID right \<and>
     length (sid_MemberIDs left) = length (sid_MemberIDs right) \<and>
     list_all2 (=) (sid_MemberIDs left) (sid_MemberIDs right)"

text \<open>\<^verbatim>\<open>matchesWAL\<close>; the slice access is guarded, \<open>matchesWAL_total\<close> below.\<close>

definition matchesWAL :: "SnapshotState \<Rightarrow> Compatibility \<Rightarrow> bool option" where
  "matchesWAL state compatibility =
     (if sn_IncludedIndex state > cp_CommitIndex compatibility then Some False
      else if sn_IncludedIndex state = 0 then Some (sn_IncludedTerm state = 0)
      else if sn_IncludedIndex state = cp_SnapshotIndex compatibility
      then Some (sn_IncludedTerm state = cp_SnapshotTerm compatibility)
      else let start = (if cp_LogStartIndex compatibility = 0 then 1 else cp_LogStartIndex compatibility) in
      if sn_IncludedIndex state < start then Some False
      else let offset = sn_IncludedIndex state - start in
      if unat offset \<ge> length (cp_LogTerms compatibility) then Some False
      else do { t \<leftarrow> go_index (cp_LogTerms compatibility) offset; Some (t = sn_IncludedTerm state) })"

subsection \<open>The file format\<close>

definition magic :: string where
  "magic = ''QKVSNP01''"

definition formatVersion :: u32 where
  "formatVersion = 1"

definition headerSize :: nat where
  "headerSize = length magic + 4 + 8 + 4"

definition maxPayloadSize :: nat where
  "maxPayloadSize = 4 * 2 ^ 30"

definition snapshotHeader :: "byte list \<Rightarrow> byte list" where
  "snapshotHeader payload =
     bytes_of magic @ be32 formatVersion @ be64 (of_nat (length payload)) @ be32 (checksumIEEE payload)"

definition snapshot_decode ::
  "(byte list \<Rightarrow> (SnapshotState \<times> bool) option) \<Rightarrow> byte list \<Rightarrow> SnapshotError + SnapshotState" where
  "snapshot_decode unmarshal contents =
     (if length contents > maxPayloadSize + headerSize then Inl FileTooLarge
      else if length contents < headerSize then Inl ShorterThanHeader
      else if string_of (take (length magic) contents) \<noteq> magic then Inl InvalidMagic
      else if uint32 (drop (length magic) contents) \<noteq> Some formatVersion then Inl UnsupportedVersion
      else (case uint64 (drop (length magic + 4) contents) of
              None \<Rightarrow> Inl LengthMismatch
            | Some len \<Rightarrow>
                if unat len > maxPayloadSize then Inl LengthTooLarge
                else if len \<noteq> of_nat (length contents - headerSize) then Inl LengthMismatch
                else let payload = drop headerSize contents in
                  if uint32 (drop (length magic + 12) contents) \<noteq> Some (checksumIEEE payload)
                  then Inl ChecksumMismatch
                  else (case unmarshal payload of
                          None \<Rightarrow> Inl DecodeFailed
                        | Some (state, atEOF) \<Rightarrow>
                            if \<not> atEOF then Inl TrailingData
                            else (case validateState state of
                                    Some err \<Rightarrow> Inl err
                                  | None \<Rightarrow> Inr state))))"

definition Decode :: "(byte list \<Rightarrow> (SnapshotState \<times> bool) option) \<Rightarrow> byte list \<Rightarrow> SnapshotError + SnapshotState" where
  "Decode unmarshal contents = snapshot_decode unmarshal contents"

subsection \<open>File names\<close>

text \<open>\<^verbatim>\<open>%020d\<close>: the decimal digits, padded with zeros to twenty.\<close>

fun decimal :: "nat \<Rightarrow> string" where
  "decimal n = (if n < 10 then [char_of (48 + n)] else decimal (n div 10) @ [char_of (48 + n mod 10)])"

declare decimal.simps [simp del]

definition pad20 :: "u64 \<Rightarrow> string" where
  "pad20 x = (let s = decimal (unat x) in replicate (20 - length s) CHR ''0'' @ s)"

text \<open>\<open>random\<close> is what \<^verbatim>\<open>os.CreateTemp\<close> puts in place of the asterisk.\<close>

definition snapshotStem :: "u64 \<Rightarrow> u64 \<Rightarrow> string" where
  "snapshotStem index trm = ''snapshot-'' @ pad20 index @ ''-'' @ pad20 trm @ ''-''"

definition temporaryName :: "string \<Rightarrow> SnapshotState \<Rightarrow> string" where
  "temporaryName random state =
     snapshotStem (sn_IncludedIndex state) (sn_IncludedTerm state) @ random @ ''.tmp''"

definition TrimSuffix :: "string \<Rightarrow> string \<Rightarrow> string" where
  "TrimSuffix s suff =
     (if length suff \<le> length s \<and> drop (length s - length suff) s = suff
      then take (length s - length suff) s else s)"

definition finalName :: "string \<Rightarrow> string" where
  "finalName temporary = TrimSuffix temporary ''.tmp'' @ ''.qsnap''"

text \<open>A pattern with one asterisk.\<close>

definition glob :: "string \<Rightarrow> string \<Rightarrow> string \<Rightarrow> bool" where
  "glob pre suff name \<longleftrightarrow>
     length pre + length suff \<le> length name \<and> take (length pre) name = pre \<and>
     drop (length name - length suff) name = suff"

subsection \<open>The directory\<close>

record File =
  f_seen :: "byte list"
  f_durable :: "byte list"

text \<open>What a reader sees, and the entries on disk.\<close>

record Dir =
  d_files :: "(string \<times> File) list"
  d_disk :: "(string \<times> File) list"

definition emptyDir :: Dir where
  "emptyDir = \<lparr>d_files = [], d_disk = []\<rparr>"

datatype FileOp =
    CreateTemp string
  | Chmod string
  | WriteFile string "byte list"
  | SyncFile string
  | CloseFile string
  | RenameFile string string
  | SyncDir

text \<open>Syncing a file concerns its bytes, under a name that is on disk already as well; syncing the directory
  concerns its entries.\<close>

fun fileOp :: "FileOp \<Rightarrow> Dir \<Rightarrow> Dir" where
  "fileOp (CreateTemp name) dir =
     dir\<lparr>d_files := AList.update name \<lparr>f_seen = [], f_durable = []\<rparr> (d_files dir)\<rparr>"
| "fileOp (WriteFile name bs) dir =
     dir\<lparr>d_files := AList.map_entry name (f_seen_update (\<lambda>old. old @ bs)) (d_files dir)\<rparr>"
| "fileOp (SyncFile name) dir =
     (case map_of (d_files dir) name of
        None \<Rightarrow> dir
      | Some f \<Rightarrow>
          let f = f\<lparr>f_durable := f_seen f\<rparr>
          in dir\<lparr>d_files := AList.update name f (d_files dir),
                 d_disk := AList.map_entry name (\<lambda>_. f) (d_disk dir)\<rparr>)"
| "fileOp (RenameFile old new) dir =
     (case map_of (d_files dir) old of
        None \<Rightarrow> dir
      | Some f \<Rightarrow> dir\<lparr>d_files := AList.update new f (AList.delete old (d_files dir))\<rparr>)"
| "fileOp SyncDir dir = dir\<lparr>d_disk := d_files dir\<rparr>"
| "fileOp _ dir = dir"

definition removeFile :: "string \<Rightarrow> Dir \<Rightarrow> Dir" where
  "removeFile name dir = dir\<lparr>d_files := AList.delete name (d_files dir)\<rparr>"

text \<open>Losing power: the entries in \<open>kept\<close> are as a reader saw them, the others as of the last sync of the
  directory, and every file falls back to the bytes known to be on disk.\<close>

definition powerLoss :: "string set \<Rightarrow> Dir \<Rightarrow> Dir" where
  "powerLoss kept dir =
     (let entries = filter (\<lambda>(name, _). name \<in> kept) (d_files dir) @
            filter (\<lambda>(name, _). name \<notin> kept) (d_disk dir);
          files = map (\<lambda>(name, f). (name, f\<lparr>f_seen := f_durable f\<rparr>)) entries
      in \<lparr>d_files = files, d_disk = files\<rparr>)"

definition fileAt :: "Dir \<Rightarrow> string \<Rightarrow> File option" where
  "fileAt dir name = map_of (d_files dir) name"

definition globFiles :: "string \<Rightarrow> Dir \<Rightarrow> string list" where
  "globFiles pre dir = sort (filter (glob pre ''.qsnap'') (map fst (d_files dir)))"

subsection \<open>Saving\<close>

text \<open>The file operations of \<^verbatim>\<open>Save\<close> before and after the check that the destination is new.\<close>

definition prepareOps :: "string \<Rightarrow> byte list \<Rightarrow> FileOp list" where
  "prepareOps temporary payload =
     [CreateTemp temporary, Chmod temporary, WriteFile temporary (snapshotHeader payload),
      WriteFile temporary payload, SyncFile temporary, CloseFile temporary]"

definition installOps :: "string \<Rightarrow> FileOp list" where
  "installOps temporary = [RenameFile temporary (finalName temporary), SyncDir]"

text \<open>Runs the operations; \<open>fault\<close> is the number of operations that succeed before one fails.\<close>

fun runOps :: "nat option \<Rightarrow> FileOp list \<Rightarrow> Dir \<Rightarrow> Dir \<times> bool" where
  "runOps fault [] dir = (dir, True)"
| "runOps (Some 0) (p # ops) dir = (dir, False)"
| "runOps fault (p # ops) dir = runOps (map_option (\<lambda>k. k - 1) fault) ops (fileOp p dir)"

text \<open>\<^verbatim>\<open>Save\<close>, with the faults of the two groups of operations. The deferred cleanup removes the
  temporary file unless it was renamed.\<close>

definition Save :: "(SnapshotState \<Rightarrow> byte list option) \<Rightarrow> string \<Rightarrow> nat option \<Rightarrow> nat option \<Rightarrow>
    Dir \<Rightarrow> SnapshotState \<Rightarrow> Dir \<times> (SnapshotError + string)" where
  "Save marshal random fault fault' dir state =
     (case validateState state of
        Some err \<Rightarrow> (dir, Inl err)
      | None \<Rightarrow>
          (case marshal state of
             None \<Rightarrow> (dir, Inl EncodeFailed)
           | Some payload \<Rightarrow>
               if length payload > maxPayloadSize then (dir, Inl PayloadTooLarge)
               else
                 let temporary = temporaryName random state;
                     (dir1, written) = runOps fault (prepareOps temporary payload) dir;
                     cleaned = removeFile temporary dir1
                 in if \<not> written then (cleaned, Inl FileFailed)
                    else if finalName temporary \<in> fst ` set (d_files dir1) then (cleaned, Inl DestinationExists)
                    else (case runOps fault' (installOps temporary) dir1 of
                            (dir2, True) \<Rightarrow> (dir2, Inr (finalName temporary))
                          | (dir2, False) \<Rightarrow>
                              (if fault' = Some 0 then removeFile temporary dir2 else dir2, Inl FileFailed))))"

subsection \<open>Loading\<close>

definition read_file ::
  "(byte list \<Rightarrow> (SnapshotState \<times> bool) option) \<Rightarrow> Dir \<Rightarrow> string \<Rightarrow> SnapshotError + SnapshotState" where
  "read_file unmarshal dir name =
     (case fileAt dir name of
        None \<Rightarrow> Inl FileFailed
      | Some f \<Rightarrow>
          if length (f_seen f) > maxPayloadSize + headerSize then Inl FileTooLarge
          else snapshot_decode unmarshal (f_seen f))"

text \<open>Whether a candidate replaces the newest one found so far.\<close>

definition supersedes :: "SnapshotState \<Rightarrow> string \<Rightarrow> (SnapshotState \<times> string) option \<Rightarrow> bool" where
  "supersedes state name newest =
     (case newest of
        None \<Rightarrow> True
      | Some (best, bestName) \<Rightarrow>
          sn_IncludedIndex state > sn_IncludedIndex best \<or>
          (sn_IncludedIndex state = sn_IncludedIndex best \<and>
           (sn_IncludedTerm state > sn_IncludedTerm best \<or>
            (sn_IncludedTerm state = sn_IncludedTerm best \<and> name > bestName))))"

fun loadLoop :: "(string \<Rightarrow> SnapshotError + SnapshotState) \<Rightarrow> Compatibility \<Rightarrow> string list \<Rightarrow>
    (SnapshotState \<times> string) option \<Rightarrow> SnapshotError + (SnapshotState \<times> string) option" where
  "loadLoop rd compatibility [] newest = Inr newest"
| "loadLoop rd compatibility (name # names) newest =
     (case rd name of
        Inl err \<Rightarrow> Inl err
      | Inr state \<Rightarrow>
          if \<not> equalIdentity (sn_Identity state) (cp_Identity compatibility) then Inl IdentityMismatch
          else if matchesWAL state compatibility \<noteq> Some True
          then loadLoop rd compatibility names newest
          else loadLoop rd compatibility names
                 (if supersedes state name newest then Some (state, name) else newest))"

definition LoadNewest :: "(byte list \<Rightarrow> (SnapshotState \<times> bool) option) \<Rightarrow> Dir \<Rightarrow> Compatibility \<Rightarrow>
    SnapshotError + SnapshotState option" where
  "LoadNewest unmarshal dir compatibility =
     (let names = rev (globFiles ''snapshot-'' dir) in
      case loadLoop (read_file unmarshal dir) compatibility names None of
        Inl err \<Rightarrow> Inl err
      | Inr newest \<Rightarrow>
          if names \<noteq> [] \<and> newest = None then Inl NoCompatibleSnapshot
          else Inr (map_option fst newest))"

definition Encoded :: "(byte list \<Rightarrow> (SnapshotState \<times> bool) option) \<Rightarrow> Dir \<Rightarrow> u64 \<Rightarrow> u64 \<Rightarrow>
    SnapshotError + byte list" where
  "Encoded unmarshal dir includedIndex includedTerm =
     (let matches = globFiles (snapshotStem includedIndex includedTerm) dir in
      if matches = [] then Inl NotInstalled
      else (case fileAt dir (last matches) of
              None \<Rightarrow> Inl FileFailed
            | Some f \<Rightarrow>
                (case snapshot_decode unmarshal (f_seen f) of
                   Inl err \<Rightarrow> Inl err
                 | Inr _ \<Rightarrow> Inr (f_seen f))))"

subsection \<open>Validation\<close>

lemma validateMembers_sorted:
  "validateMembers prev ms = None \<Longrightarrow>
     sorted_wrt (<) ms \<and> (\<forall>m\<in>set ms. \<not> blank m \<and> (\<forall>p. prev = Some p \<longrightarrow> p < m))"
proof (induction ms arbitrary: prev)
  case (Cons m ms)
  then have IH: "sorted_wrt (<) ms" "\<forall>x\<in>set ms. \<not> blank x \<and> m < x" and m: "\<not> blank m"
    and prev: "prev = Some p \<Longrightarrow> p < m" for p
    by (auto split: if_splits option.splits)
  then show ?case by (auto dest: order.strict_trans)
qed simp

lemma duplicateSession_distinct:
  "\<not> duplicateSession seen ss \<longleftrightarrow> distinct (map ss_ID ss) \<and> seen \<inter> set (map ss_ID ss) = {}"
  by (induction ss arbitrary: seen) auto

lemma validateState_None:
  assumes "validateState s = None"
  shows "length (sid_MemberIDs (sn_Identity s)) = 3" "sorted_wrt (<) (sid_MemberIDs (sn_Identity s))"
    "sid_NodeID (sn_Identity s) \<in> set (sid_MemberIDs (sn_Identity s))"
    "sn_IncludedIndex s = 0 \<longleftrightarrow> sn_IncludedTerm s = 0" "distinct (map ss_ID (sn_Sessions s))"
  using assms validateMembers_sorted [of None "sid_MemberIDs (sn_Identity s)"]
    duplicateSession_distinct [of "{}" "sn_Sessions s"]
  by (auto simp: validateState_def Let_def split: if_splits option.splits)

lemma equalIdentity_eq: "equalIdentity a b \<longleftrightarrow> a = b"
  by (auto simp: equalIdentity_def list_all2_eq [symmetric] intro!: Identity.equality)

lemma matchesWAL_total: "\<exists>b. matchesWAL s c = Some b"
  by (cases "matchesWAL s c") (auto simp: matchesWAL_def Let_def split: if_splits)

subsection \<open>The file format\<close>

lemma length_magic [simp]: "length magic = 8" by (simp add: magic_def)

lemma length_snapshotHeader [simp]: "length (snapshotHeader p) = headerSize"
  by (simp add: snapshotHeader_def headerSize_def)

lemma header_fields:
  "take (length magic) (snapshotHeader p @ p) = bytes_of magic"
  "drop (length magic) (snapshotHeader p @ p) =
     be32 formatVersion @ be64 (of_nat (length p)) @ be32 (checksumIEEE p) @ p"
  "drop (length magic + 4) (snapshotHeader p @ p) = be64 (of_nat (length p)) @ be32 (checksumIEEE p) @ p"
  "drop (length magic + 12) (snapshotHeader p @ p) = be32 (checksumIEEE p) @ p"
  "drop headerSize (snapshotHeader p @ p) = p"
  by (simp_all add: snapshotHeader_def headerSize_def)

text \<open>What the header says of a payload within the limit is what the decoder checks.\<close>

lemma decode_header:
  assumes "length p \<le> maxPayloadSize"
  shows "snapshot_decode unmarshal (snapshotHeader p @ p) =
    (case unmarshal p of
       None \<Rightarrow> Inl DecodeFailed
     | Some (state, atEOF) \<Rightarrow>
         if \<not> atEOF then Inl TrailingData
         else (case validateState state of Some err \<Rightarrow> Inl err | None \<Rightarrow> Inr state))"
proof -
  have "length p < 2 ^ 64" using assms by (simp add: maxPayloadSize_def)
  then have "unat (of_nat (length p) :: u64) = length p" by (rule unat_of_nat_u64)
  then show ?thesis using assms by (simp add: snapshot_decode_def header_fields Let_def del: take_append drop_append length_magic)
qed

text \<open>The decoder accepts nothing but a header followed by the payload the header describes.\<close>

lemma decode_Inr:
  assumes "snapshot_decode unmarshal contents = Inr state"
  obtains p where "contents = snapshotHeader p @ p" "length p \<le> maxPayloadSize"
    "unmarshal p = Some (state, True)" "validateState state = None"
proof -
  define p where "p = drop headerSize contents"
  have len: "headerSize \<le> length contents" and m: "string_of (take 8 contents) = magic"
    and v: "uint32 (drop 8 contents) = Some formatVersion"
    and c: "uint32 (drop 20 contents) = Some (checksumIEEE p)"
    and u: "unmarshal p = Some (state, True)" "validateState state = None"
    using assms by (auto simp: snapshot_decode_def Let_def p_def split: if_splits option.splits prod.splits)
  have l: "uint64 (drop 12 contents) = Some (of_nat (length p))" and lp: "length p \<le> maxPayloadSize"
    using assms
    by (auto simp: snapshot_decode_def Let_def p_def split: if_splits option.splits prod.splits)
  have "take 8 contents = bytes_of magic" using m bytes_of_string_of by metis
  moreover have "drop 8 contents = be32 formatVersion @ drop 12 contents" using uint32_Some [OF v] by simp
  moreover have "drop 12 contents = be64 (of_nat (length p)) @ drop 20 contents" using uint64_Some [OF l] by simp
  moreover have "drop 20 contents = be32 (checksumIEEE p) @ p"
    using uint32_Some [OF c] by (simp add: p_def headerSize_def)
  moreover have "contents = take 8 contents @ drop 8 contents" by simp
  ultimately have "contents = snapshotHeader p @ p" by (simp add: snapshotHeader_def)
  with that lp u show thesis by blast
qed

subsection \<open>Installing a file\<close>

text \<open>The file of a payload, written and synced.\<close>

definition complete :: "byte list \<Rightarrow> File" where
  "complete payload = \<lparr>f_seen = snapshotHeader payload @ payload, f_durable = snapshotHeader payload @ payload\<rparr>"

lemma glob_tmp: "\<not> glob pre ''.qsnap'' (temporaryName random s)"
  by (auto simp: glob_def temporaryName_def)

lemma finalName_temporary:
  "finalName (temporaryName random s) =
     snapshotStem (sn_IncludedIndex s) (sn_IncludedTerm s) @ random @ ''.qsnap''"
  by (simp add: finalName_def TrimSuffix_def temporaryName_def)

lemma glob_final: "glob ''snapshot-'' ''.qsnap'' (finalName (temporaryName random s))"
  by (simp add: finalName_temporary glob_def snapshotStem_def)

lemma map_of_filter_fst: "map_of (filter (\<lambda>(k, _). P k) al) k = (if P k then map_of al k else None)"
  by (induction al) auto

lemma fileAt_powerLoss:
  "fileAt (powerLoss kept dir) name = map_option (\<lambda>f. f\<lparr>f_seen := f_durable f\<rparr>)
     (if name \<in> kept then map_of (d_files dir) name else map_of (d_disk dir) name)"
  by (auto simp: fileAt_def powerLoss_def Let_def map_of_map map_add_def
      map_of_filter_fst [where P = "\<lambda>n. n \<in> kept"] map_of_filter_fst [where P = "\<lambda>n. n \<notin> kept"] split: option.splits)

text \<open>Before the rename only the temporary file changes, whatever fails.\<close>

lemma prepare_other:
  assumes "name \<noteq> t"
  shows "map_of (d_files (fst (runOps fault (prepareOps t p) dir))) name = map_of (d_files dir) name \<and>
    map_of (d_disk (fst (runOps fault (prepareOps t p) dir))) name = map_of (d_disk dir) name"
proof -
  have "map_of (d_files (fst (runOps fault ops dir))) name = map_of (d_files dir) name \<and>
      map_of (d_disk (fst (runOps fault ops dir))) name = map_of (d_disk dir) name"
    if "\<forall>q\<in>set ops. \<forall>d. map_of (d_files (fileOp q d)) name = map_of (d_files d) name \<and>
      map_of (d_disk (fileOp q d)) name = map_of (d_disk d) name" for ops
    using that by (induction fault ops dir rule: runOps.induct) auto
  moreover have "\<forall>q\<in>set (prepareOps t p). \<forall>d. map_of (d_files (fileOp q d)) name = map_of (d_files d) name \<and>
      map_of (d_disk (fileOp q d)) name = map_of (d_disk d) name"
    using assms by (simp add: prepareOps_def update_conv' map_of_map_entry Let_def split: option.split)
  ultimately show ?thesis by blast
qed

lemma prepare_done:
  assumes "runOps fault (prepareOps t p) dir = (dir1, True)"
  shows "map_of (d_files dir1) = (map_of (d_files dir))(t \<mapsto> complete p)"
proof -
  have "fault = None \<or> (\<exists>k\<ge>6. fault = Some k)"
  proof (rule ccontr)
    assume "\<not> ?thesis"
    then obtain k where "fault = Some k" "k < 6" by (cases fault) auto
    then show False using assms
      by (auto simp: prepareOps_def less_Suc_eq numeral_eq_Suc)
  qed
  then have "dir1 = fold fileOp (prepareOps t p) dir"
  proof
    assume "\<exists>k\<ge>6. fault = Some k"
    then obtain j where j: "fault = Some j" "6 \<le> j" by blast
    then have "fault = Some (Suc (Suc (Suc (Suc (Suc (Suc (j - 6)))))))" by simp
    with assms show ?thesis by (simp add: prepareOps_def)
  qed (use assms in \<open>simp add: prepareOps_def\<close>)
  then show ?thesis
    by (simp add: prepareOps_def update_conv' map_of_map_entry complete_def fun_eq_iff Let_def)
qed

lemma install_map:
  assumes "map_of (d_files dir1) = (map_of (d_files dir))(t \<mapsto> f)"
  shows "map_of (d_files (fileOp (RenameFile t u) dir1)) = (map_of (d_files dir))(t := None, u \<mapsto> f)"
    and "d_disk (fileOp (RenameFile t u) dir1) = d_disk dir1"
  using assms by (simp_all add: update_conv' delete_conv' fun_eq_iff)

text \<open>What a loss of power leaves of a name, other than the temporary one, while the file is being installed.\<close>

lemma installing_lossy:
  assumes m1: "map_of (d_files dir1) = (map_of (d_files dir))(t \<mapsto> complete p)" and nt: "name \<noteq> t"
    and k1: "map_of (d_files dir1) name = map_of (d_files dir) name \<and> map_of (d_disk dir1) name = map_of (d_disk dir) name"
    and d: "d \<in> {dir1, fileOp (RenameFile t u) dir1, fileOp SyncDir (fileOp (RenameFile t u) dir1)}"
  shows "(\<exists>kept'. fileAt (powerLoss kept d) name = fileAt (powerLoss kept' dir) name) \<or>
    name = u \<and> fileAt (powerLoss kept d) name = Some (complete p)"
proof (cases "name = u \<and> map_of (if name \<in> kept then d_files d else d_disk d) name = Some (complete p)")
  case True
  then have "fileAt (powerLoss kept d) name = Some ((complete p)\<lparr>f_seen := f_durable (complete p)\<rparr>)"
    unfolding fileAt_powerLoss by (cases "name \<in> kept") auto
  with True show ?thesis by (simp add: complete_def)
next
  case False
  then have "map_of (if name \<in> kept then d_files d else d_disk d) name \<in> {map_of (d_files dir) name, map_of (d_disk dir) name}"
    using d k1 install_map [OF m1, of u] nt by (auto split: if_splits)
  then have "fileAt (powerLoss kept d) name = fileAt (powerLoss UNIV dir) name \<or>
      fileAt (powerLoss kept d) name = fileAt (powerLoss {} dir) name"
    unfolding fileAt_powerLoss by (cases "name \<in> kept") auto
  then show ?thesis by blast
qed

subsection \<open>Choosing the newest file\<close>

definition position :: "SnapshotState \<Rightarrow> string \<Rightarrow> u64 \<times> u64 \<times> string" where
  "position s name = (sn_IncludedIndex s, sn_IncludedTerm s, name)"

lemma supersedes_position: "supersedes s name (Some (b, bn)) \<longleftrightarrow> position b bn < position s name"
  by (auto simp: supersedes_def position_def)

lemma supersedes_None [simp]: "supersedes s name None" by (simp add: supersedes_def)

text \<open>A file the loop takes into account.\<close>

definition candidate ::
  "(string \<Rightarrow> SnapshotError + SnapshotState) \<Rightarrow> Compatibility \<Rightarrow> string \<Rightarrow> SnapshotState \<Rightarrow> bool" where
  "candidate rd c name s \<longleftrightarrow> rd name = Inr s \<and> sn_Identity s = cp_Identity c \<and> matchesWAL s c = Some True"

lemma loadLoop_newest:
  assumes "loadLoop rd c names newest = Inr (Some (s, n))"
  shows "(newest = Some (s, n) \<or> n \<in> set names \<and> candidate rd c n s) \<and>
    (\<forall>b bn. newest = Some (b, bn) \<longrightarrow> position b bn \<le> position s n) \<and>
    (\<forall>m\<in>set names. \<forall>b. candidate rd c m b \<longrightarrow> position b m \<le> position s n)"
  using assms
proof (induction names arbitrary: newest)
  case (Cons m names)
  obtain b where b: "rd m = Inr b" "sn_Identity b = cp_Identity c"
    using Cons.prems by (auto simp: equalIdentity_eq split: sum.splits if_splits)
  let ?new = "if supersedes b m newest then Some (b, m) else newest"
  show ?case
  proof (cases "matchesWAL b c = Some True")
    case False
    with Cons b show ?thesis by (auto simp: equalIdentity_eq candidate_def)
  next
    case True
    then have rec: "loadLoop rd c names ?new = Inr (Some (s, n))"
      using Cons.prems b by (simp add: equalIdentity_eq)
    have "position b m \<le> position s n"
      using Cons.IH [OF rec] by (cases newest) (auto simp: supersedes_position split: if_splits)
    moreover have "position a an \<le> position s n" if "newest = Some (a, an)" for a an
      using Cons.IH [OF rec] that by (auto simp: supersedes_position split: if_splits)
    moreover have "candidate rd c m b" using b True by (simp add: candidate_def)
    ultimately show ?thesis
      using Cons.IH [OF rec] b(1) by (auto simp: candidate_def split: if_splits)
  qed
qed simp

lemma loadLoop_None:
  assumes "loadLoop rd c names newest = Inr None"
  shows "newest = None \<and> (\<forall>m\<in>set names. \<forall>b. \<not> candidate rd c m b)"
  using assms
proof (induction names arbitrary: newest)
  case (Cons m names)
  then show ?case
    by (force simp: candidate_def supersedes_def split: sum.splits if_splits)
qed simp

subsection \<open>Properties\<close>

text \<open>The text of a state: keys and identities.\<close>

definition text_ok :: "SnapshotState \<Rightarrow> bool" where
  "text_ok s \<longleftrightarrow> ValidString (sid_ClusterID (sn_Identity s)) \<and> ValidString (sid_NodeID (sn_Identity s)) \<and>
     (\<forall>m\<in>set (sid_MemberIDs (sn_Identity s)). ValidString m) \<and> (\<forall>k\<in>dom (sn_Values s). ValidString k)"

text \<open>What the code relies on of \<^verbatim>\<open>encoding/json\<close>: decoding what was encoded gives the state back and
  then reports the end of the input.\<close>

definition json_codec ::
  "(SnapshotState \<Rightarrow> byte list option) \<Rightarrow> (byte list \<Rightarrow> (SnapshotState \<times> bool) option) \<Rightarrow> bool" where
  "json_codec marshal unmarshal \<longleftrightarrow>
     (\<forall>s p. text_ok s \<longrightarrow> marshal s = Some p \<longrightarrow> unmarshal p = Some (s, True))"

lemma Save_Inr:
  assumes "Save marshal random fault fault' dir s = (dir', Inr name)"
  obtains p where "validateState s = None" "marshal s = Some p" "length p \<le> maxPayloadSize"
    "name = finalName (temporaryName random s)"
    "map_of (d_files dir') = (map_of (d_files dir))(temporaryName random s := None, name \<mapsto> complete p)"
    "d_disk dir' = d_files dir'"
proof -
  let ?t = "temporaryName random s"
  obtain p dir1 where v: "validateState s = None" "marshal s = Some p" "length p \<le> maxPayloadSize"
    and d1: "runOps fault (prepareOps ?t p) dir = (dir1, True)"
    and i: "runOps fault' (installOps ?t) dir1 = (dir', True)" "name = finalName ?t"
    using assms
    by (auto simp: Save_def Let_def split: option.splits if_splits prod.splits bool.splits)
  have "dir' = fileOp SyncDir (fileOp (RenameFile ?t (finalName ?t)) dir1)"
    using i(1) by (cases "(fault', installOps ?t, dir1)" rule: runOps.cases)
      (auto simp: installOps_def elim: runOps.elims split: if_splits)
  with install_map(1) [OF prepare_done [OF d1]] i(2) that [OF v] show thesis by simp
qed

text \<open>C19. A saved Snapshot is readable: when \<^verbatim>\<open>Save\<close> reports success, reading the file it names gives
  back the saved state, also after a loss of power, whichever unsynced changes of the directory are lost
  with it, and no other installed Snapshot is touched.\<close>

theorem saved_snapshot_readable:
  assumes "json_codec marshal unmarshal" and "text_ok s"
    and "Save marshal random fault fault' dir s = (dir', Inr name)"
  shows "read_file unmarshal dir' name = Inr s \<and> (\<forall>kept. read_file unmarshal (powerLoss kept dir') name = Inr s) \<and>
    (\<forall>other. glob ''snapshot-'' ''.qsnap'' other \<and> other \<noteq> name \<longrightarrow> fileAt dir' other = fileAt dir other)"
proof -
  from assms(3) obtain p where p: "validateState s = None" "marshal s = Some p" "length p \<le> maxPayloadSize"
    and m: "map_of (d_files dir') = (map_of (d_files dir))(temporaryName random s := None, name \<mapsto> complete p)"
      "d_disk dir' = d_files dir'"
    by (rule Save_Inr)
  have "unmarshal p = Some (s, True)" using assms(1,2) p(2) by (auto simp: json_codec_def)
  then have d: "snapshot_decode unmarshal (snapshotHeader p @ p) = Inr s"
    using decode_header [OF p(3)] p(1) by simp
  have "map_of (d_files dir') name = Some (complete p)" using m by simp
  then have "fileAt dir' name = Some (complete p)" "\<forall>kept. fileAt (powerLoss kept dir') name = Some (complete p)"
    unfolding fileAt_powerLoss m(2) by (simp_all add: complete_def fileAt_def)
  moreover have "fileAt dir' other = fileAt dir other" if "glob ''snapshot-'' ''.qsnap'' other" "other \<noteq> name" for other
    using that m(1) glob_tmp by (auto simp: fileAt_def)
  ultimately show ?thesis using d p(3) by (simp add: read_file_def complete_def)
qed

text \<open>A small state, and a codec that knows it.\<close>

definition sample_snapshot :: SnapshotState where
  "sample_snapshot =
     \<lparr>sn_Identity = \<lparr>sid_ClusterID = ''c'', sid_NodeID = ''n1'', sid_MemberIDs = [''n1'', ''n2'', ''n3'']\<rparr>,
      sn_IncludedIndex = 4, sn_IncludedTerm = 2, sn_Values = [''k'' \<mapsto> [1, 2]],
      sn_Sessions = [\<lparr>ss_ID = replicate 16 7, ss_Closed = False, ss_LastSequence = 1, ss_LastResult = 0,
        ss_LastDeleteExisted = False\<rparr>]\<rparr>"

definition sample_marshal :: "SnapshotState \<Rightarrow> byte list option" where
  "sample_marshal s = (if s = sample_snapshot then Some [1, 2, 3] else None)"

definition sample_unmarshal :: "byte list \<Rightarrow> (SnapshotState \<times> bool) option" where
  "sample_unmarshal p = (if p = [1, 2, 3] then Some (sample_snapshot, True) else None)"

lemma sample_json: "json_codec sample_marshal sample_unmarshal"
  by (simp add: json_codec_def sample_marshal_def sample_unmarshal_def)

lemma sample_snapshot_text: "text_ok sample_snapshot"
  by (simp add: text_ok_def sample_snapshot_def ValidString_def bytes_of_def byte_of_def)

lemma sample_snapshot_valid: "validateState sample_snapshot = None"
  by code_simp

text \<open>A directory with one installed file.\<close>

definition sample_dir :: Dir where
  "sample_dir = (let files = [(finalName (temporaryName ''9'' sample_snapshot), complete [1, 2, 3])]
     in \<lparr>d_files = files, d_disk = files\<rparr>)"

lemma sample_saved:
  "Save sample_marshal ''9'' None None emptyDir sample_snapshot =
     (sample_dir, Inr (finalName (temporaryName ''9'' sample_snapshot)))"
proof -
  have "finalName (temporaryName ''9'' sample_snapshot) \<noteq> temporaryName ''9'' sample_snapshot"
    using glob_final glob_tmp by metis
  then show ?thesis
    by (simp add: Save_def sample_snapshot_valid sample_marshal_def prepareOps_def installOps_def
      maxPayloadSize_def complete_def Let_def sample_dir_def emptyDir_def)
qed

theorem saved_snapshot_readable_witness:
  "\<exists>dir' name. Save sample_marshal ''9'' None None emptyDir sample_snapshot = (dir', Inr name) \<and>
     read_file sample_unmarshal (powerLoss {} dir') name = Inr sample_snapshot"
  using saved_snapshot_readable [OF sample_json sample_snapshot_text sample_saved] sample_saved by blast

text \<open>C20. Installing a Snapshot is atomic: if the machine loses power after any number of the file
  operations of \<^verbatim>\<open>Save\<close>, with any of the unsynced changes of the directory, every installed Snapshot file is
  one that a loss of power before \<^verbatim>\<open>Save\<close> could have left, except that the new file may be there, complete. A
  partially written Snapshot is never visible.\<close>

theorem snapshot_install_atomic:
  assumes "glob ''snapshot-'' ''.qsnap'' name"
  shows "let t = temporaryName random s;
      dir' = powerLoss kept (fst (runOps (Some k) (prepareOps t p @ installOps t) dir))
    in (\<exists>kept'. fileAt dir' name = fileAt (powerLoss kept' dir) name) \<or>
       (name = finalName t \<and> fileAt dir' name = Some (complete p))"
proof -
  let ?t = "temporaryName random s"
  have nt: "name \<noteq> ?t" using assms glob_tmp by metis
  have split: "fst (runOps (Some k) (xs @ ys) d) =
      (if k < length xs then fst (runOps (Some k) xs d)
       else fst (runOps (Some (k - length xs)) ys (fst (runOps None xs d))))" for k xs ys d
    by (induction xs arbitrary: k d; case_tac k) auto
  show ?thesis
  proof (cases "k < length (prepareOps ?t p)")
    case True
    have "fileAt (powerLoss kept (fst (runOps (Some k) (prepareOps ?t p) dir))) name = fileAt (powerLoss kept dir) name"
      using prepare_other [OF nt] by (simp add: fileAt_powerLoss)
    with True show ?thesis by (auto simp: split Let_def)
  next
    case False
    obtain dir1 where d1: "runOps None (prepareOps ?t p) dir = (dir1, True)"
      by (simp add: prepareOps_def)
    note m1 = prepare_done [OF d1] and k1 = prepare_other [OF nt, of None p dir, unfolded d1 fst_conv]
    let ?j = "k - length (prepareOps ?t p)" and ?dir2 = "fileOp (RenameFile ?t (finalName ?t)) dir1"
    have j: "fst (runOps (Some ?j) (installOps ?t) dir1) \<in> {dir1, ?dir2, fileOp SyncDir ?dir2}"
      by (cases ?j; cases "?j - 1") (auto simp: installOps_def)
    show ?thesis using installing_lossy [OF m1 nt k1 j, of kept] False d1 by (simp add: split Let_def)
  qed
qed

theorem snapshot_install_atomic_witness:
  "let t = temporaryName ''9'' sample_snapshot;
      dir' = powerLoss {} (fst (runOps (Some 3) (prepareOps t [1, 2, 3] @ installOps t) emptyDir))
    in (\<exists>kept'. fileAt dir' (finalName t) = fileAt (powerLoss kept' emptyDir) (finalName t)) \<or>
       (finalName t = finalName t \<and> fileAt dir' (finalName t) = Some (complete [1, 2, 3]))"
  using snapshot_install_atomic [of "finalName (temporaryName ''9'' sample_snapshot)" "''9''" sample_snapshot "{}" 3
      "[1, 2, 3]" emptyDir] glob_final
  by (simp only: Let_def simp_thms)

text \<open>C21. Corruption is rejected: whatever bytes are presented, \<^verbatim>\<open>Decode\<close> returns a state only for a
  file that consists of the header of a payload and that payload, with the checksum the payload has,
  and only a state that passes validation.\<close>

theorem decode_accepts_only_intact:
  assumes "Decode unmarshal contents = Inr state"
  shows "\<exists>p. contents = snapshotHeader p @ p \<and> length p \<le> maxPayloadSize \<and>
    unmarshal p = Some (state, True) \<and> validateState state = None"
  using assms unfolding Decode_def by (rule decode_Inr) blast

theorem decode_accepts_only_intact_witness:
  "\<exists>p. snapshotHeader [1, 2, 3] @ [1, 2, 3] = snapshotHeader p @ p \<and> sample_unmarshal p = Some (sample_snapshot, True)"
proof -
  have "Decode sample_unmarshal (snapshotHeader [1, 2, 3] @ [1, 2, 3]) = Inr sample_snapshot"
    using decode_header [of "[1, 2, 3]" sample_unmarshal]
    by (simp add: Decode_def sample_unmarshal_def sample_snapshot_valid maxPayloadSize_def)
  from decode_accepts_only_intact [OF this] show ?thesis by blast
qed

text \<open>C22. The newest compatible Snapshot wins: when \<^verbatim>\<open>LoadNewest\<close> returns a state, it was read from an
  installed file, belongs to the configured Cluster and Node, agrees with the write-ahead log, and no
  other such file has a later position; it returns nothing only when no file is installed.\<close>

theorem load_newest_compatible:
  assumes "LoadNewest unmarshal dir c = Inr result"
  shows "case result of
      None \<Rightarrow> globFiles ''snapshot-'' dir = []
    | Some s \<Rightarrow> (\<exists>name\<in>set (globFiles ''snapshot-'' dir). candidate (read_file unmarshal dir) c name s) \<and>
        (\<forall>name\<in>set (globFiles ''snapshot-'' dir). \<forall>b. candidate (read_file unmarshal dir) c name b \<longrightarrow>
           (sn_IncludedIndex b, sn_IncludedTerm b) \<le> (sn_IncludedIndex s, sn_IncludedTerm s))"
proof (cases result)
  case None
  with assms show ?thesis by (auto simp: LoadNewest_def Let_def split: sum.splits if_splits)
next
  case (Some s)
  with assms obtain n where
    "loadLoop (read_file unmarshal dir) c (rev (globFiles ''snapshot-'' dir)) None = Inr (Some (s, n))"
    by (auto simp: LoadNewest_def Let_def split: sum.splits if_splits)
  from loadLoop_newest [OF this] Some show ?thesis by (fastforce simp: position_def)
qed

definition sample_compatibility :: "u64 \<Rightarrow> Compatibility" where
  "sample_compatibility commit = \<lparr>cp_Identity = sn_Identity sample_snapshot, cp_CommitIndex = commit,
     cp_LogStartIndex = 1, cp_LogTerms = [1, 1, 1, 2, 2], cp_SnapshotIndex = 0, cp_SnapshotTerm = 0\<rparr>"

lemma sample_dir_read:
  "read_file sample_unmarshal sample_dir (finalName (temporaryName ''9'' sample_snapshot)) = Inr sample_snapshot"
  using decode_header [of "[1, 2, 3]" sample_unmarshal]
  by (simp add: read_file_def fileAt_def sample_dir_def Let_def complete_def sample_unmarshal_def sample_snapshot_valid maxPayloadSize_def)

lemma sample_dir_glob:
  "globFiles ''snapshot-'' sample_dir = [finalName (temporaryName ''9'' sample_snapshot)]"
  by (simp add: globFiles_def sample_dir_def Let_def glob_final)

theorem load_newest_compatible_witness:
  "LoadNewest sample_unmarshal sample_dir (sample_compatibility 5) = Inr (Some sample_snapshot) \<and>
   (\<exists>name\<in>set (globFiles ''snapshot-'' sample_dir).
      candidate (read_file sample_unmarshal sample_dir) (sample_compatibility 5) name sample_snapshot)"
proof -
  have c: "matchesWAL sample_snapshot (sample_compatibility 5) = Some True" by code_simp
  have i: "equalIdentity (sn_Identity sample_snapshot) (cp_Identity (sample_compatibility 5))"
    by (simp add: equalIdentity_eq sample_compatibility_def)
  have l: "LoadNewest sample_unmarshal sample_dir (sample_compatibility 5) = Inr (Some sample_snapshot)"
    by (simp add: LoadNewest_def sample_dir_glob sample_dir_read c i)
  with load_newest_compatible [OF l] show ?thesis by simp
qed

text \<open>Without a file that agrees with the write-ahead log \<^verbatim>\<open>LoadNewest\<close> fails.\<close>

lemma LoadNewest_incompatible:
  assumes "globFiles ''snapshot-'' dir \<noteq> []"
    and "\<forall>name\<in>set (globFiles ''snapshot-'' dir). \<forall>b. \<not> candidate (read_file unmarshal dir) c name b"
  shows "\<exists>err. LoadNewest unmarshal dir c = Inl err"
proof (cases "loadLoop (read_file unmarshal dir) c (rev (globFiles ''snapshot-'' dir)) None")
  case (Inr newest)
  have "newest = None"
  proof (rule ccontr)
    assume "newest \<noteq> None"
    with Inr obtain s n where "loadLoop (read_file unmarshal dir) c (rev (globFiles ''snapshot-'' dir)) None = Inr (Some (s, n))"
      by auto
    from loadLoop_newest [OF this] assms(2) show False by auto
  qed
  with Inr assms(1) show ?thesis by (simp add: LoadNewest_def)
qed (simp add: LoadNewest_def)

lemma Save_keeps_other:
  assumes "Save marshal random fault fault' dir s = (dir', Inr name)" "glob ''snapshot-'' ''.qsnap'' other" "other \<noteq> name"
  shows "fileAt dir' other = fileAt dir other"
  using assms(1)
proof (rule Save_Inr)
  fix p assume "map_of (d_files dir') = (map_of (d_files dir))(temporaryName random s := None, name \<mapsto> complete p)"
  then show ?thesis using assms(2,3) glob_tmp by (auto simp: fileAt_def)
qed

lemma globFiles_iff: "other \<in> set (globFiles ''snapshot-'' dir) \<longleftrightarrow> glob ''snapshot-'' ''.qsnap'' other \<and> fileAt dir other \<noteq> None"
  by (auto simp: globFiles_def fileAt_def map_of_eq_None_iff)

text \<open>A Snapshot beyond the durable commit index does not help a directory that has no other.\<close>

lemma premature_snapshot_incompatible:
  assumes json: "json_codec marshal unmarshal" "text_ok s"
    and save: "Save marshal random fault fault' dir s = (dir', Inr name)" and ahead: "cp_CommitIndex c < sn_IncludedIndex s"
    and none: "\<forall>n\<in>set (globFiles ''snapshot-'' dir). \<forall>b. \<not> candidate (read_file unmarshal dir) c n b"
  shows "\<exists>err. LoadNewest unmarshal dir' c = Inl err"
proof (rule LoadNewest_incompatible)
  from save obtain p where p: "validateState s = None" "marshal s = Some p" "length p \<le> maxPayloadSize"
    and n: "name = finalName (temporaryName random s)" and m: "map_of (d_files dir') name = Some (complete p)"
    by (rule Save_Inr) auto
  have rd: "read_file unmarshal dir' name = Inr s"
    using json p m decode_header [OF p(3), of unmarshal] by (auto simp: json_codec_def read_file_def fileAt_def complete_def)
  have "name \<in> set (globFiles ''snapshot-'' dir')" using m n glob_final by (simp add: globFiles_iff fileAt_def)
  then show "globFiles ''snapshot-'' dir' \<noteq> []" by auto
  have "matchesWAL s c = Some False" using ahead by (simp add: matchesWAL_def)
  then have "\<not> candidate (read_file unmarshal dir') c name b" for b using rd by (auto simp: candidate_def)
  moreover have "\<not> candidate (read_file unmarshal dir') c other b"
    if "other \<in> set (globFiles ''snapshot-'' dir')" "other \<noteq> name" for other b
    using that none Save_keeps_other [OF save _ that(2)] by (auto simp: globFiles_iff candidate_def read_file_def)
  ultimately show "\<forall>n\<in>set (globFiles ''snapshot-'' dir'). \<forall>b. \<not> candidate (read_file unmarshal dir') c n b" by metis
qed

end
