(* ===== verification/Sessions.thy ===== *)
theory Sessions
  imports Raft_Types Snapshot_File
begin

text \<open>
  The replicated state machine, \<^verbatim>\<open>src/internal/node/session.go\<close> and the Snapshot functions of
  \<^verbatim>\<open>src/internal/node/snapshot.go\<close>: Client Sessions with their mutation sequences, the key-value
  store, and their image in a Snapshot. The map of sessions is an association list, because the code
  iterates over it to build a Snapshot; the list order stands for Go's unspecified iteration order,
  on which no Snapshot depends.

  Shown here: the count of active sessions is right and within the limit; each session's mutations
  take effect in sequence order and at most once over any history; a retry repeats the first answer;
  and a Snapshot restores to a machine that behaves alike.
\<close>

subsection \<open>State\<close>

datatype sessionFailure =
    sessionSucceeded | sessionLimitReached | sessionUnknown | sessionClosed | sessionAlreadyExists
  | sessionStaleSequence | sessionOutOfOrderSequence

text \<open>The conversions \<^verbatim>\<open>uint8(failure)\<close> and \<^verbatim>\<open>sessionFailure(byte)\<close>.\<close>

fun failureByte :: "sessionFailure \<Rightarrow> byte" where
  "failureByte sessionSucceeded = 0"
| "failureByte sessionLimitReached = 1"
| "failureByte sessionUnknown = 2"
| "failureByte sessionClosed = 3"
| "failureByte sessionAlreadyExists = 4"
| "failureByte sessionStaleSequence = 5"
| "failureByte sessionOutOfOrderSequence = 6"

definition failureOf :: "byte \<Rightarrow> sessionFailure" where
  "failureOf b =
     [sessionSucceeded, sessionLimitReached, sessionUnknown, sessionClosed, sessionAlreadyExists,
      sessionStaleSequence, sessionOutOfOrderSequence] ! unat b"

lemma failureOf_byte [simp]: "failureOf (failureByte f) = f"
  by (cases f) (simp_all add: failureOf_def)

lemma failureByte_le: "failureByte f \<le> failureByte sessionOutOfOrderSequence"
  by (cases f) simp_all

record proposalResult =
  res_sessionID :: SessionID
  res_failure :: sessionFailure
  res_sequence :: u64
  res_wantSequence :: u64
  res_leaderID :: NodeID
  res_rejected :: bool
  res_existed :: bool

datatype sessionState = sessionActive | sessionPermanentlyClosed

record sessionRecord =
  sr_state :: sessionState
  sr_lastSequence :: u64
  sr_lastMutationResult :: sessionFailure
  sr_lastDeleteExisted :: bool

record sessionMachine =
  sm_limit :: int
  sm_active :: int
  sm_sessions :: "(SessionID \<times> sessionRecord) list"
  sm_values :: "string \<rightharpoonup> byte list"

definition newSessionMachine :: "int \<Rightarrow> sessionMachine" where
  "newSessionMachine limit = \<lparr>sm_limit = limit, sm_active = 0, sm_sessions = [], sm_values = Map.empty\<rparr>"

text \<open>A result with only the fields the code sets; the others have their zero value.\<close>

definition zeroResult :: proposalResult where
  "zeroResult =
     \<lparr>res_sessionID = zeroSessionID, res_failure = sessionSucceeded, res_sequence = 0, res_wantSequence = 0,
      res_leaderID = '''', res_rejected = False, res_existed = False\<rparr>"

subsection \<open>Operations\<close>

definition evaluateMutation :: "sessionMachine \<Rightarrow> SessionID \<Rightarrow> u64 \<Rightarrow> proposalResult \<times> bool" where
  "evaluateMutation m sessionID sequence =
     (let result = zeroResult\<lparr>res_sessionID := sessionID, res_sequence := sequence\<rparr> in
      case map_of (sm_sessions m) sessionID of
        None \<Rightarrow> (result\<lparr>res_failure := sessionUnknown\<rparr>, False)
      | Some r \<Rightarrow>
          if sr_state r = sessionPermanentlyClosed then (result\<lparr>res_failure := sessionClosed\<rparr>, False)
          else if sequence = sr_lastSequence r \<and> sequence \<noteq> 0
          then (result\<lparr>res_failure := sr_lastMutationResult r, res_existed := sr_lastDeleteExisted r\<rparr>, False)
          else if sequence < sr_lastSequence r
          then (result\<lparr>res_failure := sessionStaleSequence, res_wantSequence := sr_lastSequence r\<rparr>, False)
          else if sequence \<noteq> sr_lastSequence r + 1
          then (result\<lparr>res_failure := sessionOutOfOrderSequence, res_wantSequence := sr_lastSequence r + 1\<rparr>, False)
          else (result, True))"

text \<open>The update of a session record after its mutation took effect.\<close>

definition recordMutation ::
  "sessionMachine \<Rightarrow> SessionID \<Rightarrow> sessionRecord \<Rightarrow> u64 \<Rightarrow> sessionFailure \<Rightarrow> bool \<Rightarrow> sessionMachine" where
  "recordMutation m sid r sequence failure existed =
     m\<lparr>sm_sessions := AList.update sid
         (r\<lparr>sr_lastSequence := sequence, sr_lastMutationResult := failure, sr_lastDeleteExisted := existed\<rparr>)
         (sm_sessions m)\<rparr>"

text \<open>\<^verbatim>\<open>apply\<close>; \<open>None\<close> is the panic on an entry type the machine does not know. A mutation that
  \<^verbatim>\<open>evaluateMutation\<close> admits finds its record, so the zero record of a missing key is never read.\<close>

definition zeroRecord :: sessionRecord where
  "zeroRecord = \<lparr>sr_state = sessionActive, sr_lastSequence = 0, sr_lastMutationResult = sessionSucceeded,
     sr_lastDeleteExisted = False\<rparr>"

definition applyEntry :: "sessionMachine \<Rightarrow> LogEntry \<Rightarrow> (sessionMachine \<times> proposalResult) option" where
  "applyEntry m entry =
     (let sid = e_SessionID entry; result = zeroResult\<lparr>res_sessionID := sid\<rparr> in
      if e_Type entry = EntryNoOp then Some (m, result)
      else if e_Type entry = EntryOpenSession
      then Some (if map_of (sm_sessions m) sid \<noteq> None then (m, result\<lparr>res_failure := sessionAlreadyExists\<rparr>)
                 else if sm_active m \<ge> sm_limit m then (m, result\<lparr>res_failure := sessionLimitReached\<rparr>)
                 else (m\<lparr>sm_sessions := AList.update sid zeroRecord (sm_sessions m), sm_active := sm_active m + 1\<rparr>,
                       result))
      else if e_Type entry = EntryCloseSession
      then Some (case map_of (sm_sessions m) sid of
                   None \<Rightarrow> (m, result\<lparr>res_failure := sessionUnknown\<rparr>)
                 | Some r \<Rightarrow>
                     if sr_state r = sessionPermanentlyClosed then (m, result\<lparr>res_failure := sessionClosed\<rparr>)
                     else (m\<lparr>sm_sessions := AList.update sid (r\<lparr>sr_state := sessionPermanentlyClosed\<rparr>) (sm_sessions m),
                             sm_active := sm_active m - 1\<rparr>, result))
      else if e_Type entry = EntrySet
      then Some (let (result, ok) = evaluateMutation m sid (e_Sequence entry) in
                 if \<not> ok then (m, result)
                 else let r = (case map_of (sm_sessions m) sid of None \<Rightarrow> zeroRecord | Some r \<Rightarrow> r);
                          m = m\<lparr>sm_values := (sm_values m)(e_Key entry \<mapsto> e_Value entry)\<rparr>
                      in (recordMutation m sid r (e_Sequence entry) (res_failure result) False, result))
      else if e_Type entry = EntryDelete
      then Some (let (result, ok) = evaluateMutation m sid (e_Sequence entry) in
                 if \<not> ok then (m, result)
                 else let r = (case map_of (sm_sessions m) sid of None \<Rightarrow> zeroRecord | Some r \<Rightarrow> r);
                          result = result\<lparr>res_existed := (sm_values m (e_Key entry) \<noteq> None)\<rparr>;
                          m = m\<lparr>sm_values := map_delete (sm_values m) (e_Key entry)\<rparr>
                      in (recordMutation m sid r (e_Sequence entry) (res_failure result) (res_existed result), result))
      else None)"

text \<open>\<^verbatim>\<open>get\<close>; a missing key reads as an empty value.\<close>

definition machine_get :: "sessionMachine \<Rightarrow> string \<Rightarrow> byte list \<times> bool" where
  "machine_get m key = (case sm_values m key of None \<Rightarrow> ([], False) | Some v \<Rightarrow> (v, True))"

subsection \<open>Snapshots\<close>

definition sessionImage :: "SessionID \<times> sessionRecord \<Rightarrow> Session" where
  "sessionImage p = (case p of (sid, r) \<Rightarrow>
     \<lparr>ss_ID = sid, ss_Closed = (sr_state r = sessionPermanentlyClosed), ss_LastSequence = sr_lastSequence r,
      ss_LastResult = failureByte (sr_lastMutationResult r), ss_LastDeleteExisted = sr_lastDeleteExisted r\<rparr>)"

definition machine_snapshot :: "sessionMachine \<Rightarrow> Identity \<Rightarrow> u64 \<Rightarrow> u64 \<Rightarrow> SnapshotState" where
  "machine_snapshot m identity includedIndex includedTerm =
     \<lparr>sn_Identity = identity, sn_IncludedIndex = includedIndex, sn_IncludedTerm = includedTerm,
      sn_Values = sm_values m, sn_Sessions = sort_key ss_ID (map sessionImage (sm_sessions m))\<rparr>"

datatype restoreError = unknownResult SessionID byte | tooManyActive int int

fun restoreSessions :: "sessionMachine \<Rightarrow> Session list \<Rightarrow> sessionMachine \<times> restoreError option" where
  "restoreSessions m [] = (m, None)"
| "restoreSessions m (saved # rest) =
     (if ss_LastResult saved > failureByte sessionOutOfOrderSequence
      then (m, Some (unknownResult (ss_ID saved) (ss_LastResult saved)))
      else
        let r = \<lparr>sr_state = (if ss_Closed saved then sessionPermanentlyClosed else sessionActive),
                 sr_lastSequence = ss_LastSequence saved,
                 sr_lastMutationResult = failureOf (ss_LastResult saved),
                 sr_lastDeleteExisted = ss_LastDeleteExisted saved\<rparr>;
            m = (if ss_Closed saved then m else m\<lparr>sm_active := sm_active m + 1\<rparr>)
        in restoreSessions (m\<lparr>sm_sessions := AList.update (ss_ID saved) r (sm_sessions m)\<rparr>) rest)"

definition machine_restore :: "sessionMachine \<Rightarrow> SnapshotState option \<Rightarrow> sessionMachine \<times> restoreError option" where
  "machine_restore m state =
     (case state of
        None \<Rightarrow> (m, None)
      | Some st \<Rightarrow>
          (case restoreSessions (m\<lparr>sm_active := 0, sm_sessions := [], sm_values := sn_Values st\<rparr>) (sn_Sessions st) of
             (m, Some err) \<Rightarrow> (m, Some err)
           | (m, None) \<Rightarrow>
               (m, if sm_active m > sm_limit m then Some (tooManyActive (sm_active m) (sm_limit m)) else None)))"

definition snapshotClusterMatches :: "Identity \<Rightarrow> Identity \<Rightarrow> bool" where
  "snapshotClusterMatches got want \<longleftrightarrow>
     sid_ClusterID got = sid_ClusterID want \<and> length (sid_MemberIDs got) = length (sid_MemberIDs want) \<and>
     list_all2 (=) (sid_MemberIDs got) (sid_MemberIDs want)"

subsection \<open>One entry\<close>

lemmas alist_update = update_conv' distinct_update

definition lastSequence :: "sessionMachine \<Rightarrow> SessionID \<Rightarrow> u64" where
  "lastSequence m sid = (case map_of (sm_sessions m) sid of None \<Rightarrow> 0 | Some r \<Rightarrow> sr_lastSequence r)"

definition mutation :: "LogEntry \<Rightarrow> bool" where
  "mutation e \<longleftrightarrow> e_Type e = EntrySet \<or> e_Type e = EntryDelete"

definition takesEffect :: "sessionMachine \<Rightarrow> LogEntry \<Rightarrow> bool" where
  "takesEffect m e \<longleftrightarrow> mutation e \<and> snd (evaluateMutation m (e_SessionID e) (e_Sequence e))"

text \<open>What a mutation does to the key-value store.\<close>

definition mutate :: "LogEntry \<Rightarrow> (string \<rightharpoonup> byte list) \<Rightarrow> (string \<rightharpoonup> byte list)" where
  "mutate e vs = (if e_Type e = EntrySet then vs(e_Key e \<mapsto> e_Value e) else map_delete vs (e_Key e))"

lemma evaluateMutation_True:
  "snd (evaluateMutation m sid sequence) \<longleftrightarrow>
     (\<exists>r. map_of (sm_sessions m) sid = Some r \<and> sr_state r = sessionActive \<and> sequence = sr_lastSequence r + 1 \<and>
        sr_lastSequence r \<noteq> - 1)"
proof (cases "map_of (sm_sessions m) sid")
  case (Some r)
  have "\<not> sequence < l \<and> \<not> (sequence = l \<and> sequence \<noteq> 0) \<longleftrightarrow> l \<noteq> - 1" if "sequence = l + 1" for l :: u64
  proof (cases "l = - 1")
    case True
    then show ?thesis using that by (simp add: word_less_nat_alt unat_max_u64)
  next
    case False
    then show ?thesis using that word_less_add_one [of l] by auto
  qed
  with Some show ?thesis
    by (cases "sr_state r") (auto simp: evaluateMutation_def Let_def)
qed (simp add: evaluateMutation_def Let_def)

lemma evaluateMutation_result:
  "snd (evaluateMutation m sid sequence) \<Longrightarrow>
     fst (evaluateMutation m sid sequence) = zeroResult\<lparr>res_sessionID := sid, res_sequence := sequence\<rparr>"
  by (auto simp: evaluateMutation_def Let_def split: option.splits if_splits)

lemma takesEffectE:
  assumes "takesEffect m e"
  obtains r where "map_of (sm_sessions m) (e_SessionID e) = Some r" "sr_state r = sessionActive"
    "e_Sequence e = sr_lastSequence r + 1" "unat (e_Sequence e) = Suc (unat (sr_lastSequence r))" "mutation e"
    "snd (evaluateMutation m (e_SessionID e) (e_Sequence e))"
  using assms unat_plus_one_max by (auto simp: takesEffect_def evaluateMutation_True)

text \<open>The machine and the answer after an entry that takes effect.\<close>

lemma applyEntry_effect:
  assumes "takesEffect m e" and r: "map_of (sm_sessions m) (e_SessionID e) = Some r"
  shows "applyEntry m e =
    (let existed = (e_Type e = EntryDelete \<and> sm_values m (e_Key e) \<noteq> None) in
     Some (recordMutation (m\<lparr>sm_values := mutate e (sm_values m)\<rparr>) (e_SessionID e) r (e_Sequence e)
             sessionSucceeded existed,
           zeroResult\<lparr>res_sessionID := e_SessionID e, res_sequence := e_Sequence e, res_existed := existed\<rparr>))"
proof -
  obtain res ok where ev: "evaluateMutation m (e_SessionID e) (e_Sequence e) = (res, ok)" by fastforce
  with assms(1) have "ok" "res = zeroResult\<lparr>res_sessionID := e_SessionID e, res_sequence := e_Sequence e\<rparr>"
    using evaluateMutation_result [of m "e_SessionID e" "e_Sequence e"] by (auto simp: takesEffect_def)
  moreover have "e_Type e = EntrySet \<or> e_Type e = EntryDelete"
    using assms(1) by (simp add: takesEffect_def mutation_def)
  ultimately show ?thesis
    using ev r by (auto simp: applyEntry_def Let_def mutate_def zeroResult_def)
qed

text \<open>Any other entry leaves the store and every mutation sequence alone.\<close>

lemma applyEntry_no_effect:
  assumes "\<not> takesEffect m e" "applyEntry m e = Some (m', res)"
  shows "sm_values m' = sm_values m" "lastSequence m' = lastSequence m"
proof -
  have "sm_values m' = sm_values m \<and> lastSequence m' sid = lastSequence m sid" for sid
    using assms
    by (cases "evaluateMutation m (e_SessionID e) (e_Sequence e)")
       (auto simp: takesEffect_def mutation_def applyEntry_def Let_def lastSequence_def zeroRecord_def update_conv'
         split: if_splits option.splits)
  then show "sm_values m' = sm_values m" "lastSequence m' = lastSequence m" by auto
qed

lemma applyEntry_effect_state:
  assumes "takesEffect m e" "applyEntry m e = Some (m', res)"
  shows "sm_values m' = mutate e (sm_values m)"
    "lastSequence m' = (lastSequence m)(e_SessionID e := e_Sequence e)"
    "unat (e_Sequence e) = Suc (unat (lastSequence m (e_SessionID e)))"
proof -
  from assms(1) obtain r where r: "map_of (sm_sessions m) (e_SessionID e) = Some r"
    "unat (e_Sequence e) = Suc (unat (sr_lastSequence r))" by (rule takesEffectE)
  note a = applyEntry_effect [OF assms(1) r(1)]
  show "sm_values m' = mutate e (sm_values m)"
    "lastSequence m' = (lastSequence m)(e_SessionID e := e_Sequence e)"
    "unat (e_Sequence e) = Suc (unat (lastSequence m (e_SessionID e)))"
    using a assms(2) r by (auto simp: recordMutation_def Let_def lastSequence_def update_conv')
qed

subsection \<open>The invariant\<close>

definition activeIn :: "(SessionID \<rightharpoonup> sessionRecord) \<Rightarrow> SessionID set" where
  "activeIn ss = {sid. \<exists>r. ss sid = Some r \<and> sr_state r = sessionActive}"

abbreviation activeSessions :: "sessionMachine \<Rightarrow> SessionID set" where
  "activeSessions m \<equiv> activeIn (map_of (sm_sessions m))"

definition machine_ok :: "sessionMachine \<Rightarrow> bool" where
  "machine_ok m \<longleftrightarrow> distinct (map fst (sm_sessions m)) \<and> sm_active m = int (card (activeSessions m)) \<and>
     sm_active m \<le> sm_limit m"

lemma finite_activeSessions [simp]: "finite (activeSessions m)"
  by (rule finite_subset [OF _ finite_dom_map_of [of "sm_sessions m"]]) (auto simp: activeIn_def)

lemma new_machine_ok: "0 \<le> limit \<Longrightarrow> machine_ok (newSessionMachine limit)"
  by (simp add: machine_ok_def newSessionMachine_def activeIn_def)

lemma activeIn_upd:
  "activeIn (ss(sid \<mapsto> r)) =
     (if sr_state r = sessionActive then insert sid (activeIn ss) else activeIn ss - {sid})"
  by (auto simp: activeIn_def)

lemma machine_ok_update:
  assumes "machine_ok m" "map_of (sm_sessions m) sid = Some r" "sr_state r' = sr_state r"
  shows "machine_ok (m\<lparr>sm_values := v, sm_sessions := AList.update sid r' (sm_sessions m)\<rparr>)"
proof -
  have "activeIn ((map_of (sm_sessions m))(sid \<mapsto> r')) = activeSessions m"
    using assms(2,3) by (auto simp: activeIn_def)
  then show ?thesis using assms(1) by (simp add: machine_ok_def alist_update)
qed

lemma applyEntry_ok:
  assumes ok: "machine_ok m" and a: "applyEntry m e = Some (m', res)"
  shows "machine_ok m' \<and> sm_limit m' = sm_limit m"
proof (cases "takesEffect m e")
  case True
  then obtain r where r: "map_of (sm_sessions m) (e_SessionID e) = Some r" by (rule takesEffectE)
  show ?thesis
    using applyEntry_effect [OF True r] a machine_ok_update [OF ok r]
    by (auto simp: recordMutation_def Let_def)
next
  case False
  let ?sid = "e_SessionID e"
  show ?thesis
  proof (cases "m' = m")
    case False
    with a \<open>\<not> takesEffect m e\<close> consider
      (opened) "map_of (sm_sessions m) ?sid = None" "sm_active m < sm_limit m"
        "m' = m\<lparr>sm_sessions := AList.update ?sid zeroRecord (sm_sessions m), sm_active := sm_active m + 1\<rparr>"
    | (closed) r where "map_of (sm_sessions m) ?sid = Some r" "sr_state r = sessionActive"
        "m' = m\<lparr>sm_sessions := AList.update ?sid (r\<lparr>sr_state := sessionPermanentlyClosed\<rparr>) (sm_sessions m),
                sm_active := sm_active m - 1\<rparr>"
      by (cases "evaluateMutation m ?sid (e_Sequence e)")
         (auto simp: applyEntry_def Let_def takesEffect_def mutation_def
           split: if_splits option.splits sessionState.splits, (metis sessionState.exhaust)+)
    then show ?thesis
    proof cases
      case opened
      have "?sid \<notin> activeSessions m" using opened(1) by (simp add: activeIn_def)
      then show ?thesis
        using ok opened by (simp add: machine_ok_def alist_update activeIn_upd zeroRecord_def)
    next
      case closed
      have "?sid \<in> activeSessions m" using closed(1,2) by (simp add: activeIn_def)
      moreover have "0 < card (activeSessions m)" using calculation by (auto simp: card_gt_0_iff)
      ultimately show ?thesis using ok closed by (simp add: machine_ok_def alist_update activeIn_upd)
    qed
  qed (simp add: ok)
qed

lemma applyEntry_total: "e_Type e \<le> EntryDelete \<Longrightarrow> \<exists>m' res. applyEntry m e = Some (m', res)"
proof -
  assume "e_Type e \<le> EntryDelete"
  then have "unat (e_Type e) \<in> {0, 1, 2, 3, 4}" by (auto simp: word_le_nat_alt)
  then have "e_Type e \<in> {0, 1, 2, 3, 4}" by (auto simp: word_unat_eq_iff)
  then show ?thesis by (cases "applyEntry m e") (auto simp: applyEntry_def Let_def)
qed

subsection \<open>Histories\<close>

fun run :: "sessionMachine \<Rightarrow> LogEntry list \<Rightarrow> sessionMachine option" where
  "run m [] = Some m"
| "run m (e # es) = do { (m', _) \<leftarrow> applyEntry m e; run m' es }"

text \<open>The entries of a history that took effect.\<close>

fun effective :: "sessionMachine \<Rightarrow> LogEntry list \<Rightarrow> LogEntry list" where
  "effective m [] = []"
| "effective m (e # es) =
     (if takesEffect m e then [e] else []) @
     (case applyEntry m e of None \<Rightarrow> [] | Some (m', _) \<Rightarrow> effective m' es)"

lemma run_ok: "machine_ok m \<Longrightarrow> run m es = Some m' \<Longrightarrow> machine_ok m' \<and> sm_limit m' = sm_limit m"
proof (induction es arbitrary: m)
  case (Cons e es)
  then obtain m1 res where "applyEntry m e = Some (m1, res)" "run m1 es = Some m'"
    by (auto simp: Option.bind_eq_Some_conv)
  with Cons applyEntry_ok show ?case by metis
qed simp

lemma effective_sequences:
  assumes "run m es = Some m'"
  shows "unat (lastSequence m sid) \<le> unat (lastSequence m' sid) \<and>
    map (unat \<circ> e_Sequence) (filter (\<lambda>e. e_SessionID e = sid) (effective m es)) =
      [Suc (unat (lastSequence m sid))..<Suc (unat (lastSequence m' sid))] \<and>
    sm_values m' = fold mutate (effective m es) (sm_values m)"
  using assms
proof (induction es arbitrary: m)
  case (Cons e es)
  then obtain m1 res where a: "applyEntry m e = Some (m1, res)" and rest: "run m1 es = Some m'"
    by (auto simp: Option.bind_eq_Some_conv)
  note IH = Cons.IH [OF rest]
  show ?case
  proof (cases "takesEffect m e")
    case True
    note s = applyEntry_effect_state [OF True a]
    show ?thesis
    proof (cases "e_SessionID e = sid")
      case sid: True
      then have l: "lastSequence m1 sid = e_Sequence e" "unat (e_Sequence e) = Suc (unat (lastSequence m sid))"
        using s(2,3) by simp_all
      have "unat (e_Sequence e) \<le> unat (lastSequence m' sid)" using IH l(1) by simp
      then have "[Suc (unat (lastSequence m sid))..<Suc (unat (lastSequence m' sid))] =
          unat (e_Sequence e) # [Suc (unat (e_Sequence e))..<Suc (unat (lastSequence m' sid))]"
        using l(2) by (simp add: upt_conv_Cons)
      then show ?thesis using IH l True a sid s(1) by simp
    next
      case other: False
      then have "lastSequence m1 sid = lastSequence m sid" using s(2) by simp
      then show ?thesis using IH True a other s(1) by simp
    qed
  next
    case False
    then show ?thesis using IH a applyEntry_no_effect [OF False a] by simp
  qed
qed simp

subsection \<open>Machines that behave alike\<close>

text \<open>Two machines with the same contents; the order of the session list may differ.\<close>

definition machine_like :: "sessionMachine \<Rightarrow> sessionMachine \<Rightarrow> bool" where
  "machine_like m m' \<longleftrightarrow> sm_limit m = sm_limit m' \<and> sm_active m = sm_active m' \<and>
     map_of (sm_sessions m) = map_of (sm_sessions m') \<and> sm_values m = sm_values m'"

lemma applyEntry_like:
  assumes "machine_like m m'"
  shows "rel_option (rel_prod machine_like (=)) (applyEntry m e) (applyEntry m' e)"
proof -
  have "evaluateMutation m = evaluateMutation m'"
    using assms by (simp add: machine_like_def evaluateMutation_def fun_eq_iff)
  then show ?thesis
    using assms unfolding applyEntry_def Let_def
    by (auto simp: machine_like_def update_conv' recordMutation_def split: option.split prod.split)
qed

text \<open>The answers to a history.\<close>

fun replies :: "sessionMachine \<Rightarrow> LogEntry list \<Rightarrow> proposalResult list option" where
  "replies m [] = Some []"
| "replies m (e # es) = do { (m', r) \<leftarrow> applyEntry m e; rs \<leftarrow> replies m' es; Some (r # rs) }"

lemma replies_like: "machine_like m m' \<Longrightarrow> replies m es = replies m' es"
proof (induction es arbitrary: m m')
  case (Cons e es)
  from applyEntry_like [OF Cons.prems, of e] show ?case
    by (cases rule: option.rel_cases) (auto simp: Cons.IH)
qed simp

subsection \<open>Snapshots and their order\<close>

lemma sort_key_images: "sort_key ss_ID (map sessionImage ss) = map sessionImage (sort_key fst ss)"
proof -
  have ins: "insort_key ss_ID (sessionImage p) (map sessionImage qs) = map sessionImage (insort_key fst p qs)" for p qs
    by (induction qs) (auto simp: sessionImage_def split: prod.splits)
  show ?thesis by (induction ss) (simp_all add: ins)
qed

lemma map_of_sort:
  assumes "distinct (map fst ss)"
  shows "map_of (sort_key fst ss) = map_of ss"
proof (rule map_of_eqI)
  have "distinct (map fst (sort_key fst ss))"
    using assms by (simp add: distinct_map inj_on_def)
  then show "\<forall>k\<in>set (map fst (sort_key fst ss)). map_of (sort_key fst ss) k = map_of ss k"
    using assms by (force simp: map_of_eq_Some_iff)
qed simp

lemma sort_alist:
  fixes ss :: "('a::linorder \<times> 'b) list"
  assumes "distinct (map fst ss)"
  shows "sort_key fst ss = map (\<lambda>k. (k, the (map_of ss k))) (sorted_list_of_set (dom (map_of ss)))"
proof -
  let ?s = "sort_key fst ss"
  have d: "distinct (map fst ?s)" using assms by (simp add: distinct_map inj_on_def)
  have "map fst ?s = sorted_list_of_set (set (map fst ?s))"
    using d by (intro sorted_list_of_set.idem_if_sorted_distinct [symmetric]) simp_all
  also have "set (map fst ?s) = dom (map_of ss)" by (simp add: dom_map_of_conv_image_fst)
  finally have keys: "map fst ?s = sorted_list_of_set (dom (map_of ss))" .
  have "map (\<lambda>k. (k, the (map_of ?s k))) (map fst ?s) = ?s"
    unfolding map_map by (rule map_idI) (use d in \<open>auto simp: map_of_is_SomeI [OF d]\<close>)
  then show ?thesis using keys map_of_sort [OF assms] by metis
qed

lemma machine_snapshot_like:
  assumes "machine_like m m'" "distinct (map fst (sm_sessions m))" "distinct (map fst (sm_sessions m'))"
  shows "machine_snapshot m i idx t = machine_snapshot m' i idx t"
  using assms sort_alist [OF assms(2)] sort_alist [OF assms(3)]
  by (simp add: machine_snapshot_def machine_like_def sort_key_images)

subsection \<open>Restoring\<close>

lemma sessionImage_record:
  "\<lparr>sr_state = (if ss_Closed (sessionImage (sid, r)) then sessionPermanentlyClosed else sessionActive),
    sr_lastSequence = ss_LastSequence (sessionImage (sid, r)),
    sr_lastMutationResult = failureOf (ss_LastResult (sessionImage (sid, r))),
    sr_lastDeleteExisted = ss_LastDeleteExisted (sessionImage (sid, r))\<rparr> = r"
  by (cases "sr_state r") (simp_all add: sessionImage_def)

lemma restoreSessions_images:
  assumes "distinct (map fst ps)" "fst ` set ps \<inter> dom (map_of (sm_sessions m)) = {}"
    "distinct (map fst (sm_sessions m))" "sm_active m = int (card (activeSessions m))"
  shows "\<exists>m'. restoreSessions m (map sessionImage ps) = (m', None) \<and>
    map_of (sm_sessions m') = map_of (sm_sessions m) ++ map_of ps \<and> distinct (map fst (sm_sessions m')) \<and>
    sm_active m' = int (card (activeSessions m')) \<and> sm_limit m' = sm_limit m \<and> sm_values m' = sm_values m"
  using assms
proof (induction ps arbitrary: m)
  case (Cons p ps)
  obtain sid r where p: "p = (sid, r)" by (cases p)
  let ?m = "(if sr_state r = sessionPermanentlyClosed then m else m\<lparr>sm_active := sm_active m + 1\<rparr>)
      \<lparr>sm_sessions := AList.update sid r (sm_sessions m)\<rparr>"
  have new: "sid \<notin> activeSessions m" using Cons.prems(2) p by (auto simp: activeIn_def)
  have step: "restoreSessions m (map sessionImage (p # ps)) = restoreSessions ?m (map sessionImage ps)"
  proof -
    have "ss_LastResult (sessionImage (sid, r)) = failureByte (sr_lastMutationResult r)"
      "ss_ID (sessionImage (sid, r)) = sid"
      "ss_Closed (sessionImage (sid, r)) \<longleftrightarrow> sr_state r = sessionPermanentlyClosed"
      by (simp_all add: sessionImage_def)
    then show ?thesis
      using failureByte_le [of "sr_lastMutationResult r"] sessionImage_record [of sid r]
      by (simp add: p Let_def not_less [symmetric])
  qed
  have "sm_active ?m = int (card (activeSessions ?m))"
    using Cons.prems(4) new by (cases "sr_state r") (simp_all add: update_conv' activeIn_upd)
  moreover have "distinct (map fst (sm_sessions ?m))" using Cons.prems(3) by (simp add: distinct_update)
  moreover have "fst ` set ps \<inter> dom (map_of (sm_sessions ?m)) = {}"
    using Cons.prems(1,2) p by (auto simp: update_conv')
  ultimately obtain m' where m': "restoreSessions ?m (map sessionImage ps) = (m', None)"
    "map_of (sm_sessions m') = map_of (sm_sessions ?m) ++ map_of ps" "distinct (map fst (sm_sessions m'))"
    "sm_active m' = int (card (activeSessions m'))" "sm_limit m' = sm_limit ?m" "sm_values m' = sm_values ?m"
    using Cons.IH [of ?m] Cons.prems(1) by auto
  have "map_of (sm_sessions m) ++ map_of (p # ps) = map_of (sm_sessions ?m) ++ map_of ps"
    using Cons.prems(1) p by (simp add: update_conv' map_add_upd_left dom_map_of_conv_image_fst)
  then have "map_of (sm_sessions m') = map_of (sm_sessions m) ++ map_of (p # ps)" using m'(2) by metis
  moreover have "sm_limit ?m = sm_limit m" "sm_values ?m = sm_values m" by simp_all
  ultimately show ?case unfolding step using m'(1,3-6) by metis
qed simp

subsection \<open>Properties\<close>

text \<open>A session of two mutations, the second one retried, and then closed.\<close>

definition session_entry :: "u64 \<Rightarrow> EntryType \<Rightarrow> u64 \<Rightarrow> string \<Rightarrow> byte list \<Rightarrow> LogEntry" where
  "session_entry i t sequence k v = \<lparr>e_Index = i, e_Term = 1, e_Type = t, e_SessionID = replicate 16 7,
     e_Sequence = sequence, e_Key = k, e_Value = v\<rparr>"

definition sample_history :: "LogEntry list" where
  "sample_history =
     [session_entry 1 EntryNoOp 0 '''' [], session_entry 2 EntryOpenSession 0 '''' [], session_entry 3 EntrySet 1 ''k'' [5],
      session_entry 4 EntryDelete 2 ''k'' [], session_entry 5 EntryDelete 2 ''k'' []]"

definition sample_machine :: sessionMachine where
  "sample_machine = the (run (newSessionMachine 4) sample_history)"

lemma sample_run: "run (newSessionMachine 4) sample_history = Some sample_machine"
proof -
  have "run (newSessionMachine 4) sample_history \<noteq> None"
    by (simp add: sample_history_def session_entry_def applyEntry_def newSessionMachine_def evaluateMutation_def
      zeroRecord_def zeroResult_def recordMutation_def Let_def)
  then show ?thesis by (simp add: sample_machine_def)
qed

text \<open>C16. The session limit holds: after any history of committed entries, the machine's count of
  active sessions is the number of sessions that are open, and it does not exceed the limit.\<close>

theorem active_sessions_bounded:
  assumes "0 \<le> limit" and "run (newSessionMachine limit) es = Some m"
  shows "sm_active m = int (card (activeIn (map_of (sm_sessions m)))) \<and> sm_active m \<le> limit"
  using run_ok [OF new_machine_ok [OF assms(1)] assms(2)]
  by (simp add: machine_ok_def newSessionMachine_def)

theorem active_sessions_bounded_witness:
  "sm_active sample_machine = int (card (activeIn (map_of (sm_sessions sample_machine)))) \<and> sm_active sample_machine \<le> 4"
  using active_sessions_bounded [OF _ sample_run] by simp

text \<open>C14. Each mutation takes effect at most once and in order: over any history of committed entries
  with any retries, reorderings and interleavings of sessions, the mutations of a session that took
  effect carry the sequence numbers 1, 2, 3, up to the session's last one, each exactly once, and the
  store is what these mutations, in log order, make of the empty store.\<close>

theorem mutations_exactly_once:
  assumes "run (newSessionMachine limit) es = Some m"
  shows "map (unat \<circ> e_Sequence) (filter (\<lambda>e. e_SessionID e = sid) (effective (newSessionMachine limit) es)) =
      [1..<Suc (unat (lastSequence m sid))] \<and>
    sm_values m = fold mutate (effective (newSessionMachine limit) es) Map.empty"
proof -
  have "lastSequence (newSessionMachine limit) sid = 0" "sm_values (newSessionMachine limit) = Map.empty"
    by (simp_all add: lastSequence_def newSessionMachine_def)
  with effective_sequences [OF assms, of sid] show ?thesis by simp
qed

theorem mutations_exactly_once_witness:
  "sm_values sample_machine = fold mutate (effective (newSessionMachine 4) sample_history) Map.empty"
  using mutations_exactly_once [OF sample_run] by blast

text \<open>C15. A retry gets the original answer: once a mutation took effect, presenting the same session
  and sequence again, after any entries of other sessions, changes nothing and returns the result of
  the first attempt, including whether a deleted key existed.\<close>

theorem retry_returns_original:
  assumes "takesEffect m e" and "applyEntry m e = Some (m1, res)" and "run m1 es = Some m2"
    and "\<forall>x\<in>set es. e_SessionID x \<noteq> e_SessionID e"
    and "mutation e'" and "e_SessionID e' = e_SessionID e" and "e_Sequence e' = e_Sequence e"
  shows "applyEntry m2 e' = Some (m2, res)"
proof -
  from assms(1) obtain r where r: "map_of (sm_sessions m) (e_SessionID e) = Some r" "sr_state r = sessionActive"
    "unat (e_Sequence e) = Suc (unat (sr_lastSequence r))" by (rule takesEffectE)
  have frame: "map_of (sm_sessions b) sid = map_of (sm_sessions a) sid"
    if "applyEntry a x = Some (b, q)" "e_SessionID x \<noteq> sid" for a b x q sid
    using that by (auto simp: applyEntry_def recordMutation_def Let_def update_conv'
      split: if_splits option.splits prod.splits)
  have "map_of (sm_sessions b) sid = map_of (sm_sessions a) sid"
    if "run a xs = Some b" "\<forall>x\<in>set xs. e_SessionID x \<noteq> sid" for a b xs sid
    using that by (induction xs arbitrary: a) (auto simp: Option.bind_eq_Some_conv frame)
  then have same: "map_of (sm_sessions m2) (e_SessionID e) = map_of (sm_sessions m1) (e_SessionID e)"
    using assms(3,4) by blast
  obtain existed where m1: "res = zeroResult\<lparr>res_sessionID := e_SessionID e, res_sequence := e_Sequence e,
      res_existed := existed\<rparr>" "map_of (sm_sessions m1) (e_SessionID e) =
      Some (r\<lparr>sr_lastSequence := e_Sequence e, sr_lastMutationResult := sessionSucceeded,
        sr_lastDeleteExisted := existed\<rparr>)"
    using applyEntry_effect [OF assms(1) r(1)] assms(2)
    by (auto simp: Let_def recordMutation_def update_conv')
  have "e_Sequence e \<noteq> 0" using r(3) by auto
  then have "evaluateMutation m2 (e_SessionID e) (e_Sequence e) = (res, False)"
    using same m1 r(2) by (simp add: evaluateMutation_def Let_def zeroResult_def)
  then show ?thesis using assms(5-7) by (auto simp: applyEntry_def mutation_def Let_def)
qed

lemma applyEntry_closed:
  assumes "map_of (sm_sessions m) sid = Some r" "sr_state r = sessionPermanentlyClosed"
    "applyEntry m e = Some (m', res)"
  shows "map_of (sm_sessions m') sid = Some r"
  using assms
  by (cases "e_SessionID e = sid")
     (auto simp: applyEntry_def evaluateMutation_def recordMutation_def Let_def update_conv'
       split: if_splits option.splits prod.splits)

lemma run_closed:
  "map_of (sm_sessions m) sid = Some r \<Longrightarrow> sr_state r = sessionPermanentlyClosed \<Longrightarrow> run m es = Some m' \<Longrightarrow>
     map_of (sm_sessions m') sid = Some r"
proof (induction es arbitrary: m)
  case (Cons e es)
  then obtain m1 res where a: "applyEntry m e = Some (m1, res)" "run m1 es = Some m'"
    by (auto simp: Option.bind_eq_Some_conv)
  from Cons.IH [OF applyEntry_closed [OF Cons.prems(1,2) a(1)] Cons.prems(2) a(2)] show ?case .
qed simp

text \<open>A Set by the sample session that takes effect, and its retry after a step of another session.\<close>

definition sample_open :: sessionMachine where
  "sample_open = the (run (newSessionMachine 4) (take 2 sample_history))"

definition sample_set :: LogEntry where
  "sample_set = session_entry 3 EntrySet 1 ''k'' [5]"

definition other_open :: LogEntry where
  "other_open = (session_entry 4 EntryOpenSession 0 '''' [])\<lparr>e_SessionID := replicate 16 8\<rparr>"

lemma sample_open_eq:
  "sample_open = \<lparr>sm_limit = 4, sm_active = 1, sm_sessions = [(replicate 16 7, zeroRecord)], sm_values = Map.empty\<rparr>"
  by (simp add: sample_open_def sample_history_def session_entry_def applyEntry_def newSessionMachine_def Let_def)

lemmas sample_eval = sample_open_eq sample_set_def other_open_def session_entry_def applyEntry_def evaluateMutation_def
  zeroRecord_def zeroResult_def recordMutation_def Let_def

theorem retry_returns_original_witness:
  "\<exists>m1 m2 res. applyEntry sample_open sample_set = Some (m1, res) \<and> run m1 [other_open] = Some m2 \<and>
     applyEntry m2 sample_set = Some (m2, res)"
proof -
  have t: "takesEffect sample_open sample_set" by (simp add: takesEffect_def mutation_def sample_eval)
  obtain m1 res where a: "applyEntry sample_open sample_set = Some (m1, res)"
    using applyEntry_total [of sample_set sample_open] by (auto simp: sample_set_def session_entry_def)
  obtain m2 where b: "run m1 [other_open] = Some m2"
    using applyEntry_total [of other_open m1] by (auto simp: other_open_def session_entry_def)
  have "\<forall>x\<in>set [other_open]. e_SessionID x \<noteq> e_SessionID sample_set" "mutation sample_set"
    by (simp_all add: other_open_def sample_set_def session_entry_def mutation_def numeral_eq_Suc)
  from retry_returns_original [OF t a b this refl refl] a b show ?thesis by blast
qed

text \<open>C17. Closing is final: a closed session keeps its record through any later history, and every
  mutation addressed to it is answered \<^verbatim>\<open>sessionClosed\<close> without an effect.\<close>

theorem closed_is_final:
  assumes "map_of (sm_sessions m) sid = Some r" and "sr_state r = sessionPermanentlyClosed"
    and "run m es = Some m'" and "mutation e" and "e_SessionID e = sid"
  shows "map_of (sm_sessions m') sid = Some r \<and>
    (\<exists>res. applyEntry m' e = Some (m', res) \<and> res_failure res = sessionClosed)"
  using run_closed [OF assms(1-3)] assms(2,4,5)
  by (auto simp: applyEntry_def evaluateMutation_def mutation_def Let_def)

definition sample_closed :: sessionMachine where
  "sample_closed = sample_open\<lparr>sm_active := 0,
     sm_sessions := [(replicate 16 7, zeroRecord\<lparr>sr_state := sessionPermanentlyClosed\<rparr>)]\<rparr>"

theorem closed_is_final_witness:
  "\<exists>m' res. run sample_closed [other_open] = Some m' \<and> applyEntry m' sample_set = Some (m', res) \<and>
     res_failure res = sessionClosed"
proof -
  obtain m' where b: "run sample_closed [other_open] = Some m'"
    using applyEntry_total [of other_open sample_closed] by (auto simp: other_open_def session_entry_def)
  have c: "map_of (sm_sessions sample_closed) (replicate 16 7) =
      Some (zeroRecord\<lparr>sr_state := sessionPermanentlyClosed\<rparr>)" by (simp add: sample_closed_def)
  have "mutation sample_set" "e_SessionID sample_set = replicate 16 7"
    by (simp_all add: sample_set_def session_entry_def mutation_def)
  from closed_is_final [OF c _ b this] b show ?thesis by auto
qed

text \<open>C18. Snapshots preserve the state machine: restoring a Snapshot of a machine into an empty one
  succeeds, and the restored machine answers every later history exactly as the original would.\<close>

theorem snapshot_restores_machine:
  assumes "machine_ok m"
  shows "\<exists>m'. machine_restore (newSessionMachine (sm_limit m)) (Some (machine_snapshot m identity index trm)) = (m', None) \<and>
    machine_ok m' \<and> sm_values m' = sm_values m \<and> map_of (sm_sessions m') = map_of (sm_sessions m) \<and>
    (\<forall>es. replies m' es = replies m es)"
proof -
  let ?ss = "sort_key fst (sm_sessions m)"
  let ?m0 = "(newSessionMachine (sm_limit m))\<lparr>sm_active := 0, sm_sessions := [], sm_values := sm_values m\<rparr>"
  have d: "distinct (map fst (sm_sessions m))" using assms by (simp add: machine_ok_def)
  then have "distinct (map fst ?ss)" by (simp add: distinct_map inj_on_def)
  then obtain m' where m': "restoreSessions ?m0 (map sessionImage ?ss) = (m', None)"
    "map_of (sm_sessions m') = map_of (sm_sessions m)" "distinct (map fst (sm_sessions m'))"
    "sm_active m' = int (card (activeSessions m'))" "sm_limit m' = sm_limit m" "sm_values m' = sm_values m"
    using restoreSessions_images [of ?ss ?m0] map_of_sort [OF d]
    by (auto simp: newSessionMachine_def activeIn_def)
  have like: "machine_like m' m" using m' assms by (simp add: machine_like_def machine_ok_def)
  have "sm_active m' \<le> sm_limit m'" using m' assms by (simp add: machine_ok_def)
  then have "machine_restore (newSessionMachine (sm_limit m)) (Some (machine_snapshot m identity index trm)) = (m', None)"
    using m'(1) by (simp add: machine_restore_def machine_snapshot_def sort_key_images)
  moreover have "machine_ok m'" using m' assms by (simp add: machine_ok_def)
  ultimately show ?thesis using m' replies_like [OF like] by auto
qed

theorem snapshot_restores_machine_witness:
  "\<exists>m'. machine_restore (newSessionMachine (sm_limit sample_open))
      (Some (machine_snapshot sample_open (sn_Identity sample_snapshot) 4 2)) = (m', None) \<and>
     replies m' [sample_set] = replies sample_open [sample_set]"
proof -
  have "machine_ok sample_open"
    by (simp add: machine_ok_def sample_open_eq activeIn_def zeroRecord_def)
  from snapshot_restores_machine [OF this] show ?thesis by blast
qed

text \<open>Snapshots are canonical: two machines with the same contents produce the same Snapshot,
  whatever order Go's maps are iterated in.\<close>

theorem snapshot_order_irrelevant:
  assumes "machine_like m m'" and "machine_ok m" and "machine_ok m'"
  shows "machine_snapshot m identity index trm = machine_snapshot m' identity index trm"
  using machine_snapshot_like [OF assms(1)] assms(2,3) by (simp add: machine_ok_def)

definition two_sessions :: "bool \<Rightarrow> sessionMachine" where
  "two_sessions swap = sample_open\<lparr>sm_active := 2, sm_sessions :=
     (if swap then [(replicate 16 8, zeroRecord), (replicate 16 7, zeroRecord)]
      else [(replicate 16 7, zeroRecord), (replicate 16 8, zeroRecord)])\<rparr>"

theorem snapshot_order_irrelevant_witness:
  "machine_snapshot (two_sessions True) (sn_Identity sample_snapshot) 4 2 =
   machine_snapshot (two_sessions False) (sn_Identity sample_snapshot) 4 2"
proof (rule snapshot_order_irrelevant)
  have ne: "replicate 16 (8 :: byte) \<noteq> replicate 16 7" by (simp add: numeral_eq_Suc)
  then show "machine_like (two_sessions True) (two_sessions False)"
    by (auto simp: machine_like_def two_sessions_def)
  have "activeIn Map.empty = {}" by (simp add: activeIn_def)
  then show "machine_ok (two_sessions True)" "machine_ok (two_sessions False)"
    using ne by (simp_all add: machine_ok_def two_sessions_def sample_open_eq activeIn_upd zeroRecord_def)
qed

end
