(* ===== verification/Config.thy ===== *)
theory Config
  imports Sessions
begin

text \<open>
  Node configuration, \<^verbatim>\<open>src/internal/config/config.go\<close>, and the identity a Node puts into its
  Snapshots (\<^verbatim>\<open>snapshotIdentity\<close> of \<^verbatim>\<open>src/internal/node/snapshot.go\<close>). Go's \<^verbatim>\<open>net.SplitHostPort\<close> is
  written out. The member map is an association list in some iteration order; the two addresses of a
  member are visited peer address first. \<^verbatim>\<open>Validate\<close> returns the list of all problems, and no problem is
  the nil error.

  Shown here: what exactly a configuration has to satisfy to be accepted, and that the identity built
  from an accepted configuration always passes the validation of a Snapshot.
\<close>

subsection \<open>Configuration\<close>

record NodeConfig =
  nc_ID :: string
  nc_DataDir :: string
  nc_MetricsAddress :: string

record Member =
  mb_PeerAddress :: string
  mb_ClientAddress :: string

record Config =
  cfg_Version :: int
  cfg_ClusterID :: string
  cfg_ActiveSessionLimit :: int
  cfg_SnapshotThresholdBytes :: int
  cfg_Node :: NodeConfig
  cfg_Members :: "(string \<times> Member) list"

definition DefaultSnapshotThresholdBytes :: int where
  "DefaultSnapshotThresholdBytes = 64 * 2 ^ 20"

definition EffectiveSnapshotThresholdBytes :: "Config \<Rightarrow> int" where
  "EffectiveSnapshotThresholdBytes c =
     (if cfg_SnapshotThresholdBytes c = 0 then DefaultSnapshotThresholdBytes else cfg_SnapshotThresholdBytes c)"

text \<open>A missing member reads as the zero value.\<close>

definition LocalMember :: "Config \<Rightarrow> Member" where
  "LocalMember c =
     (case map_of (cfg_Members c) (nc_ID (cfg_Node c)) of
        None \<Rightarrow> \<lparr>mb_PeerAddress = '''', mb_ClientAddress = ''''\<rparr> | Some m \<Rightarrow> m)"

subsection \<open>Addresses\<close>

text \<open>The position of the first and of the last occurrence of a character.\<close>

fun indexOf :: "char \<Rightarrow> string \<Rightarrow> nat option" where
  "indexOf c [] = None"
| "indexOf c (x # xs) = (if x = c then Some 0 else map_option Suc (indexOf c xs))"

definition lastIndexOf :: "char \<Rightarrow> string \<Rightarrow> nat option" where
  "lastIndexOf c s = map_option (\<lambda>k. length s - 1 - k) (indexOf c (rev s))"

definition SplitHostPort :: "string \<Rightarrow> (string \<times> string) option" where
  "SplitHostPort s =
     (case lastIndexOf CHR '':'' s of
        None \<Rightarrow> None
      | Some i \<Rightarrow>
          if s \<noteq> [] \<and> hd s = CHR ''[''
          then (case indexOf CHR '']'' s of
                  None \<Rightarrow> None
                | Some e \<Rightarrow>
                    if e + 1 \<noteq> i then None
                    else if CHR ''['' \<in> set (drop 1 s) \<or> CHR '']'' \<in> set (drop (e + 1) s) then None
                    else Some (drop 1 (take e s), drop (i + 1) s))
          else if CHR '':'' \<in> set (take i s) then None
          else if CHR ''['' \<in> set s \<or> CHR '']'' \<in> set s then None
          else Some (take i s, drop (i + 1) s))"

datatype ConfigError =
    versionUnsupported | clusterIDRequired | sessionLimitTooSmall | sessionLimitTooLarge
  | thresholdNegative | nodeIDRequired | dataDirRequired | notThreeMembers | nodeNotMember
  | memberIDEmpty | addressRequired | addressMalformed | hostRequired | portZero | duplicateAddress

definition validateAddress :: "string \<Rightarrow> ConfigError option" where
  "validateAddress address =
     (if blank address then Some addressRequired
      else (case SplitHostPort address of
              None \<Rightarrow> Some addressMalformed
            | Some (host, port) \<Rightarrow>
                if host = '''' then Some hostRequired
                else if port = '''' \<or> port = ''0'' then Some portZero
                else None))"

subsection \<open>Validation\<close>

text \<open>The inner loop over the addresses of a member, with the addresses seen so far.\<close>

fun validateAddresses :: "string set \<Rightarrow> string list \<Rightarrow> string set \<times> ConfigError list" where
  "validateAddresses seen [] = (seen, [])"
| "validateAddresses seen (a # as) =
     (case validateAddress a of
        Some err \<Rightarrow> (let (seen', errs) = validateAddresses seen as in (seen', err # errs))
      | None \<Rightarrow>
          if a \<in> seen then (let (seen', errs) = validateAddresses seen as in (seen', duplicateAddress # errs))
          else validateAddresses (insert a seen) as)"

fun validateConfigMembers :: "string set \<Rightarrow> (string \<times> Member) list \<Rightarrow> ConfigError list" where
  "validateConfigMembers seen [] = []"
| "validateConfigMembers seen ((mid, member) # rest) =
     (if blank mid then [memberIDEmpty] else []) @
     (let (seen', errs) = validateAddresses seen [mb_PeerAddress member, mb_ClientAddress member]
      in errs @ validateConfigMembers seen' rest)"

definition Validate :: "Config \<Rightarrow> ConfigError list" where
  "Validate c =
     (if cfg_Version c \<noteq> 1 then [versionUnsupported] else []) @
     (if blank (cfg_ClusterID c) then [clusterIDRequired] else []) @
     (if cfg_ActiveSessionLimit c < 1 then [sessionLimitTooSmall]
      else if cfg_ActiveSessionLimit c > 2 ^ 32 - 1 then [sessionLimitTooLarge] else []) @
     (if cfg_SnapshotThresholdBytes c < 0 then [thresholdNegative] else []) @
     (if blank (nc_ID (cfg_Node c)) then [nodeIDRequired] else []) @
     (if blank (nc_DataDir (cfg_Node c)) then [dataDirRequired] else []) @
     (if nc_MetricsAddress (cfg_Node c) \<noteq> ''''
      then (case validateAddress (nc_MetricsAddress (cfg_Node c)) of None \<Rightarrow> [] | Some err \<Rightarrow> [err]) else []) @
     (if length (cfg_Members c) \<noteq> 3 then [notThreeMembers] else []) @
     (if nc_ID (cfg_Node c) \<noteq> '''' \<and> map_of (cfg_Members c) (nc_ID (cfg_Node c)) = None
      then [nodeNotMember] else []) @
     validateConfigMembers {} (cfg_Members c)"

definition snapshotIdentity :: "Config \<Rightarrow> Identity" where
  "snapshotIdentity c =
     \<lparr>sid_ClusterID = cfg_ClusterID c, sid_NodeID = nc_ID (cfg_Node c),
      sid_MemberIDs = sort (map fst (cfg_Members c))\<rparr>"

subsection \<open>Properties\<close>

definition memberAddresses :: "(string \<times> Member) list \<Rightarrow> string list" where
  "memberAddresses ms = concat (map (\<lambda>(_, m). [mb_PeerAddress m, mb_ClientAddress m]) ms)"

lemma validateAddresses_ok:
  "snd (validateAddresses seen as) = [] \<longleftrightarrow>
     (\<forall>a\<in>set as. validateAddress a = None) \<and> distinct as \<and> seen \<inter> set as = {}"
  "snd (validateAddresses seen as) = [] \<Longrightarrow> fst (validateAddresses seen as) = seen \<union> set as"
  by (induction as arbitrary: seen) (auto simp: split_beta Let_def split: option.splits if_splits)

lemma validateConfigMembers_ok:
  "validateConfigMembers seen ms = [] \<longleftrightarrow>
     (\<forall>(mid, _)\<in>set ms. \<not> blank mid) \<and> (\<forall>a\<in>set (memberAddresses ms). validateAddress a = None) \<and>
     distinct (memberAddresses ms) \<and> seen \<inter> set (memberAddresses ms) = {}"
proof (induction ms arbitrary: seen)
  case (Cons p ms)
  obtain mid m where p: "p = (mid, m)" by (cases p)
  let ?as = "[mb_PeerAddress m, mb_ClientAddress m]"
  have addr: "memberAddresses (p # ms) = ?as @ memberAddresses ms" by (simp add: p memberAddresses_def)
  show ?case
  proof (cases "snd (validateAddresses seen ?as) = []")
    case True
    with validateAddresses_ok(2) [OF True] Cons [of "seen \<union> set ?as"] validateAddresses_ok(1) [of seen ?as]
    show ?thesis unfolding addr by (auto simp: p split_beta Let_def simp del: validateAddresses.simps)
  next
    case False
    with validateAddresses_ok(1) [of seen ?as] show ?thesis
      unfolding addr by (auto simp: p split_beta Let_def simp del: validateAddresses.simps)
  qed
qed (simp add: memberAddresses_def)

text \<open>C27. What \<^verbatim>\<open>Validate\<close> accepts: version 1, a named Cluster and Node with a data directory, a session
  limit that fits 32 bits, a non-negative Snapshot threshold, exactly three members with non-empty
  identities that include the Node, and six well-formed member addresses, all different.\<close>

theorem config_accepted_iff:
  "Validate c = [] \<longleftrightarrow>
     cfg_Version c = 1 \<and> \<not> blank (cfg_ClusterID c) \<and>
     1 \<le> cfg_ActiveSessionLimit c \<and> cfg_ActiveSessionLimit c < 2 ^ 32 \<and> 0 \<le> cfg_SnapshotThresholdBytes c \<and>
     \<not> blank (nc_ID (cfg_Node c)) \<and> \<not> blank (nc_DataDir (cfg_Node c)) \<and>
     (nc_MetricsAddress (cfg_Node c) = '''' \<or> validateAddress (nc_MetricsAddress (cfg_Node c)) = None) \<and>
     length (cfg_Members c) = 3 \<and> nc_ID (cfg_Node c) \<in> set (map fst (cfg_Members c)) \<and>
     list_all (\<lambda>(mid, _). \<not> blank mid) (cfg_Members c) \<and>
     list_all (\<lambda>a. validateAddress a = None) (memberAddresses (cfg_Members c)) \<and>
     distinct (memberAddresses (cfg_Members c))"
proof -
  have "nc_ID (cfg_Node c) \<noteq> ''''" if "\<not> blank (nc_ID (cfg_Node c))" using that by auto
  then show ?thesis
    unfolding Validate_def append_is_Nil_conv validateConfigMembers_ok list_all_iff
    by (auto simp: map_of_eq_None_iff split: option.splits)
qed

lemma validateMembers_None:
  assumes "sorted_wrt (<) ms" "\<forall>m\<in>set ms. \<not> blank m" "\<forall>p. prev = Some p \<longrightarrow> (\<forall>m\<in>set ms. p < m)"
  shows "validateMembers prev ms = None"
  using assms by (induction ms arbitrary: prev) (auto split: option.splits)

lemma snapshotIdentity_valid:
  assumes "Validate c = []" "distinct (map fst (cfg_Members c))"
  shows "\<not> blank (sid_ClusterID (snapshotIdentity c))" "\<not> blank (sid_NodeID (snapshotIdentity c))"
    "length (sid_MemberIDs (snapshotIdentity c)) = 3" "validateMembers None (sid_MemberIDs (snapshotIdentity c)) = None"
    "sid_NodeID (snapshotIdentity c) \<in> set (sid_MemberIDs (snapshotIdentity c))"
proof -
  have v: "\<not> blank (cfg_ClusterID c)" "\<not> blank (nc_ID (cfg_Node c))" "length (cfg_Members c) = 3"
    "validateConfigMembers {} (cfg_Members c) = []"
    "nc_ID (cfg_Node c) = '''' \<or> map_of (cfg_Members c) (nc_ID (cfg_Node c)) \<noteq> None"
    using assms(1) unfolding Validate_def append_is_Nil_conv by (auto split: if_splits)
  show "validateMembers None (sid_MemberIDs (snapshotIdentity c)) = None"
  proof (rule validateMembers_None)
    have "sorted (sort (map fst (cfg_Members c)))" "distinct (sort (map fst (cfg_Members c)))"
      using assms(2) by simp_all
    then show "sorted_wrt (<) (sid_MemberIDs (snapshotIdentity c))"
      by (simp add: snapshotIdentity_def strict_sorted_iff)
    show "\<forall>m\<in>set (sid_MemberIDs (snapshotIdentity c)). \<not> blank m"
      using v(4) by (auto simp: snapshotIdentity_def validateConfigMembers_ok)
  qed simp
  have "nc_ID (cfg_Node c) \<in> fst ` set (cfg_Members c)"
    using v(2,5) by (auto simp: map_of_eq_None_iff)
  then show "sid_NodeID (snapshotIdentity c) \<in> set (sid_MemberIDs (snapshotIdentity c))"
    by (simp add: snapshotIdentity_def)
qed (use assms(1) in \<open>auto simp: snapshotIdentity_def Validate_def split: if_splits\<close>)

text \<open>C28. Every Snapshot a Node takes can be saved and read back: with an accepted configuration and a
  well-formed state machine, the captured state passes the validation of the Snapshot package.\<close>

theorem captured_snapshot_valid:
  assumes "Validate c = []" and "distinct (map fst (cfg_Members c))" and "machine_ok m"
    and "index = 0 \<longleftrightarrow> trm = 0"
  shows "validateState (machine_snapshot m (snapshotIdentity c) index trm) = None"
proof -
  have "distinct (map ss_ID (sort_key ss_ID (map sessionImage (sm_sessions m))))"
  proof -
    have "map ss_ID (map sessionImage (sort_key fst (sm_sessions m))) = map fst (sort_key fst (sm_sessions m))"
      by (auto simp: sessionImage_def split: prod.splits)
    then show ?thesis
      using assms(3) unfolding sort_key_images by (simp add: machine_ok_def distinct_map inj_on_def)
  qed
  then have "\<not> duplicateSession {} (sn_Sessions (machine_snapshot m (snapshotIdentity c) index trm))"
    by (simp add: duplicateSession_distinct machine_snapshot_def)
  then show ?thesis
    using snapshotIdentity_valid [OF assms(1,2)] assms(4)
    by (simp add: validateState_def Let_def machine_snapshot_def)
qed

definition sample_config :: Config where
  "sample_config =
     \<lparr>cfg_Version = 1, cfg_ClusterID = ''c'', cfg_ActiveSessionLimit = 4, cfg_SnapshotThresholdBytes = 0,
      cfg_Node = \<lparr>nc_ID = ''n2'', nc_DataDir = ''/d'', nc_MetricsAddress = ''''\<rparr>,
      cfg_Members = [(''n2'', \<lparr>mb_PeerAddress = ''h:1'', mb_ClientAddress = ''h:2''\<rparr>),
        (''n1'', \<lparr>mb_PeerAddress = ''h:3'', mb_ClientAddress = ''h:4''\<rparr>),
        (''n3'', \<lparr>mb_PeerAddress = ''[::1]:5'', mb_ClientAddress = ''h:6''\<rparr>)]\<rparr>"

lemma sample_config_valid: "Validate sample_config = []"
  by code_simp

theorem captured_snapshot_valid_witness:
  "validateState (machine_snapshot sample_open (snapshotIdentity sample_config) 4 2) = None"
proof (rule captured_snapshot_valid [OF sample_config_valid])
  show "machine_ok sample_open" by (simp add: machine_ok_def sample_open_eq activeIn_def zeroRecord_def)
qed (simp_all add: sample_config_def)

end
