(* ===== verification/Linearizability.thy ===== *)
theory Linearizability
  imports Ternion_Prelude
begin

text \<open>
  The history recorder and the linearizability checker, \<^verbatim>\<open>src/internal/linearizability/linearizability.go\<close>.
  A \<^verbatim>\<open>time.Time\<close> is a natural number, 0 being the zero time that marks a call as pending. The search of
  \<^verbatim>\<open>checkOrder\<close> is a recursive function that terminates because every call places one more operation;
  the mutation of \<^verbatim>\<open>used\<close> and its undoing on backtracking are an updated copy.

  Shown here: the search is sound and complete for a declarative notion of linearization; what the
  recorder does to a history; and two kinds of histories on which the checker's verdict is not the one its
  documentation announces.
\<close>

subsection \<open>Operations and histories\<close>

type_synonym Time = nat

datatype Kind = OpSet | OpGet | OpDelete

record Outcome =
  oc_Value :: "byte list"
  oc_Found :: bool
  oc_Existed :: bool
  oc_Error :: string

record Operation =
  op_Kind :: Kind
  op_Session :: "byte list"
  op_Sequence :: u64
  op_Key :: string
  op_Value :: "byte list"
  op_Invoke :: Time
  op_Complete :: Time
  op_Outcome :: Outcome

definition zeroOutcome :: Outcome where
  "zeroOutcome = \<lparr>oc_Value = [], oc_Found = False, oc_Existed = False, oc_Error = ''''\<rparr>"

text \<open>\<^verbatim>\<open>Start\<close> appends a pending operation; the function it returns is \<open>complete_op\<close> at the
  operation's index. Only the first completion counts.\<close>

definition Start :: "Operation list \<Rightarrow> Time \<Rightarrow> Kind \<Rightarrow> byte list \<Rightarrow> u64 \<Rightarrow> string \<Rightarrow> byte list \<Rightarrow>
    Operation list \<times> nat" where
  "Start h now kind session sequence key val =
     (h @ [\<lparr>op_Kind = kind, op_Session = session, op_Sequence = sequence, op_Key = key, op_Value = val,
            op_Invoke = now, op_Complete = 0, op_Outcome = zeroOutcome\<rparr>], length h)"

definition complete_op :: "Operation list \<Rightarrow> nat \<Rightarrow> Time \<Rightarrow> Outcome \<Rightarrow> Operation list" where
  "complete_op h index now outcome =
     (if index \<ge> length h \<or> op_Complete (h ! index) \<noteq> 0 then h
      else h[index := (h ! index)\<lparr>op_Complete := now, op_Outcome := outcome\<rparr>])"

subsection \<open>The sequential model\<close>

record sessionResult =
  sq_last :: u64
  sq_result :: Outcome

record model =
  md_values :: "string \<rightharpoonup> byte list"
  md_sessions :: "byte list \<rightharpoonup> sessionResult"

definition newModel :: model where
  "newModel = \<lparr>md_values = Map.empty, md_sessions = Map.empty\<rparr>"

definition errorOutcome :: "string \<Rightarrow> Outcome" where
  "errorOutcome e = zeroOutcome\<lparr>oc_Error := e\<rparr>"

definition model_apply :: "model \<Rightarrow> Operation \<Rightarrow> model \<times> Outcome" where
  "model_apply m operation =
     (if op_Kind operation = OpSet \<or> op_Kind operation = OpDelete
      then
        let perform =
              (let result = (if op_Kind operation = OpSet then zeroOutcome
                             else zeroOutcome\<lparr>oc_Existed := (md_values m (op_Key operation) \<noteq> None)\<rparr>);
                   values' = (if op_Kind operation = OpSet
                              then (md_values m)(op_Key operation \<mapsto> op_Value operation)
                              else map_delete (md_values m) (op_Key operation))
               in (m\<lparr>md_values := values',
                     md_sessions := (md_sessions m)(op_Session operation \<mapsto>
                       \<lparr>sq_last = op_Sequence operation, sq_result = result\<rparr>)\<rparr>, result))
        in (case md_sessions m (op_Session operation) of
              None \<Rightarrow> perform
            | Some state \<Rightarrow>
                if op_Sequence operation = sq_last state then (m, sq_result state)
                else if op_Sequence operation \<le> sq_last state then (m, errorOutcome ''stale_sequence'')
                else if op_Sequence operation \<noteq> sq_last state + 1 then (m, errorOutcome ''out_of_order'')
                else perform)
      else (m, case md_values m (op_Key operation) of
                 None \<Rightarrow> errorOutcome ''not_found''
               | Some v \<Rightarrow> zeroOutcome\<lparr>oc_Found := True, oc_Value := v\<rparr>))"

definition outcomeEqual :: "Outcome \<Rightarrow> Outcome \<Rightarrow> bool" where
  "outcomeEqual left right \<longleftrightarrow> oc_Error left = oc_Error right \<and> oc_Found left = oc_Found right \<and>
     oc_Existed left = oc_Existed right \<and> oc_Value left = oc_Value right"

subsection \<open>The checker\<close>

definition eligible :: "nat \<Rightarrow> Operation list \<Rightarrow> bool list \<Rightarrow> bool" where
  "eligible index h used \<longleftrightarrow>
     list_all (\<lambda>prior. used ! prior \<or> prior = index \<or> op_Complete (h ! prior) = 0 \<or>
                 op_Invoke (h ! index) < op_Complete (h ! prior)) [0..<length h]"

lemma count_update_less:
  assumes "i < length used" "\<not> used ! i"
  shows "count_list (used[i := True]) False < count_list used False"
  using assms by (induction used arbitrary: i) (auto split: nat.splits simp: nth_Cons)

text \<open>\<^verbatim>\<open>used\<close> has the length of the history in every call.\<close>

function checkOrder :: "Operation list \<Rightarrow> bool list \<Rightarrow> model \<Rightarrow> nat \<Rightarrow> bool" where
  "checkOrder h used state placed =
     (if placed = length h then True
      else
        list_ex (\<lambda>index.
          if index \<ge> length used \<or> used ! index \<or> \<not> eligible index h used then False
          else let (candidate, actual) = model_apply state (h ! index) in
            if \<not> outcomeEqual actual (op_Outcome (h ! index)) then False
            else checkOrder h (used[index := True]) candidate (placed + 1)) [0..<length h] \<or>
        list_ex (\<lambda>index.
          if index \<ge> length used \<or> used ! index \<or> op_Complete (h ! index) \<noteq> 0 \<or> \<not> eligible index h used then False
          else checkOrder h (used[index := True]) state (placed + 1)) [0..<length h])"
  by pat_completeness auto

termination
  by (relation "measure (\<lambda>(h, used, state, placed). count_list used False)")
     (auto simp: count_update_less)

declare checkOrder.simps [simp del]

datatype CheckError = noInvocation | completedBeforeInvocation | notLinearizable

fun checkTimes :: "Operation list \<Rightarrow> CheckError option" where
  "checkTimes [] = None"
| "checkTimes (operation # rest) =
     (if op_Invoke operation = 0 then Some noInvocation
      else if op_Complete operation \<noteq> 0 \<and> op_Complete operation < op_Invoke operation
      then Some completedBeforeInvocation
      else checkTimes rest)"

definition Check :: "Operation list \<Rightarrow> CheckError option" where
  "Check h =
     (case checkTimes h of
        Some err \<Rightarrow> Some err
      | None \<Rightarrow> if checkOrder h (replicate (length h) False) newModel 0 then None else Some notLinearizable)"

subsection \<open>Linearizations\<close>

text \<open>Operation \<open>j\<close> must be explained before \<open>i\<close>: it completed no later than \<open>i\<close> was invoked.\<close>

definition precedes :: "Operation list \<Rightarrow> nat \<Rightarrow> nat \<Rightarrow> bool" where
  "precedes h j i \<longleftrightarrow> j \<noteq> i \<and> op_Complete (h ! j) \<noteq> 0 \<and> op_Complete (h ! j) \<le> op_Invoke (h ! i)"

text \<open>Running operations one after the other reproduces their recorded outcomes.\<close>

fun explains :: "model \<Rightarrow> Operation list \<Rightarrow> bool" where
  "explains m [] = True"
| "explains m (operation # rest) =
     (outcomeEqual (snd (model_apply m operation)) (op_Outcome operation) \<and>
      explains (fst (model_apply m operation)) rest)"

text \<open>An order of the operations in \<open>is\<close> that respects real time; pending operations for which
  \<open>omit\<close> holds have no effect, the others run in that order.\<close>

definition linearizes :: "Operation list \<Rightarrow> nat set \<Rightarrow> model \<Rightarrow> nat list \<Rightarrow> (nat \<Rightarrow> bool) \<Rightarrow> bool" where
  "linearizes h todo m order omit \<longleftrightarrow>
     distinct order \<and> set order = todo \<and> sorted_wrt (\<lambda>i j. \<not> precedes h j i) order \<and>
     (\<forall>i\<in>todo. omit i \<longrightarrow> op_Complete (h ! i) = 0) \<and>
     explains m (map ((!) h) (filter (\<lambda>i. \<not> omit i) order))"

definition linearizable :: "Operation list \<Rightarrow> bool" where
  "linearizable h \<longleftrightarrow> (\<exists>order omit. linearizes h {..<length h} newModel order omit)"

definition unused :: "Operation list \<Rightarrow> bool list \<Rightarrow> nat set" where
  "unused h used = {i. i < length h \<and> \<not> used ! i}"

lemma eligible_iff:
  "eligible i h used \<longleftrightarrow> (\<forall>j\<in>unused h used - {i}. \<not> precedes h j i)"
  by (auto simp: eligible_def unused_def precedes_def list_all_iff not_less)

lemma unused_update:
  "i < length used \<Longrightarrow> unused h (used[i := True]) = unused h used - {i}"
  by (auto simp: unused_def nth_list_update)

lemma card_unused_update:
  assumes "i \<in> unused h used" "i < length used"
  shows "card (unused h (used[i := True])) = card (unused h used) - 1"
  using assms by (simp add: unused_update card_Diff_singleton)

lemma linearizes_Cons:
  "linearizes h todo m (i # order) omit \<longleftrightarrow>
     i \<in> todo \<and> (\<forall>j\<in>todo - {i}. \<not> precedes h j i) \<and>
     (if omit i then op_Complete (h ! i) = 0 \<and> linearizes h (todo - {i}) m order omit
      else outcomeEqual (snd (model_apply m (h ! i))) (op_Outcome (h ! i)) \<and>
        linearizes h (todo - {i}) (fst (model_apply m (h ! i))) order omit)"
  unfolding linearizes_def by (auto simp: sorted_wrt.simps)

lemma linearizes_omit:
  assumes "linearizes h todo m order omit" "\<And>i. i \<in> todo \<Longrightarrow> omit' i = omit i"
  shows "linearizes h todo m order omit'"
proof -
  have "filter (\<lambda>i. \<not> omit' i) order = filter (\<lambda>i. \<not> omit i) order"
    using assms by (intro filter_cong) (auto simp: linearizes_def)
  then show ?thesis using assms by (auto simp: linearizes_def)
qed

lemma checkOrder_unfold:
  assumes "placed \<noteq> length h" "length used = length h"
  shows "checkOrder h used m placed \<longleftrightarrow>
    (\<exists>i\<in>unused h used. eligible i h used \<and> outcomeEqual (snd (model_apply m (h ! i))) (op_Outcome (h ! i)) \<and>
       checkOrder h (used[i := True]) (fst (model_apply m (h ! i))) (placed + 1)) \<or>
    (\<exists>i\<in>unused h used. eligible i h used \<and> op_Complete (h ! i) = 0 \<and>
       checkOrder h (used[i := True]) m (placed + 1))"
  using assms by (auto simp: checkOrder.simps [of h used m] list_ex_iff unused_def split_beta Bex_def)

text \<open>The search finds a linearization of the operations not yet placed exactly when there is one.\<close>

lemma checkOrder_iff:
  assumes "length used = length h" "placed + card (unused h used) = length h"
  shows "checkOrder h used m placed \<longleftrightarrow> (\<exists>order omit. linearizes h (unused h used) m order omit)"
  using assms
proof (induction h used m placed rule: checkOrder.induct)
  case (1 h used m placed)
  have fin: "finite (unused h used)" by (simp add: unused_def)
  show ?case
  proof (cases "placed = length h")
    case True
    then have "unused h used = {}" using "1.prems" fin by auto
    then have "linearizes h (unused h used) m [] (\<lambda>_. False)" by (simp add: linearizes_def)
    then show ?thesis using True by (auto simp: checkOrder.simps [of h])
  next
    case False
    have pre: "length (used[i := True]) = length h" "placed + 1 + card (unused h (used[i := True])) = length h"
      if "i \<in> unused h used" for i
    proof -
      have "0 < card (unused h used)" using that fin by (auto simp: card_gt_0_iff)
      then show "length (used[i := True]) = length h" "placed + 1 + card (unused h (used[i := True])) = length h"
        using that "1.prems" card_unused_update [of i h used] by (auto simp: unused_def)
    qed
    let ?el = "\<lambda>i. i \<in> unused h used \<and> eligible i h used"
    let ?lin = "\<lambda>m i. \<exists>order omit. linearizes h (unused h used - {i}) m order omit"
    have rec: "checkOrder h (used[i := True]) m' (placed + 1) \<longleftrightarrow> ?lin m' i"
      if "?el i" "(m' = m \<and> op_Complete (h ! i) = 0) \<or>
        (m' = fst (model_apply m (h ! i)) \<and> outcomeEqual (snd (model_apply m (h ! i))) (op_Outcome (h ! i)))" for i m'
    proof -
      have i: "i \<in> set [0..<length h]" "\<not> (length used \<le> i \<or> used ! i \<or> \<not> eligible i h used)" "i < length used"
        using that(1) "1.prems"(1) by (auto simp: unused_def)
      note p = pre [OF conjunct1 [OF that(1)]]
      show ?thesis
        using that(2)
      proof
        assume m': "m' = m \<and> op_Complete (h ! i) = 0"
        then have "\<not> (length used \<le> i \<or> used ! i \<or> op_Complete (h ! i) \<noteq> 0 \<or> \<not> eligible i h used)" using i by simp
        from "1.IH"(2) [OF False i(1) this p] m' show ?thesis by (simp add: unused_update [OF i(3)])
      next
        assume m': "m' = fst (model_apply m (h ! i)) \<and> outcomeEqual (snd (model_apply m (h ! i))) (op_Outcome (h ! i))"
        from "1.IH"(1) [OF False i(1,2) refl prod.collapse _ p] m' show ?thesis
          by (simp add: unused_update [OF i(3)])
      qed
    qed
    have "checkOrder h used m placed \<longleftrightarrow>
        (\<exists>i\<in>unused h used. eligible i h used \<and> outcomeEqual (snd (model_apply m (h ! i))) (op_Outcome (h ! i)) \<and>
           ?lin (fst (model_apply m (h ! i))) i) \<or>
        (\<exists>i\<in>unused h used. eligible i h used \<and> op_Complete (h ! i) = 0 \<and> ?lin m i)"
      unfolding checkOrder_unfold [OF False "1.prems"(1)]
      by (simp add: rec del: One_nat_def add_Suc_right cong: conj_cong bex_cong)
    also have "\<dots> \<longleftrightarrow> (\<exists>order omit. linearizes h (unused h used) m order omit)"
      (is "?l \<longleftrightarrow> ?r")
    proof
      assume ?l
      then show ?r
      proof (elim disjE bexE exE conjE)
        fix i order omit
        assume i: "i \<in> unused h used" "eligible i h used"
          "outcomeEqual (snd (model_apply m (h ! i))) (op_Outcome (h ! i))"
          and l: "linearizes h (unused h used - {i}) (fst (model_apply m (h ! i))) order omit"
        from linearizes_omit [OF l, of "omit(i := False)"] i
        have "linearizes h (unused h used) m (i # order) (omit(i := False))"
          by (simp add: linearizes_Cons eligible_iff)
        then show ?r by blast
      next
        fix i order omit
        assume i: "i \<in> unused h used" "eligible i h used" "op_Complete (h ! i) = 0"
          and l: "linearizes h (unused h used - {i}) m order omit"
        from linearizes_omit [OF l, of "omit(i := True)"] i
        have "linearizes h (unused h used) m (i # order) (omit(i := True))"
          by (simp add: linearizes_Cons eligible_iff)
        then show ?r by blast
      qed
    next
      assume ?r
      then obtain order omit where l: "linearizes h (unused h used) m order omit" by blast
      have "unused h used \<noteq> {}" using False "1.prems"(2) by auto
      with l obtain i rest where o: "order = i # rest" by (cases order) (auto simp: linearizes_def)
      with l have i: "i \<in> unused h used" "eligible i h used" by (auto simp: linearizes_Cons eligible_iff)
      show ?l
      proof (cases "omit i")
        case True
        with l o have "op_Complete (h ! i) = 0 \<and> ?lin m i" by (auto simp: linearizes_Cons)
        with i show ?thesis by blast
      next
        case False
        with l o have "outcomeEqual (snd (model_apply m (h ! i))) (op_Outcome (h ! i)) \<and>
            ?lin (fst (model_apply m (h ! i))) i" by (auto simp: linearizes_Cons)
        with i show ?thesis by blast
      qed
    qed
    finally show ?thesis .
  qed
qed

subsection \<open>Properties\<close>

lemma checkTimes_None:
  "checkTimes h = None \<longleftrightarrow>
     (\<forall>p\<in>set h. op_Invoke p \<noteq> 0 \<and> (op_Complete p = 0 \<or> op_Invoke p \<le> op_Complete p))"
  by (induction h) auto

text \<open>C24. The checker decides linearizability: it accepts a history exactly when the recorded times are
  possible and some order of the operations that respects real time, with some of the pending ones
  left out, reproduces every recorded outcome.\<close>

theorem check_decides:
  "Check h = None \<longleftrightarrow>
     (\<forall>p\<in>set h. op_Invoke p \<noteq> 0 \<and> (op_Complete p = 0 \<or> op_Invoke p \<le> op_Complete p)) \<and> linearizable h"
proof -
  let ?used = "replicate (length h) False"
  have u: "unused h ?used = {..<length h}" by (auto simp: unused_def)
  have "checkOrder h ?used newModel 0 \<longleftrightarrow> linearizable h"
    using checkOrder_iff [of ?used h 0 newModel] u by (simp add: linearizable_def)
  then show ?thesis
    using checkTimes_None [of h] by (auto simp: Check_def split: option.splits)
qed

text \<open>A history: a session sets a key, deletes it without learning the result, and reads that the key
  is gone.\<close>

definition lin_op :: "Kind \<Rightarrow> u64 \<Rightarrow> Time \<Rightarrow> Time \<Rightarrow> Outcome \<Rightarrow> Operation" where
  "lin_op kind sequence invoke complete outcome =
     \<lparr>op_Kind = kind, op_Session = [1], op_Sequence = sequence, op_Key = ''k'', op_Value = [7],
      op_Invoke = invoke, op_Complete = complete, op_Outcome = outcome\<rparr>"

definition lost_delete :: "Outcome \<Rightarrow> Operation list" where
  "lost_delete unseen =
     [lin_op OpSet 1 1 2 zeroOutcome, lin_op OpDelete 2 3 0 unseen,
      lin_op OpGet 0 5 6 (errorOutcome ''not_found'')]"

definition set_then_get :: "Operation list" where
  "set_then_get =
     [lin_op OpGet 0 1 4 (zeroOutcome\<lparr>oc_Found := True, oc_Value := [7]\<rparr>), lin_op OpSet 1 2 3 zeroOutcome]"

lemma lin_eval: "Check set_then_get = None"
  "explains newModel (lost_delete (zeroOutcome\<lparr>oc_Existed := True\<rparr>))"
  by code_simp+

theorem check_decides_witness: "Check set_then_get = None \<and> linearizable set_then_get"
  using check_decides [of set_then_get] lin_eval(1) by simp

lemma accepted_linearizes:
  assumes "Check h = None"
  obtains order omit where "linearizes h {..<length h} newModel order omit"
proof -
  have "checkOrder h (replicate (length h) False) newModel 0" using assms by (simp add: Check_def split: option.splits if_splits)
  moreover have "unused h (replicate (length h) False) = {..<length h}" by (auto simp: unused_def)
  ultimately show thesis using that checkOrder_iff [of "replicate (length h) False" h 0 newModel] by auto
qed

text \<open>Once a key is there, it stays there as long as no Delete of it is recorded to have found it.\<close>

lemma value_stays:
  assumes "explains m ops" "md_values m k \<noteq> None"
    and "\<forall>p\<in>set ops. op_Kind p = OpDelete \<and> op_Key p = k \<longrightarrow> \<not> oc_Existed (op_Outcome p)"
    and "g \<in> set ops" "op_Kind g = OpGet" "op_Key g = k"
  shows "oc_Found (op_Outcome g)"
  using assms(1-4)
proof (induction ops arbitrary: m)
  case (Cons p ops)
  let ?m = "fst (model_apply m p)"
  have e: "outcomeEqual (snd (model_apply m p)) (op_Outcome p)" "explains ?m ops" using Cons.prems(1) by simp_all
  have "md_values ?m k \<noteq> None"
    using e(1) Cons.prems(2,3)
    by (cases "op_Kind p") (auto simp: model_apply_def outcomeEqual_def map_delete_def Let_def split: option.splits if_splits)
  with Cons e(2) have "g \<in> set ops \<Longrightarrow> oc_Found (op_Outcome g)" by auto
  moreover have "oc_Found (op_Outcome g)" if "g = p"
    using e(1) Cons.prems(2) that assms(5,6) by (auto simp: model_apply_def outcomeEqual_def split: option.splits)
  ultimately show ?case using Cons.prems(4) by auto
qed simp

lemma explains_append:
  "explains m (xs @ ys) \<longleftrightarrow> explains m xs \<and> explains (fold (\<lambda>p m. fst (model_apply m p)) xs m) ys"
  by (induction xs arbitrary: m) auto

text \<open>The model knows only the sequences of mutations it was given.\<close>

lemma session_origin:
  assumes "md_sessions (fold (\<lambda>p m. fst (model_apply m p)) xs m) i = Some st"
  shows "md_sessions m i = Some st \<or> (\<exists>p\<in>set xs. op_Kind p \<noteq> OpGet \<and> op_Session p = i \<and> op_Sequence p = sq_last st)"
  using assms
proof (induction xs arbitrary: m)
  case (Cons p xs)
  have "md_sessions (fst (model_apply m p)) i = Some st \<Longrightarrow> md_sessions m i = Some st \<or>
      op_Kind p \<noteq> OpGet \<and> op_Session p = i \<and> op_Sequence p = sq_last st"
    by (cases "op_Kind p") (auto simp: model_apply_def Let_def split: option.splits if_splits)
  with Cons.IH [of "fst (model_apply m p)"] Cons.prems show ?case by auto
qed simp

lemma fresh_set_performed:
  assumes "\<And>st. md_sessions m (op_Session p) = Some st \<Longrightarrow> op_Sequence p \<noteq> sq_last st" "op_Kind p = OpSet"
    and "outcomeEqual (snd (model_apply m p)) (op_Outcome p)" "oc_Error (op_Outcome p) = ''''"
  shows "md_values (fst (model_apply m p)) (op_Key p) \<noteq> None"
  using assms by (auto simp: model_apply_def outcomeEqual_def errorOutcome_def Let_def split: option.splits if_splits)

lemma linearizes_split:
  assumes l: "linearizes h {..<length h} m order omit" and ij: "i < length h" "j < length h" "precedes h i j"
    and c: "op_Complete (h ! j) \<noteq> 0"
  obtains xs ys where "filter (\<lambda>i. \<not> omit i) order = xs @ i # ys" "j \<in> set ys" "i \<notin> set xs" "set xs \<subseteq> {..<length h}"
    "set ys \<subseteq> {..<length h}"
proof -
  have o: "\<not> omit i" "\<not> omit j" "i \<noteq> j" using l ij c by (auto simp: linearizes_def precedes_def)
  define fo where "fo = filter (\<lambda>i. \<not> omit i) order"
  have fo: "distinct fo" "set fo \<subseteq> {..<length h}" "i \<in> set fo" "j \<in> set fo" "sorted_wrt (\<lambda>i j. \<not> precedes h j i) fo"
    using l ij o by (auto simp: linearizes_def fo_def sorted_wrt_filter)
  obtain xs ys where s: "fo = xs @ i # ys" using fo(3) by (meson split_list)
  with fo o ij(3) have "j \<in> set ys" by (auto simp: sorted_wrt_append)
  with that [of xs ys] s fo show thesis unfolding fo_def by auto
qed

text \<open>C25. A lost Delete makes the checker reject correct histories. Take any history in which a Set of a key was
  acknowledged, a later read did not find the key, and no Delete of the key is recorded to have removed it, as is the
  case when its reply was lost and its outcome is still empty; the Set is not a retry. \<^verbatim>\<open>Check\<close> refuses it, although a Delete whose reply was lost may have been
  performed between the two: \<^verbatim>\<open>checkOrder\<close> lets a pending call take effect only when its effect has the empty
  \<^verbatim>\<open>Outcome\<close>, which a Delete of an existing key never has.\<close>

theorem lost_delete_rejected:
  assumes "i < length h" and "j < length h" and "precedes h i j" and "op_Complete (h ! j) \<noteq> 0"
    and "op_Kind (h ! i) = OpSet" and "oc_Error (op_Outcome (h ! i)) = ''''"
    and "op_Kind (h ! j) = OpGet" and "op_Key (h ! j) = op_Key (h ! i)" and "\<not> oc_Found (op_Outcome (h ! j))"
    and "\<forall>p\<in>set h. op_Kind p = OpDelete \<and> op_Key p = op_Key (h ! i) \<longrightarrow> \<not> oc_Existed (op_Outcome p)"
    and "\<forall>k<length h. k \<noteq> i \<and> op_Kind (h ! k) \<noteq> OpGet \<longrightarrow>
      (op_Session (h ! k), op_Sequence (h ! k)) \<noteq> (op_Session (h ! i), op_Sequence (h ! i))"
  shows "Check h \<noteq> None"
proof
  assume "Check h = None"
  then obtain order omit where l: "linearizes h {..<length h} newModel order omit" by (rule accepted_linearizes)
  obtain xs ys where s: "filter (\<lambda>i. \<not> omit i) order = xs @ i # ys" "j \<in> set ys" "i \<notin> set xs"
    "set xs \<subseteq> {..<length h}" "set ys \<subseteq> {..<length h}"
    by (rule linearizes_split [OF l assms(1-4)])
  let ?m = "fold (\<lambda>p m. fst (model_apply m p)) (map ((!) h) xs) newModel"
  have e: "outcomeEqual (snd (model_apply ?m (h ! i))) (op_Outcome (h ! i))"
    "explains (fst (model_apply ?m (h ! i))) (map ((!) h) ys)"
    using l unfolding linearizes_def s(1) by (simp_all add: explains_append)
  have "op_Sequence (h ! i) \<noteq> sq_last st" if "md_sessions ?m (op_Session (h ! i)) = Some st" for st
    using session_origin [OF that] s(3,4) assms(11) by (fastforce simp: newModel_def)
  from fresh_set_performed [OF this assms(5) e(1) assms(6)]
  have "md_values (fst (model_apply ?m (h ! i))) (op_Key (h ! i)) \<noteq> None" by simp
  from value_stays [OF e(2) this, of "h ! j"] s(2,5) assms(7-10) show False by (fastforce dest: nth_mem)
qed

theorem lost_delete_rejected_witness:
  "Check (lost_delete zeroOutcome) \<noteq> None \<and> explains newModel (lost_delete (zeroOutcome\<lparr>oc_Existed := True\<rparr>))"
proof -
  have "Check (lost_delete zeroOutcome) \<noteq> None"
    by (rule lost_delete_rejected [of 0 _ 2])
       (auto simp: lost_delete_def lin_op_def precedes_def zeroOutcome_def errorOutcome_def less_Suc_eq numeral_eq_Suc)
  with lin_eval show ?thesis by simp
qed

text \<open>C26. Calls that share one instant cannot be ordered: two completed calls that begin and end at the
  same clock reading each have to come before the other, so no history that contains them is accepted,
  although they were concurrent. The code orders on \<^verbatim>\<open>!Invoke.Before(Complete)\<close>, its comment on
  completion before the invocation.\<close>

theorem same_instant_rejected:
  assumes "i < length h" and "j < length h" and "i \<noteq> j" and "t \<noteq> 0"
    and "op_Invoke (h ! i) = t" and "op_Complete (h ! i) = t"
    and "op_Invoke (h ! j) = t" and "op_Complete (h ! j) = t"
  shows "Check h \<noteq> None"
proof
  assume "Check h = None"
  then obtain order omit where o: "linearizes h {..<length h} newModel order omit" by (rule accepted_linearizes)
  then obtain a b where "a < length order" "b < length order" "order ! a = i" "order ! b = j"
    using assms(1,2) by (auto simp: linearizes_def in_set_conv_nth set_eq_iff) metis
  moreover have "precedes h i j" "precedes h j i" using assms by (auto simp: precedes_def)
  ultimately show False
    using o assms(3) by (cases a b rule: linorder_cases) (auto simp: linearizes_def sorted_wrt_iff_nth_less)
qed

theorem same_instant_rejected_witness:
  "Check [lin_op OpSet 1 5 5 zeroOutcome, lin_op OpGet 0 5 5 zeroOutcome] \<noteq> None"
  by (rule same_instant_rejected [of 0 _ 1 5]) (simp_all add: lin_op_def)

text \<open>The recorder keeps the first completion: completing a call sets its outcome once, a second
  completion of the same call changes nothing, and no other call is touched.\<close>

theorem recorder_first_completion:
  assumes "Start h invoked kind session sequence key val = (h1, index)" and "now \<noteq> 0"
  shows "complete_op (complete_op h1 index now outcome) index later other = complete_op h1 index now outcome \<and>
    op_Outcome (complete_op h1 index now outcome ! index) = outcome \<and>
    take index (complete_op h1 index now outcome) = h"
  using assms by (auto simp: Start_def complete_op_def)

theorem recorder_first_completion_witness:
  "\<exists>h1. Start [] 1 OpSet [1] 1 ''k'' [7] = (h1, 0) \<and>
     complete_op (complete_op h1 0 2 zeroOutcome) 0 3 (errorOutcome ''late'') = complete_op h1 0 2 zeroOutcome"
proof -
  obtain h1 where h1: "Start [] 1 OpSet [1] 1 ''k'' [7] = (h1, 0)" by (simp add: Start_def)
  from recorder_first_completion [OF h1, of 2] h1 show ?thesis by simp
qed

end
