(* ===== verification/Coordinator.thy ===== *)
theory Coordinator
  imports Sessions "HOL-Library.Multiset"
begin

text \<open>
  The command coordinator, \<^verbatim>\<open>src/internal/node/command_coordinator.go\<close>: it owns the replicated session
  machine and every Client request that waits for a Raft result. A result channel and a request
  context are named by numbers; sending on a channel is a \<open>Reply\<close> the operation returns. The maps the
  code iterates over are association lists. The metrics counter and the test-only mutation observer,
  which is nil in production, have no effect on the state and are left out.

  Shown here: every operation conserves requests, that is, a request is at any time either waiting or
  answered, never both and never twice; only cancellation drops one.
\<close>

subsection \<open>Inputs and waiting requests\<close>

type_synonym Channel = nat
type_synonym Context = nat

record readResult =
  rd_value :: "byte list"
  rd_found :: bool
  rd_leaderID :: NodeID
  rd_rejected :: bool

record proposalInput =
  pi_event :: Event
  pi_result :: Channel
  pi_ctx :: Context

record readInput =
  ri_readID :: ReadID
  ri_result :: Channel
  ri_ctx :: Context
  ri_key :: string

datatype runtimeInput =
    raftEventInput Event
  | ProposalInput proposalInput
  | ReadInput readInput
  | snapshotInput Channel

record pendingProposal =
  pp_result :: Channel
  pp_ctx :: Context

record inFlightMutation =
  if_sequence :: u64
  if_index :: u64

text \<open>The coordinator's own \<^verbatim>\<open>pendingRead\<close>.\<close>

record waitingRead =
  wr_result :: Channel
  wr_ctx :: Context
  wr_key :: string

record commandCoordinator =
  cc_state :: sessionMachine
  cc_pending :: "(u64 \<times> pendingProposal list) list"
  cc_inFlightMutations :: "SessionID \<rightharpoonup> inFlightMutation"
  cc_pendingReads :: "(ReadID \<times> waitingRead) list"

datatype Reply = ProposalReply Channel proposalResult | ReadReply Channel readResult

definition newCommandCoordinator :: "int \<Rightarrow> commandCoordinator" where
  "newCommandCoordinator limit =
     \<lparr>cc_state = newSessionMachine limit, cc_pending = [], cc_inFlightMutations = Map.empty,
      cc_pendingReads = []\<rparr>"

subsection \<open>Snapshots and recovery\<close>

definition coordinator_restore ::
  "commandCoordinator \<Rightarrow> SnapshotState option \<Rightarrow> commandCoordinator \<times> restoreError option" where
  "coordinator_restore c state =
     (let (m, err) = machine_restore (cc_state c) state in (c\<lparr>cc_state := m\<rparr>, err))"

definition coordinator_snapshot :: "commandCoordinator \<Rightarrow> Identity \<Rightarrow> u64 \<Rightarrow> u64 \<Rightarrow> SnapshotState" where
  "coordinator_snapshot c identity includedIndex includedTerm =
     machine_snapshot (cc_state c) identity includedIndex includedTerm"

text \<open>\<^verbatim>\<open>recover\<close>; the flag tells whether all actions were applications, \<open>None\<close> is the panic of
  \<^verbatim>\<open>apply\<close>.\<close>

fun recover :: "commandCoordinator \<Rightarrow> Action list \<Rightarrow> (commandCoordinator \<times> bool) option" where
  "recover c [] = Some (c, True)"
| "recover c (ApplyEntry entry # rest) =
     (case applyEntry (cc_state c) entry of
        None \<Rightarrow> None
      | Some (m, _) \<Rightarrow> recover (c\<lparr>cc_state := m\<rparr>) rest)"
| "recover c (_ # rest) = Some (c, False)"

subsection \<open>Requests\<close>

text \<open>\<open>ended\<close> are the contexts that report an error.\<close>

definition pruneCanceled :: "Context set \<Rightarrow> commandCoordinator \<Rightarrow> commandCoordinator" where
  "pruneCanceled ended c =
     c\<lparr>cc_pending := filter (\<lambda>(_, proposals). proposals \<noteq> [])
         (map (\<lambda>(index, proposals). (index, filter (\<lambda>p. pp_ctx p \<notin> ended) proposals)) (cc_pending c)),
       cc_pendingReads := filter (\<lambda>(_, read). wr_ctx read \<notin> ended) (cc_pendingReads c)\<rparr>"

fun proposedMutation :: "Event \<Rightarrow> (SessionID \<times> u64) option" where
  "proposedMutation (EvProposeSet p) = Some (pset_SessionID p, pset_Sequence p)"
| "proposedMutation (EvProposeDelete p) = Some (pdel_SessionID p, pdel_Sequence p)"
| "proposedMutation _ = None"

definition isMutationEntry :: "LogEntry \<Rightarrow> bool" where
  "isMutationEntry entry \<longleftrightarrow> e_Type entry = EntrySet \<or> e_Type entry = EntryDelete"

definition proposalsAt :: "commandCoordinator \<Rightarrow> u64 \<Rightarrow> pendingProposal list" where
  "proposalsAt c index = (case map_of (cc_pending c) index of None \<Rightarrow> [] | Some ps \<Rightarrow> ps)"

text \<open>\<^verbatim>\<open>c.pending[index] = append(c.pending[index], ...)\<close>.\<close>

definition await :: "commandCoordinator \<Rightarrow> u64 \<Rightarrow> proposalInput \<Rightarrow> commandCoordinator" where
  "await c index input =
     c\<lparr>cc_pending := AList.update index
         (proposalsAt c index @ [\<lparr>pp_result = pi_result input, pp_ctx = pi_ctx input\<rparr>]) (cc_pending c)\<rparr>"

text \<open>\<^verbatim>\<open>beginProposal\<close> returns the event for Raft, or none when the request is already waiting or
  answered.\<close>

definition beginProposal ::
  "commandCoordinator \<Rightarrow> proposalInput \<Rightarrow> commandCoordinator \<times> Reply list \<times> Event option" where
  "beginProposal c input =
     (case proposedMutation (pi_event input) of
        None \<Rightarrow> (c, [], Some (pi_event input))
      | Some (sessionID, sequence) \<Rightarrow>
          (case cc_inFlightMutations c sessionID of
             Some inFlight \<Rightarrow>
               if if_sequence inFlight = sequence then (await c (if_index inFlight) input, [], None)
               else (let (result, shouldPropose) = evaluateMutation (cc_state c) sessionID sequence
                     in if \<not> shouldPropose then (c, [ProposalReply (pi_result input) result], None)
                        else (c, [], Some (pi_event input)))
           | None \<Rightarrow>
               (let (result, shouldPropose) = evaluateMutation (cc_state c) sessionID sequence
                in if \<not> shouldPropose then (c, [ProposalReply (pi_result input) result], None)
                   else (c, [], Some (pi_event input)))))"

definition beginRead :: "commandCoordinator \<Rightarrow> readInput \<Rightarrow> commandCoordinator \<times> Event" where
  "beginRead c input =
     (c\<lparr>cc_pendingReads := AList.update (ri_readID input)
          \<lparr>wr_result = ri_result input, wr_ctx = ri_ctx input, wr_key = ri_key input\<rparr> (cc_pendingReads c)\<rparr>,
      ConfirmRead (ri_readID input))"

subsection \<open>Results\<close>

definition rejectedProposal :: "NodeID \<Rightarrow> proposalResult" where
  "rejectedProposal leaderID = zeroResult\<lparr>res_leaderID := leaderID, res_rejected := True\<rparr>"

definition rejectedRead :: "NodeID \<Rightarrow> readResult" where
  "rejectedRead leaderID = \<lparr>rd_value = [], rd_found = False, rd_leaderID = leaderID, rd_rejected = True\<rparr>"

text \<open>The case of \<^verbatim>\<open>handle\<close> for an applied entry.\<close>

definition handleApply :: "commandCoordinator \<Rightarrow> LogEntry \<Rightarrow> (commandCoordinator \<times> Reply list) option" where
  "handleApply c entry =
     (case applyEntry (cc_state c) entry of
        None \<Rightarrow> None
      | Some (m, result) \<Rightarrow>
          let c = c\<lparr>cc_state := m\<rparr>;
              inFlightSequence = (case cc_inFlightMutations c (e_SessionID entry) of
                 None \<Rightarrow> 0 | Some f \<Rightarrow> if_sequence f);
              c = (if isMutationEntry entry \<and> inFlightSequence = e_Sequence entry
                   then c\<lparr>cc_inFlightMutations := map_delete (cc_inFlightMutations c) (e_SessionID entry)\<rparr>
                   else c)
          in Some (c\<lparr>cc_pending := AList.delete (e_Index entry) (cc_pending c)\<rparr>,
                   map (\<lambda>p. ProposalReply (pp_result p) result) (proposalsAt c (e_Index entry))))"

text \<open>\<^verbatim>\<open>handle\<close>: the flag tells whether the action was fully handled. \<open>current\<close> is the input the
  runtime loop is processing, none when a timer fired.\<close>

fun handle :: "commandCoordinator \<Rightarrow> Action \<Rightarrow> runtimeInput option \<Rightarrow>
    (commandCoordinator \<times> Reply list \<times> bool) option" where
  "handle c (ProposalAccepted _ index) current =
     (case current of
        Some (ProposalInput input) \<Rightarrow>
          let c = await c index input;
              c = (case proposedMutation (pi_event input) of
                     None \<Rightarrow> c
                   | Some (sessionID, sequence) \<Rightarrow>
                       c\<lparr>cc_inFlightMutations := (cc_inFlightMutations c)
                           (sessionID \<mapsto> \<lparr>if_sequence = sequence, if_index = index\<rparr>)\<rparr>)
          in Some (c, [], True)
      | _ \<Rightarrow> Some (c, [], True))"
| "handle c (ProposalRejected _ leaderID) current =
     (case current of
        Some (ProposalInput input) \<Rightarrow> Some (c, [ProposalReply (pi_result input) (rejectedProposal leaderID)], True)
      | _ \<Rightarrow> Some (c, [], True))"
| "handle c (ApplyEntry entry) current =
     map_option (\<lambda>(c, sent). (c, sent, True)) (handleApply c entry)"
| "handle c (ReadConfirmed readID _) current =
     (case map_of (cc_pendingReads c) readID of
        None \<Rightarrow> Some (c, [], True)
      | Some read \<Rightarrow>
          let (value, found) = machine_get (cc_state c) (wr_key read)
          in Some (c\<lparr>cc_pendingReads := AList.delete readID (cc_pendingReads c)\<rparr>,
                   [ReadReply (wr_result read)
                      \<lparr>rd_value = value, rd_found = found, rd_leaderID = '''', rd_rejected = False\<rparr>], True))"
| "handle c (ReadRejected readID leaderID) current =
     (case map_of (cc_pendingReads c) readID of
        None \<Rightarrow> Some (c, [], True)
      | Some read \<Rightarrow>
          Some (c\<lparr>cc_pendingReads := AList.delete readID (cc_pendingReads c)\<rparr>,
                [ReadReply (wr_result read) (rejectedRead leaderID)], True))"
| "handle c _ current = Some (c, [], False)"

definition lostLeadership :: "commandCoordinator \<Rightarrow> NodeID \<Rightarrow> commandCoordinator \<times> Reply list" where
  "lostLeadership c leaderID =
     (c\<lparr>cc_pending := [], cc_inFlightMutations := Map.empty, cc_pendingReads := []\<rparr>,
      concat (map (\<lambda>(_, proposals). map (\<lambda>p. ProposalReply (pp_result p) (rejectedProposal leaderID)) proposals)
        (cc_pending c)) @
      map (\<lambda>(_, read). ReadReply (wr_result read) (rejectedRead leaderID)) (cc_pendingReads c))"

subsection \<open>Conservation of requests\<close>

fun replyChannel :: "Reply \<Rightarrow> Channel" where
  "replyChannel (ProposalReply ch _) = ch"
| "replyChannel (ReadReply ch _) = ch"

definition answered :: "Reply list \<Rightarrow> Channel multiset" where
  "answered sent = mset (map replyChannel sent)"

definition waiting :: "commandCoordinator \<Rightarrow> Channel multiset" where
  "waiting c = mset (concat (map (\<lambda>(_, ps). map pp_result ps) (cc_pending c))) +
     mset (map (\<lambda>(_, read). wr_result read) (cc_pendingReads c))"

text \<open>The association lists stand for maps: no key twice.\<close>

definition coordinator_ok :: "commandCoordinator \<Rightarrow> bool" where
  "coordinator_ok c \<longleftrightarrow> distinct (map fst (cc_pending c)) \<and> distinct (map fst (cc_pendingReads c))"

lemma answered_append [simp]: "answered (rs @ rs') = answered rs + answered rs'"
  by (simp add: answered_def)

lemma answered_Nil [simp]: "answered [] = {#}"
  by (simp add: answered_def)

lemma new_coordinator_ok [simp]: "coordinator_ok (newCommandCoordinator limit)" "waiting (newCommandCoordinator limit) = {#}"
  by (simp_all add: newCommandCoordinator_def coordinator_ok_def waiting_def)

text \<open>The weight of an association list under its two updates.\<close>

definition weight :: "('v \<Rightarrow> 'c multiset) \<Rightarrow> ('k \<times> 'v) list \<Rightarrow> 'c multiset" where
  "weight g al = sum_list (map (\<lambda>(_, v). g v) al)"

lemma weight_update:
  "weight g (AList.update k v al) + (case map_of al k of None \<Rightarrow> {#} | Some w \<Rightarrow> g w) = weight g al + g v"
  by (induction al) (auto simp: weight_def ac_simps split: option.splits)

lemma weight_delete:
  assumes "distinct (map fst al)"
  shows "weight g (AList.delete k al) + (case map_of al k of None \<Rightarrow> {#} | Some w \<Rightarrow> g w) = weight g al"
  using assms
proof (induction al)
  case (Cons p al)
  show ?case
  proof (cases "fst p = k")
    case True
    with Cons.prems have "k \<notin> fst ` set al" by auto
    then have "AList.delete k al = al" "map_of al k = None"
      by (auto simp: AList.delete_id map_of_eq_None_iff)
    with True show ?thesis by (cases p) (simp add: weight_def ac_simps)
  next
    case False
    with Cons show ?thesis by (cases p) (simp add: weight_def ac_simps)
  qed
qed (simp add: weight_def)

lemma waiting_weight:
  "waiting c = weight (\<lambda>ps. mset (map pp_result ps)) (cc_pending c) + weight (\<lambda>r. {#wr_result r#}) (cc_pendingReads c)"
proof -
  have "mset (concat (map (\<lambda>(_, ps). map pp_result ps) al)) = weight (\<lambda>ps. mset (map pp_result ps)) al"
    for al :: "(u64 \<times> pendingProposal list) list"
    by (induction al) (auto simp: weight_def)
  moreover have "mset (map (\<lambda>(_, read). wr_result read) al) = weight (\<lambda>r. {#wr_result r#}) al"
    for al :: "(ReadID \<times> waitingRead) list"
    by (induction al) (auto simp: weight_def)
  ultimately show ?thesis by (simp add: waiting_def)
qed

lemma await_waiting:
  "waiting (await c index input) = waiting c + {#pi_result input#}"
  "coordinator_ok c \<Longrightarrow> coordinator_ok (await c index input)"
proof -
  let ?g = "\<lambda>ps. mset (map pp_result ps)"
  have "weight ?g (cc_pending (await c index input)) + ?g (proposalsAt c index) =
      weight ?g (cc_pending c) + ?g (proposalsAt c index) + {#pi_result input#}"
    using weight_update [of ?g index "proposalsAt c index @ [\<lparr>pp_result = pi_result input, pp_ctx = pi_ctx input\<rparr>]" "cc_pending c"]
    by (auto simp: await_def proposalsAt_def split: option.splits)
  then have "weight ?g (cc_pending (await c index input)) = weight ?g (cc_pending c) + {#pi_result input#}"
    by (simp only: add.assoc add.commute [of "?g (proposalsAt c index)"]) (simp only: add.assoc [symmetric] add_right_cancel)
  then show "waiting (await c index input) = waiting c + {#pi_result input#}"
    by (simp add: waiting_weight await_def)
  show "coordinator_ok c \<Longrightarrow> coordinator_ok (await c index input)"
    by (simp add: coordinator_ok_def await_def distinct_update)
qed

lemma beginProposal_conserves:
  assumes "beginProposal c input = (c', sent, event)" "coordinator_ok c"
  shows "coordinator_ok c'"
    and "waiting c' + answered sent = waiting c + (if event = None then {#pi_result input#} else {#})"
  using assms
  by (auto simp: beginProposal_def Let_def answered_def await_waiting split: option.splits prod.splits if_splits)

lemma beginRead_conserves:
  assumes "beginRead c input = (c', event)" "coordinator_ok c" "ri_readID input \<notin> fst ` set (cc_pendingReads c)"
  shows "coordinator_ok c'" "waiting c' = waiting c + {#ri_result input#}"
proof -
  show "coordinator_ok c'" using assms by (auto simp: beginRead_def coordinator_ok_def distinct_update)
  have "map_of (cc_pendingReads c) (ri_readID input) = None" using assms(3) by (simp add: map_of_eq_None_iff)
  then show "waiting c' = waiting c + {#ri_result input#}"
    using assms(1) weight_update [of "\<lambda>r. {#wr_result r#}" "ri_readID input" _ "cc_pendingReads c"]
    by (auto simp: beginRead_def waiting_weight)
qed

text \<open>The request a Raft action settles for the current input.\<close>

fun taken :: "Action \<Rightarrow> runtimeInput option \<Rightarrow> Channel multiset" where
  "taken (ProposalAccepted _ _) (Some (ProposalInput input)) = {#pi_result input#}"
| "taken (ProposalRejected _ _) (Some (ProposalInput input)) = {#pi_result input#}"
| "taken _ _ = {#}"

lemma handleApply_conserves:
  assumes "handleApply c entry = Some (c', sent)" "coordinator_ok c"
  shows "coordinator_ok c'" "waiting c' + answered sent = waiting c"
proof -
  let ?g = "\<lambda>ps. mset (map pp_result ps)"
  obtain m result where m: "applyEntry (cc_state c) entry = Some (m, result)"
    using assms(1) by (auto simp: handleApply_def split: option.splits)
  have c': "cc_pending c' = AList.delete (e_Index entry) (cc_pending c)" "cc_pendingReads c' = cc_pendingReads c"
    "sent = map (\<lambda>p. ProposalReply (pp_result p) result) (proposalsAt c (e_Index entry))"
    using assms(1) m by (auto simp: handleApply_def Let_def proposalsAt_def split: if_splits)
  show "coordinator_ok c'" using assms(2) c' by (simp add: coordinator_ok_def distinct_delete)
  have "answered sent = ?g (proposalsAt c (e_Index entry))" by (simp add: c'(3) answered_def comp_def)
  moreover have "weight ?g (cc_pending c') + ?g (proposalsAt c (e_Index entry)) = weight ?g (cc_pending c)"
    using weight_delete [of "cc_pending c" ?g "e_Index entry"] assms(2)
    by (cases "map_of (cc_pending c) (e_Index entry)") (simp_all add: c'(1) coordinator_ok_def proposalsAt_def)
  ultimately show "waiting c' + answered sent = waiting c" by (simp add: waiting_weight c'(2) ac_simps)
qed

lemma readAnswer_conserves:
  assumes "map_of (cc_pendingReads c) readID = Some read" "coordinator_ok c"
  shows "coordinator_ok (c\<lparr>cc_pendingReads := AList.delete readID (cc_pendingReads c)\<rparr>)"
    "waiting (c\<lparr>cc_pendingReads := AList.delete readID (cc_pendingReads c)\<rparr>) + {#wr_result read#} = waiting c"
  using assms weight_delete [of "cc_pendingReads c" "\<lambda>r. {#wr_result r#}" readID]
  by (simp_all add: coordinator_ok_def distinct_delete waiting_weight)

lemma handle_conserves:
  assumes "handle c a current = Some (c', sent, b)" "coordinator_ok c"
  shows "coordinator_ok c' \<and> waiting c' + answered sent = waiting c + taken a current"
proof (cases a)
  case (ProposalAccepted pid index)
  have frame: "coordinator_ok (d\<lparr>cc_inFlightMutations := f\<rparr>) = coordinator_ok d"
    "waiting (d\<lparr>cc_inFlightMutations := f\<rparr>) = waiting d" for d f
    by (simp_all add: coordinator_ok_def waiting_def)
  show ?thesis
    using assms ProposalAccepted
    by (auto simp: Let_def await_waiting frame split: option.splits runtimeInput.splits)
next
  case (ApplyEntry entry)
  then show ?thesis using assms handleApply_conserves [of c entry] by auto
next
  case (ReadConfirmed readID commitIndex)
  then show ?thesis
    using assms readAnswer_conserves [of c readID]
    by (auto simp: answered_def split: option.splits prod.splits)
next
  case (ReadRejected readID leaderID)
  then show ?thesis
    using assms readAnswer_conserves [of c readID]
    by (auto simp: answered_def split: option.splits)
qed (use assms in \<open>auto simp: answered_def split: option.splits runtimeInput.splits\<close>)

lemma lostLeadership_conserves:
  assumes "lostLeadership c leaderID = (c', sent)"
  shows "coordinator_ok c'" "waiting c' = {#}" "answered sent = waiting c"
proof -
  show "coordinator_ok c'" "waiting c' = {#}"
    using assms by (auto simp: lostLeadership_def coordinator_ok_def waiting_def)
  have p: "mset (map replyChannel (concat (map (\<lambda>(_, ps). map (\<lambda>p. ProposalReply (pp_result p) r) ps) al))) =
      mset (concat (map (\<lambda>(_, ps). map pp_result ps) al))" for r and al :: "(u64 \<times> pendingProposal list) list"
    by (induction al) (auto simp: multiset.map_comp comp_def)
  have q: "mset (map replyChannel (map (\<lambda>(_, read). ReadReply (wr_result read) r) al)) =
      mset (map (\<lambda>(_, read). wr_result read) al)" for r and al :: "(ReadID \<times> waitingRead) list"
    by (induction al) auto
  show "answered sent = waiting c"
    using assms p [of "rejectedProposal leaderID" "cc_pending c"] q [of "rejectedRead leaderID" "cc_pendingReads c"]
    by (auto simp only: lostLeadership_def answered_def waiting_def prod.inject map_append mset_append)
qed

lemma pruneCanceled_drops:
  assumes "coordinator_ok c"
  shows "coordinator_ok (pruneCanceled ended c)" "waiting (pruneCanceled ended c) \<subseteq># waiting c"
proof -
  have "distinct (map fst al) \<Longrightarrow> distinct (map fst (filter P (map (\<lambda>(i, ps). (i, f ps)) al)))"
    for P and f :: "pendingProposal list \<Rightarrow> pendingProposal list" and al :: "(u64 \<times> pendingProposal list) list"
    by (induction al) (auto simp: image_iff)
  then show "coordinator_ok (pruneCanceled ended c)"
    using assms by (simp add: coordinator_ok_def pruneCanceled_def distinct_map_filter)
  have "weight (\<lambda>ps. mset (map pp_result ps)) (filter (\<lambda>(_, ps). ps \<noteq> []) (map (\<lambda>(i, ps). (i, filter P ps)) al))
      \<subseteq># weight (\<lambda>ps. mset (map pp_result ps)) al" for P and al :: "(u64 \<times> pendingProposal list) list"
  proof (induction al)
    case (Cons p al)
    obtain i ps where p: "p = (i, ps)" by (cases p)
    have "image_mset pp_result (filter_mset P (mset ps)) \<subseteq># image_mset pp_result (mset ps)"
      by (intro image_mset_subseteq_mono multiset_filter_subset)
    with Cons.IH show ?case
      by (cases "filter P ps = []") (simp_all add: weight_def p subset_mset.add_mono subset_mset.add_increasing)
  qed (simp add: weight_def)
  moreover have "weight (\<lambda>r. {#wr_result r#}) (filter (\<lambda>(_, r). P r) al) \<subseteq># weight (\<lambda>r. {#wr_result r#}) al"
    for P and al :: "(ReadID \<times> waitingRead) list"
    by (induction al) (auto simp: weight_def intro: subset_mset.order_trans)
  ultimately show "waiting (pruneCanceled ended c) \<subseteq># waiting c"
    by (auto simp: waiting_weight pruneCanceled_def intro!: subset_mset.add_mono)
qed

end
