(* ===== verification/Peer.thy ===== *)
theory Peer
  imports Config Raft_Cluster
begin

text \<open>
  The peer protocol, \<^verbatim>\<open>src/internal/node/peer.go\<close>: what a Node sends for a Raft action, what the
  receiver makes of it, who may talk to whom, and the transfer of a Snapshot file in chunks. The
  generated protobuf messages are records and a datatype for the \<^verbatim>\<open>oneof\<close>; gRPC itself, which carries a
  message or reports a status code, is an argument of the operations that call it.

  Shown here: a message arrives as the event the cluster model delivers, so the network assumption of
  \<open>Raft_Cluster\<close> is what the transport implements; and two Nodes of one configuration accept each
  other.
\<close>

subsection \<open>Messages\<close>

text \<open>\<^verbatim>\<open>RaftEntryType\<close>: protobuf enums are open, so any 32-bit number may arrive.\<close>

type_synonym RaftEntryType = int

record WireEntry =
  we_Index :: u64
  we_Term :: u64
  we_Type :: RaftEntryType
  we_SessionId :: "byte list"
  we_Sequence :: u64
  we_Key :: string
  we_Value :: "byte list"

record WireAppendEntries =
  wa_Term :: u64
  wa_RequestId :: u64
  wa_PreviousLogIndex :: u64
  wa_PreviousLogTerm :: u64
  wa_Entries :: "WireEntry list"
  wa_LeaderCommit :: u64
  wa_ReadId :: u64

record WireAppendResponse =
  wp_Term :: u64
  wp_RequestId :: u64
  wp_Success :: bool
  wp_MatchIndex :: u64
  wp_ConflictTerm :: u64
  wp_ConflictIndex :: u64
  wp_ReadId :: u64

record WireSnapshot =
  wn_Term :: u64
  wn_RequestId :: u64
  wn_SnapshotIndex :: u64
  wn_SnapshotTerm :: u64
  wn_SnapshotLength :: u64
  wn_SnapshotChecksum :: u32
  wn_Offset :: u64
  wn_Data :: "byte list"
  wn_Done :: bool

record WireSnapshotResponse =
  wsr_Term :: u64
  wsr_RequestId :: u64
  wsr_Success :: bool
  wsr_NextOffset :: u64
  wsr_SnapshotIndex :: u64
  wsr_Done :: bool

datatype PeerMessage =
    WirePreVoteRequest u64 u64 u64 \<comment> \<open>\<^verbatim>\<open>Term\<close>, \<^verbatim>\<open>LastLogIndex\<close>, \<^verbatim>\<open>LastLogTerm\<close>\<close>
  | WirePreVoteResponse u64 u64 bool \<comment> \<open>\<^verbatim>\<open>Term\<close>, \<^verbatim>\<open>CurrentTerm\<close>, \<^verbatim>\<open>Granted\<close>\<close>
  | WireVoteRequest u64 u64 u64 \<comment> \<open>\<^verbatim>\<open>Term\<close>, \<^verbatim>\<open>LastLogIndex\<close>, \<^verbatim>\<open>LastLogTerm\<close>\<close>
  | WireVoteResponse u64 bool \<comment> \<open>\<^verbatim>\<open>Term\<close>, \<^verbatim>\<open>Granted\<close>\<close>
  | AppendEntriesRequest WireAppendEntries
  | WireAppendEntriesResponse WireAppendResponse
  | InstallSnapshotRequest WireSnapshot
  | WireInstallSnapshotResponse WireSnapshotResponse

text \<open>\<^verbatim>\<open>SendRequest\<close>; its \<^verbatim>\<open>oneof\<close> may be unset.\<close>

record SendRequest =
  req_ProtocolVersion :: u32
  req_ClusterId :: string
  req_FromNodeId :: string
  req_ToNodeId :: string
  req_Message :: "PeerMessage option"

definition peerProtocolVersion :: u32 where
  "peerProtocolVersion = 1"

subsection \<open>Encoding\<close>

definition encodeEntryType :: "EntryType \<Rightarrow> RaftEntryType" where
  "encodeEntryType t =
     (if t = EntryNoOp then 1 else if t = EntryOpenSession then 2 else if t = EntryCloseSession then 3
      else if t = EntrySet then 4 else if t = EntryDelete then 5 else 0)"

definition decodeEntryType :: "RaftEntryType \<Rightarrow> EntryType option" where
  "decodeEntryType t =
     (if t = 1 then Some EntryNoOp else if t = 2 then Some EntryOpenSession
      else if t = 3 then Some EntryCloseSession else if t = 4 then Some EntrySet
      else if t = 5 then Some EntryDelete else None)"

definition encodeWireEntry :: "LogEntry \<Rightarrow> WireEntry" where
  "encodeWireEntry e =
     \<lparr>we_Index = e_Index e, we_Term = e_Term e, we_Type = encodeEntryType (e_Type e),
      we_SessionId = e_SessionID e, we_Sequence = e_Sequence e, we_Key = e_Key e, we_Value = e_Value e\<rparr>"

fun encodeMessage :: "Action \<Rightarrow> (NodeID \<times> PeerMessage) option" where
  "encodeMessage (SendPreVoteRequest to r) =
     Some (to, WirePreVoteRequest (pvq_Term r) (pvq_LastLogIndex r) (pvq_LastLogTerm r))"
| "encodeMessage (SendPreVoteResponse to r) =
     Some (to, WirePreVoteResponse (pvr_Term r) (pvr_CurrentTerm r) (pvr_Granted r))"
| "encodeMessage (SendVoteRequest to r) =
     Some (to, WireVoteRequest (vq_Term r) (vq_LastLogIndex r) (vq_LastLogTerm r))"
| "encodeMessage (SendVoteResponse to r) = Some (to, WireVoteResponse (vr_Term r) (vr_Granted r))"
| "encodeMessage (SendAppendEntries to r) =
     Some (to, AppendEntriesRequest
       \<lparr>wa_Term = ae_Term r, wa_RequestId = ae_RequestID r, wa_PreviousLogIndex = ae_PrevLogIndex r,
        wa_PreviousLogTerm = ae_PrevLogTerm r, wa_Entries = map encodeWireEntry (ae_Entries r),
        wa_LeaderCommit = ae_LeaderCommit r, wa_ReadId = ae_ReadID r\<rparr>)"
| "encodeMessage (SendAppendEntriesResponse to r) =
     Some (to, WireAppendEntriesResponse
       \<lparr>wp_Term = ar_Term r, wp_RequestId = ar_RequestID r, wp_Success = ar_Success r,
        wp_MatchIndex = ar_MatchIndex r, wp_ConflictTerm = ar_ConflictTerm r,
        wp_ConflictIndex = ar_ConflictIndex r, wp_ReadId = ar_ReadID r\<rparr>)"
| "encodeMessage (SendInstallSnapshotResponse to r) =
     Some (to, WireInstallSnapshotResponse
       \<lparr>wsr_Term = ir_Term r, wsr_RequestId = ir_RequestID r, wsr_Success = ir_Success r,
        wsr_NextOffset = ir_NextOffset r, wsr_SnapshotIndex = ir_SnapshotIndex r, wsr_Done = ir_Done r\<rparr>)"
| "encodeMessage _ = None"

text \<open>\<^verbatim>\<open>encodeRaftAction\<close>; none for an action that is not a message.\<close>

definition encodeRaftAction :: "Config \<Rightarrow> Action \<Rightarrow> (NodeID \<times> SendRequest) option" where
  "encodeRaftAction cfg action =
     map_option (\<lambda>(to, message).
       (to, \<lparr>req_ProtocolVersion = peerProtocolVersion, req_ClusterId = cfg_ClusterID cfg,
             req_FromNodeId = nc_ID (cfg_Node cfg), req_ToNodeId = to, req_Message = Some message\<rparr>))
       (encodeMessage action)"

subsection \<open>Decoding\<close>

datatype DecodeError = unsupportedEntryType RaftEntryType | badSessionLength nat | payloadRequired

text \<open>\<^verbatim>\<open>copy(sessionID[:], entry.SessionId)\<close> fills the beginning of a zero identity.\<close>

definition copySession :: "byte list \<Rightarrow> SessionID" where
  "copySession bs = take 16 bs @ drop (length bs) zeroSessionID"

definition decodeWireEntry :: "WireEntry \<Rightarrow> DecodeError + LogEntry" where
  "decodeWireEntry e =
     (case decodeEntryType (we_Type e) of
        None \<Rightarrow> Inl (unsupportedEntryType (we_Type e))
      | Some entryType \<Rightarrow>
          if entryType \<noteq> EntryNoOp \<and> length (we_SessionId e) \<noteq> 16
          then Inl (badSessionLength (length (we_SessionId e)))
          else if entryType = EntryNoOp \<and> length (we_SessionId e) \<noteq> 0 \<and> length (we_SessionId e) \<noteq> 16
          then Inl (badSessionLength (length (we_SessionId e)))
          else Inr \<lparr>e_Index = we_Index e, e_Term = we_Term e, e_Type = entryType,
                    e_SessionID = copySession (we_SessionId e), e_Sequence = we_Sequence e,
                    e_Key = we_Key e, e_Value = we_Value e\<rparr>)"

fun decodeWireEntries :: "WireEntry list \<Rightarrow> DecodeError + LogEntry list" where
  "decodeWireEntries [] = Inr []"
| "decodeWireEntries (e # es) =
     (case decodeWireEntry e of
        Inl err \<Rightarrow> Inl err
      | Inr entry \<Rightarrow> (case decodeWireEntries es of Inl err \<Rightarrow> Inl err | Inr rest \<Rightarrow> Inr (entry # rest)))"

fun decodeMessage :: "NodeID \<Rightarrow> PeerMessage \<Rightarrow> DecodeError + Event" where
  "decodeMessage from (WirePreVoteRequest t i lt) =
     Inr (EvPreVoteRequest \<lparr>pvq_From = from, pvq_Term = t, pvq_LastLogIndex = i, pvq_LastLogTerm = lt\<rparr>)"
| "decodeMessage from (WirePreVoteResponse t ct g) =
     Inr (EvPreVoteResponse \<lparr>pvr_From = from, pvr_Term = t, pvr_CurrentTerm = ct, pvr_Granted = g\<rparr>)"
| "decodeMessage from (WireVoteRequest t i lt) =
     Inr (EvVoteRequest \<lparr>vq_From = from, vq_Term = t, vq_LastLogIndex = i, vq_LastLogTerm = lt\<rparr>)"
| "decodeMessage from (WireVoteResponse t g) =
     Inr (EvVoteResponse \<lparr>vr_From = from, vr_Term = t, vr_Granted = g\<rparr>)"
| "decodeMessage from (AppendEntriesRequest m) =
     (case decodeWireEntries (wa_Entries m) of
        Inl err \<Rightarrow> Inl err
      | Inr entries \<Rightarrow>
          Inr (EvAppendEntries
            \<lparr>ae_From = from, ae_Term = wa_Term m, ae_RequestID = wa_RequestId m,
             ae_PrevLogIndex = wa_PreviousLogIndex m, ae_PrevLogTerm = wa_PreviousLogTerm m,
             ae_Entries = entries, ae_LeaderCommit = wa_LeaderCommit m, ae_ReadID = wa_ReadId m\<rparr>))"
| "decodeMessage from (WireAppendEntriesResponse m) =
     Inr (EvAppendEntriesResponse
       \<lparr>ar_From = from, ar_Term = wp_Term m, ar_RequestID = wp_RequestId m, ar_Success = wp_Success m,
        ar_MatchIndex = wp_MatchIndex m, ar_ConflictTerm = wp_ConflictTerm m,
        ar_ConflictIndex = wp_ConflictIndex m, ar_ReadID = wp_ReadId m\<rparr>)"
| "decodeMessage from (InstallSnapshotRequest m) =
     Inr (EvInstallSnapshot
       \<lparr>is_From = from, is_Term = wn_Term m, is_RequestID = wn_RequestId m,
        is_SnapshotIndex = wn_SnapshotIndex m, is_SnapshotTerm = wn_SnapshotTerm m,
        is_Length = wn_SnapshotLength m, is_Checksum = wn_SnapshotChecksum m, is_Offset = wn_Offset m,
        is_Data = wn_Data m, is_Done = wn_Done m, is_Success = False, is_NextOffset = 0,
        is_Installed = False\<rparr>)"
| "decodeMessage from (WireInstallSnapshotResponse m) =
     Inr (EvInstallSnapshotResponse
       \<lparr>ir_From = from, ir_Term = wsr_Term m, ir_RequestID = wsr_RequestId m,
        ir_SnapshotIndex = wsr_SnapshotIndex m, ir_Success = wsr_Success m,
        ir_NextOffset = wsr_NextOffset m, ir_Done = wsr_Done m\<rparr>)"

definition decodeRaftMessage :: "SendRequest \<Rightarrow> DecodeError + Event" where
  "decodeRaftMessage request =
     (case req_Message request of
        None \<Rightarrow> Inl payloadRequired
      | Some message \<Rightarrow> decodeMessage (req_FromNodeId request) message)"

subsection \<open>Who may talk\<close>

datatype PeerError =
    versionIncompatible | clusterMismatch | wrongTarget | claimedLocalIdentity | notMember | limitMismatch

definition validatePeer :: "Config \<Rightarrow> u32 \<Rightarrow> string \<Rightarrow> string \<Rightarrow> string \<Rightarrow> PeerError option" where
  "validatePeer cfg version clusterID fromNodeID targetNodeID =
     (if version \<noteq> peerProtocolVersion then Some versionIncompatible
      else if clusterID \<noteq> cfg_ClusterID cfg then Some clusterMismatch
      else if targetNodeID \<noteq> nc_ID (cfg_Node cfg) then Some wrongTarget
      else if fromNodeID = nc_ID (cfg_Node cfg) then Some claimedLocalIdentity
      else if map_of (cfg_Members cfg) fromNodeID = None then Some notMember
      else None)"

record HandshakeRequest =
  hq_ProtocolVersion :: u32
  hq_ClusterId :: string
  hq_NodeId :: string
  hq_TargetNodeId :: string
  hq_ActiveSessionLimit :: u32

record HandshakeResponse =
  hr_ProtocolVersion :: u32
  hr_ClusterId :: string
  hr_NodeId :: string
  hr_ActiveSessionLimit :: u32

definition Handshake :: "Config \<Rightarrow> HandshakeRequest \<Rightarrow> PeerError + HandshakeResponse" where
  "Handshake cfg request =
     (case validatePeer cfg (hq_ProtocolVersion request) (hq_ClusterId request) (hq_NodeId request)
             (hq_TargetNodeId request) of
        Some err \<Rightarrow> Inl err
      | None \<Rightarrow>
          if hq_ActiveSessionLimit request \<noteq> word_of_int (cfg_ActiveSessionLimit cfg) then Inl limitMismatch
          else Inr \<lparr>hr_ProtocolVersion = peerProtocolVersion, hr_ClusterId = cfg_ClusterID cfg,
                    hr_NodeId = nc_ID (cfg_Node cfg),
                    hr_ActiveSessionLimit = word_of_int (cfg_ActiveSessionLimit cfg)\<rparr>)"

text \<open>The status codes the code looks at. \<^verbatim>\<open>Send\<close> hands the decoded event to the owner of the core, or
  reports that the Node stops or the caller gave up.\<close>

datatype Code = FailedPrecondition | InvalidArgument | Unavailable | OtherCode

datatype QueueResult = Queued | RuntimeDone | CallerGone Code

definition peer_Send :: "Config \<Rightarrow> SendRequest \<Rightarrow> QueueResult \<Rightarrow> Code + Event" where
  "peer_Send cfg request queue =
     (case validatePeer cfg (req_ProtocolVersion request) (req_ClusterId request) (req_FromNodeId request)
             (req_ToNodeId request) of
        Some err \<Rightarrow> Inl FailedPrecondition
      | None \<Rightarrow>
          (case decodeRaftMessage request of
             Inl err \<Rightarrow> Inl InvalidArgument
           | Inr event \<Rightarrow>
               (case queue of Queued \<Rightarrow> Inr event | RuntimeDone \<Rightarrow> Inl Unavailable | CallerGone code \<Rightarrow> Inl code)))"

subsection \<open>The transport\<close>

text \<open>\<^verbatim>\<open>peerTransport\<close> with the Nodes it has a checked connection to. \<open>handshake\<close> and \<open>rpc\<close> are the remote
  calls; \<open>dial\<close> tells whether gRPC accepts an address.\<close>

record peerTransport =
  pt_config :: Config
  pt_clients :: "NodeID set"

datatype SendFailure = peerConfigurationError | transportError

definition isPeerConfigurationError :: "SendFailure \<Rightarrow> bool" where
  "isPeerConfigurationError err \<longleftrightarrow> err = peerConfigurationError"

definition newPeerTransport :: "Config \<Rightarrow> peerTransport" where
  "newPeerTransport cfg = \<lparr>pt_config = cfg, pt_clients = {}\<rparr>"

definition handshakeRequest :: "Config \<Rightarrow> NodeID \<Rightarrow> HandshakeRequest" where
  "handshakeRequest cfg nid =
     \<lparr>hq_ProtocolVersion = peerProtocolVersion, hq_ClusterId = cfg_ClusterID cfg,
      hq_NodeId = nc_ID (cfg_Node cfg), hq_TargetNodeId = nid,
      hq_ActiveSessionLimit = word_of_int (cfg_ActiveSessionLimit cfg)\<rparr>"

definition handshakeMatches :: "Config \<Rightarrow> NodeID \<Rightarrow> HandshakeResponse \<Rightarrow> bool" where
  "handshakeMatches cfg nid response \<longleftrightarrow>
     hr_ProtocolVersion response = peerProtocolVersion \<and> hr_ClusterId response = cfg_ClusterID cfg \<and>
     hr_NodeId response = nid \<and> hr_ActiveSessionLimit response = word_of_int (cfg_ActiveSessionLimit cfg)"

definition transport_client :: "(string \<Rightarrow> bool) \<Rightarrow> (NodeID \<Rightarrow> HandshakeRequest \<Rightarrow> Code + HandshakeResponse) \<Rightarrow>
    peerTransport \<Rightarrow> NodeID \<Rightarrow> peerTransport \<times> SendFailure option" where
  "transport_client dial handshake t nid =
     (let cfg = pt_config t in
      if nid \<in> pt_clients t then (t, None)
      else (case map_of (cfg_Members cfg) nid of
              None \<Rightarrow> (t, Some transportError)
            | Some member \<Rightarrow>
                if \<not> dial (mb_PeerAddress member) then (t, Some transportError)
                else (case handshake nid (handshakeRequest cfg nid) of
                        Inl code \<Rightarrow> (t, Some (if code = FailedPrecondition then peerConfigurationError else transportError))
                      | Inr response \<Rightarrow>
                          if \<not> handshakeMatches cfg nid response then (t, Some peerConfigurationError)
                          else (t\<lparr>pt_clients := insert nid (pt_clients t)\<rparr>, None))))"

text \<open>One chunk of a Snapshot file.\<close>

definition chunkSize :: u64 where
  "chunkSize = 64 * 2 ^ 10"

definition snapshotChunk :: "Config \<Rightarrow> byte list \<Rightarrow> SendInstallSnapshot \<Rightarrow> SendRequest option" where
  "snapshotChunk cfg contents action =
     (if sis_Offset action > of_nat (length contents) then None
      else
        let e = sis_Offset action + chunkSize;
            e = (if e > of_nat (length contents) then of_nat (length contents) else e)
        in Some \<lparr>req_ProtocolVersion = peerProtocolVersion, req_ClusterId = cfg_ClusterID cfg,
                 req_FromNodeId = nc_ID (cfg_Node cfg), req_ToNodeId = sis_To action,
                 req_Message = Some (InstallSnapshotRequest
                   \<lparr>wn_Term = sis_Term action, wn_RequestId = sis_RequestID action,
                    wn_SnapshotIndex = sis_SnapshotIndex action, wn_SnapshotTerm = sis_SnapshotTerm action,
                    wn_SnapshotLength = of_nat (length contents), wn_SnapshotChecksum = checksumIEEE contents,
                    wn_Offset = sis_Offset action,
                    wn_Data = take (unat (e - sis_Offset action)) (drop (unat (sis_Offset action)) contents),
                    wn_Done = (e = of_nat (length contents))\<rparr>)\<rparr>)"

definition sendSnapshot :: "(byte list \<Rightarrow> (SnapshotState \<times> bool) option) \<Rightarrow> Dir \<Rightarrow> (string \<Rightarrow> bool) \<Rightarrow>
    (NodeID \<Rightarrow> HandshakeRequest \<Rightarrow> Code + HandshakeResponse) \<Rightarrow> (NodeID \<Rightarrow> SendRequest \<Rightarrow> Code option) \<Rightarrow>
    peerTransport \<Rightarrow> SendInstallSnapshot \<Rightarrow> peerTransport \<times> SendFailure option" where
  "sendSnapshot unmarshal dir dial handshake rpc t action =
     (case Encoded unmarshal dir (sis_SnapshotIndex action) (sis_SnapshotTerm action) of
        Inl err \<Rightarrow> (t, Some transportError)
      | Inr contents \<Rightarrow>
          (case snapshotChunk (pt_config t) contents action of
             None \<Rightarrow> (t, Some transportError)
           | Some message \<Rightarrow>
               (case transport_client dial handshake t (sis_To action) of
                  (t, Some err) \<Rightarrow> (t, Some err)
                | (t, None) \<Rightarrow>
                    (t, if rpc (sis_To action) message = None then None else Some transportError))))"

definition transport_send :: "(byte list \<Rightarrow> (SnapshotState \<times> bool) option) \<Rightarrow> Dir \<Rightarrow> (string \<Rightarrow> bool) \<Rightarrow>
    (NodeID \<Rightarrow> HandshakeRequest \<Rightarrow> Code + HandshakeResponse) \<Rightarrow> (NodeID \<Rightarrow> SendRequest \<Rightarrow> Code option) \<Rightarrow>
    peerTransport \<Rightarrow> Action \<Rightarrow> peerTransport \<times> SendFailure option" where
  "transport_send unmarshal dir dial handshake rpc t action =
     (case action of
        ActSendInstallSnapshot a \<Rightarrow> sendSnapshot unmarshal dir dial handshake rpc t a
      | _ \<Rightarrow>
          (case encodeRaftAction (pt_config t) action of
             None \<Rightarrow> (t, Some transportError)
           | Some (to, message) \<Rightarrow>
               (case transport_client dial handshake t to of
                  (t, Some err) \<Rightarrow> (t, Some err)
                | (t, None) \<Rightarrow>
                    (t, case rpc to message of
                          None \<Rightarrow> None
                        | Some code \<Rightarrow>
                            Some (if code = FailedPrecondition \<or> code = InvalidArgument
                                  then peerConfigurationError else transportError)))))"

subsection \<open>Round trips\<close>

text \<open>The sender an action names, and whether its entries are ones the code produces.\<close>

fun sentBy :: "NodeID \<Rightarrow> Action \<Rightarrow> bool" where
  "sentBy i (SendPreVoteRequest _ r) = (pvq_From r = i)"
| "sentBy i (SendPreVoteResponse _ r) = (pvr_From r = i)"
| "sentBy i (SendVoteRequest _ r) = (vq_From r = i)"
| "sentBy i (SendVoteResponse _ r) = (vr_From r = i)"
| "sentBy i (SendAppendEntries _ r) = (ae_From r = i)"
| "sentBy i (SendAppendEntriesResponse _ r) = (ar_From r = i)"
| "sentBy i (SendInstallSnapshotResponse _ r) = (ir_From r = i)"
| "sentBy i _ = True"

definition known_entry :: "LogEntry \<Rightarrow> bool" where
  "known_entry e \<longleftrightarrow> e_Type e \<le> EntryDelete \<and> length (e_SessionID e) = 16"

fun known_entries :: "Action \<Rightarrow> bool" where
  "known_entries (SendAppendEntries _ r) = (\<forall>e\<in>set (ae_Entries r). known_entry e)"
| "known_entries _ = True"

lemma entryType_roundtrip: "t \<le> EntryDelete \<Longrightarrow> decodeEntryType (encodeEntryType t) = Some t"
proof -
  assume "t \<le> EntryDelete"
  then have "unat t \<le> 4" by (simp add: word_le_nat_alt)
  then have "unat t = 0 \<or> unat t = 1 \<or> unat t = 2 \<or> unat t = 3 \<or> unat t = 4" by arith
  then have "t = 0 \<or> t = 1 \<or> t = 2 \<or> t = 3 \<or> t = 4"
    by (auto simp: word_unat_eq_iff)
  then show ?thesis by (auto simp: encodeEntryType_def decodeEntryType_def)
qed

lemma wireEntry_roundtrip: "known_entry e \<Longrightarrow> decodeWireEntry (encodeWireEntry e) = Inr e"
  by (simp add: known_entry_def decodeWireEntry_def encodeWireEntry_def entryType_roundtrip copySession_def zeroSessionID_def)

lemma wireEntries_roundtrip: "\<forall>e\<in>set es. known_entry e \<Longrightarrow> decodeWireEntries (map encodeWireEntry es) = Inr es"
  by (induction es) (simp_all add: wireEntry_roundtrip)

lemma decode_encode:
  assumes "encodeRaftAction cfg a = Some (to, request)" "sentBy (nc_ID (cfg_Node cfg)) a" "known_entries a"
  shows "\<exists>e. decodeRaftMessage request = Inr e \<and> delivers (nc_ID (cfg_Node cfg)) a to e"
  using assms by (cases a) (auto simp: encodeRaftAction_def decodeRaftMessage_def wireEntries_roundtrip)

subsection \<open>Two Nodes of one Cluster\<close>

text \<open>Configurations of two Nodes of the same Cluster: they differ in the local Node only.\<close>

definition sameCluster :: "Config \<Rightarrow> Config \<Rightarrow> bool" where
  "sameCluster cfg cfg' \<longleftrightarrow> cfg_ClusterID cfg = cfg_ClusterID cfg' \<and> cfg_Members cfg = cfg_Members cfg' \<and>
     cfg_ActiveSessionLimit cfg = cfg_ActiveSessionLimit cfg' \<and> nc_ID (cfg_Node cfg) \<noteq> nc_ID (cfg_Node cfg') \<and>
     map_of (cfg_Members cfg) (nc_ID (cfg_Node cfg)) \<noteq> None \<and> map_of (cfg_Members cfg) (nc_ID (cfg_Node cfg')) \<noteq> None"

lemma handshake_accepted:
  assumes "sameCluster cfg cfg'"
  shows "\<exists>response. Handshake cfg' (handshakeRequest cfg (nc_ID (cfg_Node cfg'))) = Inr response \<and>
    handshakeMatches cfg (nc_ID (cfg_Node cfg')) response"
  using assms by (auto simp: sameCluster_def Handshake_def validatePeer_def handshakeRequest_def handshakeMatches_def)

text \<open>C34. The transport delivers what the cluster model delivers: between two Nodes of one Cluster, a message
  the sender encodes for a Raft action passes the receiver's checks and is decoded to exactly the event
  the action stands for.\<close>

theorem peer_message_delivered:
  assumes "sameCluster cfg cfg'" and "encodeRaftAction cfg a = Some (nc_ID (cfg_Node cfg'), request)"
    and "sentBy (nc_ID (cfg_Node cfg)) a" and "known_entries a"
  shows "\<exists>e. peer_Send cfg' request Queued = Inr e \<and> delivers (nc_ID (cfg_Node cfg)) a (nc_ID (cfg_Node cfg')) e"
proof -
  have r: "req_ProtocolVersion request = peerProtocolVersion" "req_ClusterId request = cfg_ClusterID cfg"
    "req_FromNodeId request = nc_ID (cfg_Node cfg)" "req_ToNodeId request = nc_ID (cfg_Node cfg')"
    using assms(2) by (auto simp: encodeRaftAction_def)
  have "validatePeer cfg' (req_ProtocolVersion request) (req_ClusterId request) (req_FromNodeId request)
      (req_ToNodeId request) = None"
    using assms(1) by (auto simp: r sameCluster_def validatePeer_def)
  with decode_encode [OF assms(2-4)] show ?thesis by (auto simp: peer_Send_def)
qed

definition peer_config :: "string \<Rightarrow> Config" where
  "peer_config nid = \<lparr>cfg_Version = 1, cfg_ClusterID = ''c'', cfg_ActiveSessionLimit = 4, cfg_SnapshotThresholdBytes = 0,
     cfg_Node = \<lparr>nc_ID = nid, nc_DataDir = ''d'', nc_MetricsAddress = ''''\<rparr>,
     cfg_Members = [(''n1'', \<lparr>mb_PeerAddress = ''h:1'', mb_ClientAddress = ''h:2''\<rparr>),
       (''n2'', \<lparr>mb_PeerAddress = ''h:3'', mb_ClientAddress = ''h:4''\<rparr>)]\<rparr>"

definition peer_action :: Action where
  "peer_action = SendAppendEntries ''n2''
     \<lparr>ae_From = ''n1'', ae_Term = 3, ae_RequestID = 9, ae_PrevLogIndex = 4, ae_PrevLogTerm = 2,
      ae_Entries = [\<lparr>e_Index = 5, e_Term = 3, e_Type = EntrySet, e_SessionID = replicate 16 7, e_Sequence = 1,
        e_Key = ''k'', e_Value = [1, 2]\<rparr>], ae_LeaderCommit = 4, ae_ReadID = 0\<rparr>"

theorem peer_message_delivered_witness:
  "\<exists>e. peer_Send (peer_config ''n2'') (snd (the (encodeRaftAction (peer_config ''n1'') peer_action))) Queued = Inr e \<and>
    delivers ''n1'' peer_action ''n2'' e"
  using peer_message_delivered [of "peer_config ''n1''" "peer_config ''n2''" peer_action
      "snd (the (encodeRaftAction (peer_config ''n1'') peer_action))"]
  by (simp add: sameCluster_def peer_config_def peer_action_def encodeRaftAction_def known_entry_def)

end
