(* ===== verification/Wal_Format.thy ===== *)
theory Wal_Format
  imports Raft_Types Codec
begin

text \<open>
  The on-disk format of the write-ahead log and its recovery, \<^verbatim>\<open>src/internal/wal/wal.go\<close>: framed and
  checksummed records in numbered segments, the loop that reads the frames of a segment and forgives an
  interrupted last frame, the record types, and the reconstruction of the consensus state.

  A segment is its number and its bytes; a directory is the list of segments ordered by number. The
  two loops over frames in the source, \<^verbatim>\<open>readSegment\<close> and \<^verbatim>\<open>scanSegmentFrames\<close>, take the same decisions
  and are instances of \<open>frames\<close>, which returns the state its visitor built and the number of bytes that
  survive the truncation of an interrupted tail. The JSON codec of the compaction checkpoint is a pair
  of parameters. Failures of system calls are not modelled: the code returns them to the runtime loop,
  which stops the Node.
\<close>

subsection \<open>Format\<close>

definition segmentMagic :: string where
  "segmentMagic = ''QKVWAL01''"

definition walVersion :: u32 where
  "walVersion = 1"

definition segmentHeaderSize :: nat where
  "segmentHeaderSize = length segmentMagic + 4"

definition frameHeaderSize :: nat where
  "frameHeaderSize = 8"

definition maxRecordSize :: nat where
  "maxRecordSize = 2 * 2 ^ 20"

definition defaultSegmentSize :: nat where
  "defaultSegmentSize = 16 * 2 ^ 20"

type_synonym recordType = byte

abbreviation recordClusterIdentity :: recordType where "recordClusterIdentity \<equiv> 1"
abbreviation recordNodeIdentity :: recordType where "recordNodeIdentity \<equiv> 2"
abbreviation recordHardState :: recordType where "recordHardState \<equiv> 3"
abbreviation recordLogEntries :: recordType where "recordLogEntries \<equiv> 4"
abbreviation recordLogEntriesV2 :: recordType where "recordLogEntriesV2 \<equiv> 5"
abbreviation recordLogEntryV3 :: recordType where "recordLogEntryV3 \<equiv> 6"
abbreviation recordLogTruncation :: recordType where "recordLogTruncation \<equiv> 7"
abbreviation recordCommitIndex :: recordType where "recordCommitIndex \<equiv> 8"
abbreviation recordCompactionCheckpoint :: recordType where "recordCompactionCheckpoint \<equiv> 9"

definition segmentHeader :: "byte list" where
  "segmentHeader = bytes_of segmentMagic @ be32 walVersion"

text \<open>The bytes \<^verbatim>\<open>appendRecord\<close> writes for a record: length and checksum of the body, then the body.\<close>

definition frame :: "recordType \<Rightarrow> byte list \<Rightarrow> byte list" where
  "frame kind payload =
     (let body = kind # payload in be32 (of_nat (length body)) @ be32 (checksumIEEE body) @ body)"

definition encodeEntry :: "LogEntry \<Rightarrow> byte list" where
  "encodeEntry entry =
     be64 (e_Index entry) @ be64 (e_Term entry) @ [e_Type entry] @ e_SessionID entry @ be64 (e_Sequence entry) @
     be32 (of_nat (length (e_Key entry))) @ be32 (of_nat (length (e_Value entry))) @
     bytes_of (e_Key entry) @ e_Value entry"

subsection \<open>Recovered state\<close>

record WalIdentity =
  wi_ClusterID :: string
  wi_NodeID :: string

record WalState =
  ws_Identity :: WalIdentity
  ws_HardState :: HardState
  ws_Log :: "LogEntry list"
  ws_CommitIndex :: u64
  ws_SnapshotIndex :: u64
  ws_SnapshotTerm :: u64

record compactionCheckpoint =
  ck_Identity :: WalIdentity
  ck_HardState :: HardState
  ck_CommitIndex :: u64
  ck_SnapshotIndex :: u64
  ck_SnapshotTerm :: u64

datatype WalError =
    ShortHeader | BadMagic | BadVersion | TornFrame | ZeroLength | FrameTooLong | BadChecksum
  | ClusterConflict | NodeBeforeCluster | NodeConflict | HardStateBeforeIdentity | ShortHardState
  | BadEntryLength | EntryGap | BadTruncationLength | TruncationOutsideLog | TruncatesCommitted
  | BadCommitLength | CommitBeyondLog | CheckpointDecode | CheckpointIdentity | CheckpointNewer
  | CheckpointIncomplete | CheckpointPosition | UnknownRecord | IncompleteIdentity
  | IdentityRequired | SegmentTooSmall | RecordTooLong | DurableIdentityMismatch
  | WalClosed | NoEntries | IndexGap | CommitDecreased | CommitExceedsLog | BadSnapshotIndex
  | BadSnapshotPosition

subsection \<open>Frames\<close>

text \<open>The loop over the frames from the current offset on; \<open>bs\<close> is the rest of the file. The result
  carries the number of bytes of \<open>bs\<close> that belong to complete frames.\<close>

function frames :: "bool \<Rightarrow> (recordType \<Rightarrow> byte list \<Rightarrow> 's \<Rightarrow> WalError + 's) \<Rightarrow> byte list \<Rightarrow> 's \<Rightarrow>
    WalError + ('s \<times> nat)" where
  "frames tolerate visit bs s =
     (if bs = [] then Inr (s, 0)
      else if length bs < frameHeaderSize then (if tolerate then Inr (s, 0) else Inl TornFrame)
      else case uint32 bs of None \<Rightarrow> Inl TornFrame | Some len \<Rightarrow>
      if len = 0 then Inl ZeroLength
      else if unat len > maxRecordSize then Inl FrameTooLong
      else let frameEnd = frameHeaderSize + unat len in
      if frameEnd > length bs then (if tolerate then Inr (s, 0) else Inl TornFrame)
      else let body = take (unat len) (drop frameHeaderSize bs) in
      if uint32 (drop 4 bs) \<noteq> Some (checksumIEEE body)
      then (if tolerate \<and> frameEnd = length bs then Inr (s, 0) else Inl BadChecksum)
      else andThen (visit (hd body) (tl body) s) (\<lambda>s'.
        andThen (frames tolerate visit (drop frameEnd bs) s') (\<lambda>(s'', kept). Inr (s'', frameEnd + kept))))"
  by pat_completeness auto

termination
  by (relation "measure (\<lambda>(tolerate, visit, bs, s). length bs)") (auto simp: frameHeaderSize_def)

declare frames.simps [simp del]

text \<open>A segment: its header, then its frames. The second component is the length the file is truncated to.\<close>

definition segmentFrames :: "bool \<Rightarrow> (recordType \<Rightarrow> byte list \<Rightarrow> 's \<Rightarrow> WalError + 's) \<Rightarrow> byte list \<Rightarrow> 's \<Rightarrow>
    WalError + ('s \<times> nat)" where
  "segmentFrames tolerate visit contents s =
     (if length contents < segmentHeaderSize then Inl ShortHeader
      else if string_of (take (length segmentMagic) contents) \<noteq> segmentMagic then Inl BadMagic
      else if uint32 (drop (length segmentMagic) contents) \<noteq> Some walVersion then Inl BadVersion
      else andThen (frames tolerate visit (drop segmentHeaderSize contents) s)
             (\<lambda>(s', kept). Inr (s', segmentHeaderSize + kept)))"

definition scanSegmentFrames ::
  "byte list \<Rightarrow> bool \<Rightarrow> (recordType \<Rightarrow> byte list \<Rightarrow> 's \<Rightarrow> WalError + 's) \<Rightarrow> 's \<Rightarrow> WalError + 's" where
  "scanSegmentFrames contents tolerateInterruptedTail visit s =
     andThen (segmentFrames tolerateInterruptedTail visit contents s) (\<lambda>(s', _). Inr s')"

subsection \<open>Records\<close>

definition walLastIndex :: "WalState \<Rightarrow> u64" where
  "walLastIndex st = ws_SnapshotIndex st + of_nat (length (ws_Log st))"

text \<open>The end of all three entry records: skip what the Snapshot covers, refuse a gap, append.\<close>

definition recoverEntry :: "LogEntry \<Rightarrow> WalState \<Rightarrow> WalError + WalState" where
  "recoverEntry entry st =
     (if e_Index entry \<le> ws_SnapshotIndex st then Inr st
      else if e_Index entry \<noteq> walLastIndex st + 1 then Inl EntryGap
      else Inr (st\<lparr>ws_Log := ws_Log st @ [entry]\<rparr>))"

text \<open>Fixed-width entries of the two older record types; \<open>session\<close> tells whether a session follows.\<close>

definition legacyEntry :: "bool \<Rightarrow> byte list \<Rightarrow> LogEntry" where
  "legacyEntry session bs =
     \<lparr>e_Index = the (uint64 bs), e_Term = the (uint64 (drop 8 bs)), e_Type = bs ! 16,
      e_SessionID = (if session then take 16 (drop 17 bs) else zeroSessionID),
      e_Sequence = 0, e_Key = '''', e_Value = []\<rparr>"

function recoverLegacy :: "nat \<Rightarrow> bool \<Rightarrow> byte list \<Rightarrow> WalState \<Rightarrow> WalError + WalState" where
  "recoverLegacy width session bs st =
     (if length bs < width \<or> width = 0 then Inr st
      else andThen (recoverEntry (legacyEntry session bs) st) (recoverLegacy width session (drop width bs)))"
  by pat_completeness auto

termination
  by (relation "measure (\<lambda>(width, session, bs, st). length bs)") auto

declare recoverLegacy.simps [simp del]

text \<open>\<^verbatim>\<open>49 + keyLength + valueLength\<close> is computed in 64 bits, which two 32-bit lengths cannot overflow.\<close>

definition decodeEntry :: "byte list \<Rightarrow> WalError + LogEntry" where
  "decodeEntry payload =
     (if length payload < 49 then Inl BadEntryLength
      else
        let keyLength = unat (the (uint32 (drop 41 payload)));
            valueLength = unat (the (uint32 (drop 45 payload)))
        in if 49 + keyLength + valueLength \<noteq> length payload then Inl BadEntryLength
           else Inr \<lparr>e_Index = the (uint64 payload), e_Term = the (uint64 (drop 8 payload)),
                     e_Type = payload ! 16, e_SessionID = take 16 (drop 17 payload),
                     e_Sequence = the (uint64 (drop 33 payload)),
                     e_Key = string_of (take keyLength (drop 49 payload)),
                     e_Value = drop (49 + keyLength) payload\<rparr>)"

definition recoverHardState :: "byte list \<Rightarrow> WalState \<Rightarrow> WalError + WalState" where
  "recoverHardState payload st =
     (if wi_NodeID (ws_Identity st) = '''' then Inl HardStateBeforeIdentity
      else if length payload < 8 then Inl ShortHardState
      else
        let trm = the (uint64 payload) in
        if trm < hs_Term (ws_HardState st) then Inr st
        else if trm = hs_Term (ws_HardState st) \<and> hs_VotedFor (ws_HardState st) \<noteq> '''' then Inr st
        else Inr (st\<lparr>ws_HardState := \<lparr>hs_Term = trm, hs_VotedFor = string_of (drop 8 payload)\<rparr>\<rparr>))"

definition recoverTruncation :: "byte list \<Rightarrow> WalState \<Rightarrow> WalError + WalState" where
  "recoverTruncation payload st =
     (if length payload \<noteq> 8 then Inl BadTruncationLength
      else
        let firstIndex = the (uint64 payload); lastIndex = walLastIndex st in
        if firstIndex \<le> ws_SnapshotIndex st \<or> firstIndex > lastIndex + 1 then Inl TruncationOutsideLog
        else if firstIndex \<le> ws_CommitIndex st then Inl TruncatesCommitted
        else Inr (st\<lparr>ws_Log := take (unat (firstIndex - ws_SnapshotIndex st - 1)) (ws_Log st)\<rparr>))"

definition recoverCommit :: "byte list \<Rightarrow> WalState \<Rightarrow> WalError + WalState" where
  "recoverCommit payload st =
     (if length payload \<noteq> 8 then Inl BadCommitLength
      else
        let index = the (uint64 payload) in
        if index < ws_CommitIndex st then Inr st
        else if index > walLastIndex st then Inl CommitBeyondLog
        else Inr (st\<lparr>ws_CommitIndex := index\<rparr>))"

definition applyRecord :: "(byte list \<Rightarrow> compactionCheckpoint option) \<Rightarrow> recordType \<Rightarrow> byte list \<Rightarrow> WalState \<Rightarrow>
    WalError + WalState" where
  "applyRecord unmarshal kind payload st =
     (if kind = recordClusterIdentity
      then (if wi_ClusterID (ws_Identity st) \<noteq> ''''
            then (if wi_ClusterID (ws_Identity st) \<noteq> string_of payload then Inl ClusterConflict else Inr st)
            else Inr (st\<lparr>ws_Identity := (ws_Identity st)\<lparr>wi_ClusterID := string_of payload\<rparr>\<rparr>))
      else if kind = recordNodeIdentity
      then (if wi_ClusterID (ws_Identity st) = '''' then Inl NodeBeforeCluster
            else if wi_NodeID (ws_Identity st) \<noteq> ''''
            then (if wi_NodeID (ws_Identity st) \<noteq> string_of payload then Inl NodeConflict else Inr st)
            else Inr (st\<lparr>ws_Identity := (ws_Identity st)\<lparr>wi_NodeID := string_of payload\<rparr>\<rparr>))
      else if kind = recordHardState then recoverHardState payload st
      else if kind = recordLogEntries
      then (if payload = [] \<or> length payload mod 17 \<noteq> 0 then Inl BadEntryLength
            else recoverLegacy 17 False payload st)
      else if kind = recordLogEntriesV2
      then (if payload = [] \<or> length payload mod 33 \<noteq> 0 then Inl BadEntryLength
            else recoverLegacy 33 True payload st)
      else if kind = recordLogEntryV3
      then andThen (decodeEntry payload) (\<lambda>entry. recoverEntry entry st)
      else if kind = recordLogTruncation then recoverTruncation payload st
      else if kind = recordCommitIndex then recoverCommit payload st
      else if kind = recordCompactionCheckpoint
      then (case unmarshal payload of
              None \<Rightarrow> Inl CheckpointDecode
            | Some checkpoint \<Rightarrow>
                if ck_Identity checkpoint \<noteq> ws_Identity st then Inl CheckpointIdentity
                else if ck_SnapshotIndex checkpoint > ws_SnapshotIndex st then Inl CheckpointNewer
                else Inr st)
      else Inl UnknownRecord)"

text \<open>\<^verbatim>\<open>readSegment\<close> with \<^verbatim>\<open>truncateFinalFrame\<close>: the recovered state and the length the file keeps.\<close>

definition readSegment :: "(byte list \<Rightarrow> compactionCheckpoint option) \<Rightarrow> byte list \<Rightarrow> bool \<Rightarrow> WalState \<Rightarrow>
    WalError + (WalState \<times> nat)" where
  "readSegment unmarshal contents recoverFinalFrame st =
     segmentFrames recoverFinalFrame (applyRecord unmarshal) contents st"

subsection \<open>Checkpoints\<close>

definition zeroCheckpoint :: compactionCheckpoint where
  "zeroCheckpoint =
     \<lparr>ck_Identity = \<lparr>wi_ClusterID = '''', wi_NodeID = ''''\<rparr>, ck_HardState = \<lparr>hs_Term = 0, hs_VotedFor = ''''\<rparr>,
      ck_CommitIndex = 0, ck_SnapshotIndex = 0, ck_SnapshotTerm = 0\<rparr>"

definition visitCheckpoint :: "(byte list \<Rightarrow> compactionCheckpoint option) \<Rightarrow> recordType \<Rightarrow> byte list \<Rightarrow>
    compactionCheckpoint \<Rightarrow> WalError + compactionCheckpoint" where
  "visitCheckpoint unmarshal kind payload newest =
     (if kind \<noteq> recordCompactionCheckpoint then Inr newest
      else (case unmarshal payload of
              None \<Rightarrow> Inl CheckpointDecode
            | Some checkpoint \<Rightarrow>
                if blank (wi_ClusterID (ck_Identity checkpoint)) \<or> blank (wi_NodeID (ck_Identity checkpoint))
                then Inl CheckpointIncomplete
                else if ck_SnapshotIndex checkpoint = 0 \<or> ck_SnapshotTerm checkpoint = 0 \<or>
                        ck_SnapshotIndex checkpoint > ck_CommitIndex checkpoint
                then Inl CheckpointPosition
                else Inr checkpoint))"

type_synonym Segments = "(u64 \<times> byte list) list"

fun newestCheckpointLoop :: "(byte list \<Rightarrow> compactionCheckpoint option) \<Rightarrow> Segments \<Rightarrow> compactionCheckpoint \<Rightarrow>
    WalError + compactionCheckpoint" where
  "newestCheckpointLoop unmarshal [] newest = Inr newest"
| "newestCheckpointLoop unmarshal ((_, contents) # rest) newest =
     andThen (scanSegmentFrames contents (rest = []) (visitCheckpoint unmarshal) newest)
       (newestCheckpointLoop unmarshal rest)"

definition newestCompactionCheckpoint ::
  "(byte list \<Rightarrow> compactionCheckpoint option) \<Rightarrow> Segments \<Rightarrow> WalError + compactionCheckpoint" where
  "newestCompactionCheckpoint unmarshal segments = newestCheckpointLoop unmarshal segments zeroCheckpoint"

subsection \<open>Recovery\<close>

text \<open>The loop over the segments; the last one is truncated after its complete frames.\<close>

fun recoverLoop :: "(byte list \<Rightarrow> compactionCheckpoint option) \<Rightarrow> Segments \<Rightarrow> WalState \<Rightarrow>
    WalError + (WalState \<times> Segments)" where
  "recoverLoop unmarshal [] st = Inr (st, [])"
| "recoverLoop unmarshal ((number, contents) # rest) st =
     andThen (readSegment unmarshal contents (rest = []) st) (\<lambda>(st', kept).
       andThen (recoverLoop unmarshal rest st') (\<lambda>(st'', rest').
         Inr (st'', (number, if rest = [] then take kept contents else contents) # rest')))"

definition recoverSegments ::
  "(byte list \<Rightarrow> compactionCheckpoint option) \<Rightarrow> Segments \<Rightarrow> WalError + (WalState \<times> Segments)" where
  "recoverSegments unmarshal segments =
     andThen (newestCompactionCheckpoint unmarshal segments) (\<lambda>checkpoint.
       andThen (recoverLoop unmarshal segments
           \<lparr>ws_Identity = ck_Identity checkpoint, ws_HardState = ck_HardState checkpoint, ws_Log = [],
            ws_CommitIndex = ck_CommitIndex checkpoint, ws_SnapshotIndex = ck_SnapshotIndex checkpoint,
            ws_SnapshotTerm = ck_SnapshotTerm checkpoint\<rparr>)
         (\<lambda>(st, segments').
           if wi_ClusterID (ws_Identity st) = '''' \<or> wi_NodeID (ws_Identity st) = '''' then Inl IncompleteIdentity
           else Inr (st, segments')))"

text \<open>Whether every entry and truncation of a segment lies within the Snapshot. The visitor never
  fails; chunks shorter than an entry are ignored.\<close>

function legacyCovered :: "nat \<Rightarrow> u64 \<Rightarrow> byte list \<Rightarrow> bool" where
  "legacyCovered width snapshotIndex bs \<longleftrightarrow>
     (if length bs < width \<or> width = 0 then True
      else \<not> the (uint64 bs) > snapshotIndex \<and> legacyCovered width snapshotIndex (drop width bs))"
  by pat_completeness auto

termination
  by (relation "measure (\<lambda>(width, s, bs). length bs)") auto

declare legacyCovered.simps [simp del]

definition visitCovered :: "u64 \<Rightarrow> recordType \<Rightarrow> byte list \<Rightarrow> bool \<Rightarrow> WalError + bool" where
  "visitCovered snapshotIndex kind payload covered =
     Inr (if kind = recordLogEntries then covered \<and> legacyCovered 17 snapshotIndex payload
          else if kind = recordLogEntriesV2 then covered \<and> legacyCovered 33 snapshotIndex payload
          else if kind = recordLogEntryV3
          then covered \<and> \<not> (length payload < 8 \<or> the (uint64 payload) > snapshotIndex)
          else if kind = recordLogTruncation
          then covered \<and> \<not> (length payload \<noteq> 8 \<or> the (uint64 payload) > snapshotIndex)
          else covered)"

definition segmentCoveredBySnapshot :: "byte list \<Rightarrow> u64 \<Rightarrow> WalError + bool" where
  "segmentCoveredBySnapshot contents snapshotIndex =
     scanSegmentFrames contents False (visitCovered snapshotIndex) True"

subsection \<open>Frames that were written are read back\<close>

type_synonym Record = "recordType \<times> byte list"

definition fits :: "Record \<Rightarrow> bool" where
  "fits r \<longleftrightarrow> length (snd r) < maxRecordSize"

definition recordBytes :: "Record \<Rightarrow> byte list" where
  "recordBytes r = frame (fst r) (snd r)"

fun visitAll :: "(recordType \<Rightarrow> byte list \<Rightarrow> 's \<Rightarrow> 'e + 's) \<Rightarrow> Record list \<Rightarrow> 's \<Rightarrow> 'e + 's" where
  "visitAll visit [] s = Inr s"
| "visitAll visit (r # rs) s = andThen (visit (fst r) (snd r) s) (visitAll visit rs)"

lemma visitAll_append: "visitAll visit (rs @ qs) s = andThen (visitAll visit rs s) (visitAll visit qs)"
proof (induction rs arbitrary: s)
  case (Cons r rs)
  then show ?case by (cases "visit (fst r) (snd r) s") simp_all
qed simp

lemma length_recordBytes: "length (recordBytes r) = frameHeaderSize + Suc (length (snd r))"
  by (simp add: recordBytes_def frame_def frameHeaderSize_def Let_def)

lemma frame_parts:
  assumes "fits r"
  shows "uint32 (recordBytes r @ bs) = Some (of_nat (Suc (length (snd r))))"
    "uint32 (drop 4 (recordBytes r @ bs)) = Some (checksumIEEE (fst r # snd r))"
    "unat (of_nat (Suc (length (snd r))) :: u32) = Suc (length (snd r))"
    "take (Suc (length (snd r))) (drop frameHeaderSize (recordBytes r @ bs)) = fst r # snd r"
    "drop (length (recordBytes r)) (recordBytes r @ bs) = bs"
proof -
  have "Suc (length (snd r)) < 2 ^ 32" using assms by (simp add: fits_def maxRecordSize_def)
  then show "unat (of_nat (Suc (length (snd r))) :: u32) = Suc (length (snd r))"
    by (simp add: unat_of_nat take_bit_nat_eq_self del: of_nat_Suc)
qed (simp_all add: recordBytes_def frame_def frameHeaderSize_def Let_def)

lemma frames_record:
  assumes "fits r"
  shows "frames tolerate visit (recordBytes r @ bs) s =
    andThen (visit (fst r) (snd r) s) (\<lambda>s'. andThen (frames tolerate visit bs s')
      (\<lambda>(s'', kept). Inr (s'', length (recordBytes r) + kept)))"
proof -
  note p = frame_parts [OF assms]
  have len: "(of_nat (Suc (length (snd r))) :: u32) \<noteq> 0" using p(3) by (metis nat.distinct(1) unat_0)
  have "recordBytes r @ bs \<noteq> []" "\<not> length (recordBytes r @ bs) < frameHeaderSize"
    "\<not> frameHeaderSize + Suc (length (snd r)) > length (recordBytes r @ bs)"
    using length_recordBytes [of r] by (auto simp: frameHeaderSize_def)
  moreover have "\<not> maxRecordSize < Suc (length (snd r))" using assms by (simp add: fits_def)
  ultimately show ?thesis
    unfolding frames.simps [of tolerate visit "recordBytes r @ bs"] p(1,2) option.case p(3) Let_def p(4)
    using len by (auto simp: length_recordBytes simp del: of_nat_Suc)
qed

lemma frames_Nil [simp]: "frames tolerate visit [] s = Inr (s, 0)"
  by (simp add: frames.simps)

lemma frames_records:
  assumes "\<forall>r\<in>set rs. fits r"
  shows "frames tolerate visit (concat (map recordBytes rs) @ rest) s =
    andThen (visitAll visit rs s) (\<lambda>s'. andThen (frames tolerate visit rest s')
      (\<lambda>(s'', kept). Inr (s'', length (concat (map recordBytes rs)) + kept)))"
  using assms
proof (induction rs arbitrary: s)
  case Nil
  then show ?case by (cases "frames tolerate visit rest s") (auto simp: split_beta)
next
  case (Cons r rs)
  have "frames tolerate visit (concat (map recordBytes (r # rs)) @ rest) s =
      frames tolerate visit (recordBytes r @ (concat (map recordBytes rs) @ rest)) s" by simp
  also have "\<dots> = andThen (visit (fst r) (snd r) s) (\<lambda>s'. andThen (frames tolerate visit
      (concat (map recordBytes rs) @ rest) s') (\<lambda>(s'', kept). Inr (s'', length (recordBytes r) + kept)))"
    using Cons.prems by (intro frames_record) simp
  also have "\<dots> = andThen (visitAll visit (r # rs) s) (\<lambda>s'. andThen (frames tolerate visit rest s')
      (\<lambda>(s'', kept). Inr (s'', length (concat (map recordBytes (r # rs))) + kept)))"
    using Cons by (auto simp: andThen_def split: sum.splits)
  finally show ?case .
qed

text \<open>An interrupted write leaves a proper prefix of a frame, which a tolerant reader ignores.\<close>

lemma frames_torn:
  assumes "fits r" "j < length (recordBytes r)"
  shows "frames True visit (take j (recordBytes r)) s = Inr (s, 0)"
proof (cases "j < frameHeaderSize")
  case True
  then show ?thesis using assms(2) by (simp add: frames.simps frameHeaderSize_def)
next
  case False
  then have "uint32 (take j (recordBytes r)) = uint32 (recordBytes r)"
    by (cases "recordBytes r" rule: uint32.cases; cases j rule: nat.exhaust)
       (auto simp: frameHeaderSize_def take_Cons split: nat.splits)
  then have u: "uint32 (take j (recordBytes r)) = Some (of_nat (Suc (length (snd r))))"
    using frame_parts(1) [OF assms(1), of "[]"] by simp
  note p = frame_parts(3) [OF assms(1)]
  have len: "(of_nat (Suc (length (snd r))) :: u32) \<noteq> 0" using p by (metis nat.distinct(1) unat_0)
  have b: "take j (recordBytes r) \<noteq> []" "\<not> length (take j (recordBytes r)) < frameHeaderSize"
    "frameHeaderSize + Suc (length (snd r)) > length (take j (recordBytes r))"
    using False assms(2) length_recordBytes [of r] by (auto simp: frameHeaderSize_def)
  have m: "\<not> maxRecordSize < Suc (length (snd r))" using assms(1) by (simp add: fits_def)
  show ?thesis
    unfolding frames.simps [of True visit "take j (recordBytes r)"] u option.case p Let_def
    using b m len by (simp del: of_nat_Suc length_take)
qed

definition segmentBytes :: "Record list \<Rightarrow> byte list" where
  "segmentBytes rs = segmentHeader @ concat (map recordBytes rs)"

lemma length_segmentHeader [simp]: "length segmentHeader = segmentHeaderSize"
  by (simp add: segmentHeader_def segmentHeaderSize_def segmentMagic_def)

lemma segmentFrames_records:
  assumes "\<forall>r\<in>set rs. fits r"
  shows "segmentFrames tolerate visit (segmentBytes rs @ rest) s =
    andThen (visitAll visit rs s) (\<lambda>s'. andThen (frames tolerate visit rest s')
      (\<lambda>(s'', kept). Inr (s'', length (segmentBytes rs) + kept)))"
proof -
  have h: "take (length segmentMagic) (segmentBytes rs @ rest) = bytes_of segmentMagic"
    "drop (length segmentMagic) (segmentBytes rs @ rest) = be32 walVersion @ concat (map recordBytes rs) @ rest"
    "drop segmentHeaderSize (segmentBytes rs @ rest) = concat (map recordBytes rs) @ rest"
    by (simp_all add: segmentBytes_def segmentHeader_def segmentHeaderSize_def)
  have "\<not> length (segmentBytes rs @ rest) < segmentHeaderSize" by (simp add: segmentBytes_def)
  then show ?thesis
    unfolding segmentFrames_def h frames_records [OF assms]
    by (auto simp: andThen_def segmentBytes_def split: sum.splits)
qed

lemma scanSegmentFrames_records:
  "\<forall>r\<in>set rs. fits r \<Longrightarrow> scanSegmentFrames (segmentBytes rs) tolerate visit s = visitAll visit rs s"
  using segmentFrames_records [of rs tolerate visit "[]" s]
  by (auto simp: scanSegmentFrames_def andThen_def split: sum.splits)

subsection \<open>Entries\<close>

text \<open>An entry that one record can hold.\<close>

definition entry_fits :: "LogEntry \<Rightarrow> bool" where
  "entry_fits e \<longleftrightarrow> length (e_SessionID e) = 16 \<and> 49 + length (e_Key e) + length (e_Value e) < maxRecordSize"

lemma length_encodeEntry: "length (e_SessionID e) = 16 \<Longrightarrow> length (encodeEntry e) = 49 + length (e_Key e) + length (e_Value e)"
  by (simp add: encodeEntry_def)

lemma entry_fits_record: "entry_fits e \<Longrightarrow> fits (recordLogEntryV3, encodeEntry e)"
  by (simp add: fits_def entry_fits_def length_encodeEntry)

lemma encodeEntry_parts:
  assumes "length (e_SessionID e) = 16"
  shows "drop 8 (encodeEntry e) = be64 (e_Term e) @ [e_Type e] @ e_SessionID e @ be64 (e_Sequence e) @
      be32 (of_nat (length (e_Key e))) @ be32 (of_nat (length (e_Value e))) @ bytes_of (e_Key e) @ e_Value e"
    "drop 17 (encodeEntry e) = e_SessionID e @ be64 (e_Sequence e) @
      be32 (of_nat (length (e_Key e))) @ be32 (of_nat (length (e_Value e))) @ bytes_of (e_Key e) @ e_Value e"
    "drop 33 (encodeEntry e) = be64 (e_Sequence e) @
      be32 (of_nat (length (e_Key e))) @ be32 (of_nat (length (e_Value e))) @ bytes_of (e_Key e) @ e_Value e"
    "drop 41 (encodeEntry e) = be32 (of_nat (length (e_Key e))) @ be32 (of_nat (length (e_Value e))) @
      bytes_of (e_Key e) @ e_Value e"
    "drop 45 (encodeEntry e) = be32 (of_nat (length (e_Value e))) @ bytes_of (e_Key e) @ e_Value e"
    "drop 49 (encodeEntry e) = bytes_of (e_Key e) @ e_Value e"
    "encodeEntry e ! 16 = e_Type e" "uint64 (encodeEntry e) = Some (e_Index e)"
  using assms by (simp_all add: encodeEntry_def nth_append)

lemma decode_encodeEntry:
  assumes "entry_fits e"
  shows "decodeEntry (encodeEntry e) = Inr e"
proof -
  have s: "length (e_SessionID e) = 16" and l: "length (e_Key e) < 2 ^ 32" "length (e_Value e) < 2 ^ 32"
    using assms by (auto simp: entry_fits_def maxRecordSize_def)
  have u: "unat (of_nat k :: u32) = k" if "k < 2 ^ 32" for k
    using that by (simp add: unat_of_nat take_bit_nat_eq_self)
  have "drop (49 + length (e_Key e)) (encodeEntry e) = drop (length (e_Key e)) (drop 49 (encodeEntry e))"
    by (simp add: add.commute)
  then have v: "drop (49 + length (e_Key e)) (encodeEntry e) = e_Value e" by (simp add: encodeEntry_parts [OF s])
  show ?thesis
    unfolding decodeEntry_def encodeEntry_parts [OF s] Let_def
    using s u [OF l(1)] u [OF l(2)] v by (simp add: length_encodeEntry)
qed

lemma applyRecord_entry:
  assumes "entry_fits e"
  shows "applyRecord unmarshal recordLogEntryV3 (encodeEntry e) st = recoverEntry e st"
  by (simp add: applyRecord_def decode_encodeEntry [OF assms])

text \<open>C30. Log entries survive the disk format: decoding the record of an entry gives the entry back, with
  its key and value bytes, for every entry that fits a record.\<close>

theorem entry_roundtrip:
  assumes "length (e_SessionID e) = 16" and "49 + length (e_Key e) + length (e_Value e) < maxRecordSize"
  shows "decodeEntry (encodeEntry e) = Inr e"
  using decode_encodeEntry assms by (simp add: entry_fits_def)

theorem entry_roundtrip_witness:
  "decodeEntry (encodeEntry \<lparr>e_Index = 3, e_Term = 1, e_Type = 3, e_SessionID = replicate 16 7, e_Sequence = 9,
     e_Key = ''key'', e_Value = [1, 0, 255]\<rparr>) =
   Inr \<lparr>e_Index = 3, e_Term = 1, e_Type = 3, e_SessionID = replicate 16 7, e_Sequence = 9,
     e_Key = ''key'', e_Value = [1, 0, 255]\<rparr>"
  by (rule entry_roundtrip) (simp_all add: maxRecordSize_def)

text \<open>C31. A torn write costs only itself: when the last segment ends in the beginning of an interrupted
  frame, recovery processes exactly the complete records before it and cuts the file after them.\<close>

theorem torn_tail_ignored:
  assumes "list_all fits rs" and "fits r" and "j < length (recordBytes r)"
  shows "readSegment unmarshal (segmentBytes rs @ take j (recordBytes r)) True st =
    andThen (visitAll (applyRecord unmarshal) rs st) (\<lambda>st'. Inr (st', length (segmentBytes rs)))"
proof -
  have "\<forall>r\<in>set rs. fits r" using assms(1) by (simp add: list_all_iff)
  from segmentFrames_records [OF this, of True "applyRecord unmarshal" "take j (recordBytes r)" st]
  show ?thesis by (simp add: readSegment_def frames_torn [OF assms(2,3)] andThen_def)
qed

theorem torn_tail_ignored_witness:
  "readSegment (\<lambda>_. None) (segmentBytes [(recordClusterIdentity, [99])] @ take 5 (recordBytes (recordNodeIdentity, [100]))) True
     \<lparr>ws_Identity = \<lparr>wi_ClusterID = '''', wi_NodeID = ''''\<rparr>, ws_HardState = \<lparr>hs_Term = 0, hs_VotedFor = ''''\<rparr>,
      ws_Log = [], ws_CommitIndex = 0, ws_SnapshotIndex = 0, ws_SnapshotTerm = 0\<rparr> =
   Inr (\<lparr>ws_Identity = \<lparr>wi_ClusterID = ''c'', wi_NodeID = ''''\<rparr>, ws_HardState = \<lparr>hs_Term = 0, hs_VotedFor = ''''\<rparr>,
      ws_Log = [], ws_CommitIndex = 0, ws_SnapshotIndex = 0, ws_SnapshotTerm = 0\<rparr>, 22)"
proof -
  have f: "list_all fits [(recordClusterIdentity, [99])]" "fits (recordNodeIdentity, [100])"
    "5 < length (recordBytes (recordNodeIdentity, [100]))"
    by (simp_all add: fits_def maxRecordSize_def length_recordBytes frameHeaderSize_def)
  have c: "string_of [99] = ''c''" by code_simp
  have "length (segmentBytes [(recordClusterIdentity, [99])]) = 22"
    by (simp add: segmentBytes_def length_recordBytes segmentHeaderSize_def segmentMagic_def frameHeaderSize_def)
  then show ?thesis
    using c unfolding torn_tail_ignored [OF f] by (simp add: applyRecord_def)
qed

end
