(* ===== verification/Wal.thy ===== *)
theory Wal
  imports Wal_Format
begin

text \<open>
  The write-ahead log as the runtime uses it, \<^verbatim>\<open>src/internal/wal/wal.go\<close>: opening, appending records
  with segment rotation, saving entries, truncations, commit index and hard state, installing a
  Snapshot checkpoint and deleting covered segments. The handle \<open>WAL\<close> carries the directory it writes;
  every operation returns the handle and an error or none. A record is written and synced before the
  operation returns, so the directory of the model is the durable one.

  Shown here: what was saved is what a later \<^verbatim>\<open>Open\<close> recovers, across segment rotations and after an
  interrupted last write, and two situations in which recovery refuses a directory the code itself
  produced.
\<close>

subsection \<open>The handle\<close>

record WAL =
  w_segments :: Segments
  w_segmentSize :: int
  w_segment :: u64
  w_open :: bool
  w_offset :: int
  w_lastLogIndex :: u64
  w_commitIndex :: u64
  w_hardState :: HardState
  w_identity :: WalIdentity
  w_snapshotIndex :: u64
  w_snapshotTerm :: u64
  w_entryBytes :: "(u64 \<times> u64) list"

text \<open>A write to the active segment.\<close>

definition writeActive :: "byte list \<Rightarrow> WAL \<Rightarrow> WAL" where
  "writeActive bs w = w\<lparr>w_segments := map (\<lambda>(number, contents).
     (number, if number = w_segment w then contents @ bs else contents)) (w_segments w)\<rparr>"

text \<open>\<^verbatim>\<open>createSegment\<close> fails when the file exists.\<close>

definition createSegment :: "u64 \<Rightarrow> WAL \<Rightarrow> WAL \<times> bool" where
  "createSegment number w =
     (if number \<in> fst ` set (w_segments w) then (w, False)
      else (w\<lparr>w_segments := w_segments w @ [(number, segmentHeader)], w_segment := number, w_open := True,
              w_offset := int segmentHeaderSize\<rparr>, True))"

definition appendRecord :: "recordType \<Rightarrow> byte list \<Rightarrow> WAL \<Rightarrow> WAL \<times> WalError option" where
  "appendRecord kind payload w =
     (let body = kind # payload in
      if length body > maxRecordSize then (w, Some RecordTooLong)
      else
        let frameSize = int (frameHeaderSize + length body);
            (w, ok) =
              (if w_offset w > int segmentHeaderSize \<and> w_offset w + frameSize > w_segmentSize w
               then createSegment (w_segment w + 1) (w\<lparr>w_open := False\<rparr>) else (w, True))
        in if \<not> ok then (w, Some WalClosed)
           else ((writeActive (frame kind payload) w)\<lparr>w_offset := w_offset w + frameSize\<rparr>, None))"

subsection \<open>Saving\<close>

fun indicesFollow :: "u64 \<Rightarrow> LogEntry list \<Rightarrow> bool" where
  "indicesFollow prev [] = True"
| "indicesFollow prev (entry # rest) = (e_Index entry = prev + 1 \<and> indicesFollow (prev + 1) rest)"

fun appendEntryRecords :: "LogEntry list \<Rightarrow> WAL \<Rightarrow> WAL \<times> WalError option" where
  "appendEntryRecords [] w = (w, None)"
| "appendEntryRecords (entry # rest) w =
     (case appendRecord recordLogEntryV3 (encodeEntry entry) w of
        (w, Some err) \<Rightarrow> (w, Some err)
      | (w, None) \<Rightarrow>
          appendEntryRecords rest
            (w\<lparr>w_entryBytes := AList.update (e_Index entry)
                (of_nat frameHeaderSize + 1 + of_nat (length (encodeEntry entry))) (w_entryBytes w)\<rparr>))"

definition SaveLogEntries :: "LogEntry list \<Rightarrow> WAL \<Rightarrow> WAL \<times> WalError option" where
  "SaveLogEntries entries w =
     (if \<not> w_open w then (w, Some WalClosed)
      else if entries = [] then (w, Some NoEntries)
      else if \<not> indicesFollow (w_lastLogIndex w) entries then (w, Some IndexGap)
      else (case appendEntryRecords entries w of
              (w, Some err) \<Rightarrow> (w, Some err)
            | (w, None) \<Rightarrow> (w\<lparr>w_lastLogIndex := w_lastLogIndex w + of_nat (length entries)\<rparr>, None)))"

text \<open>The deletion loop runs over the indices from the first truncated one to the last.\<close>

definition TruncateLog :: "u64 \<Rightarrow> WAL \<Rightarrow> WAL \<times> WalError option" where
  "TruncateLog firstIndex w =
     (if \<not> w_open w then (w, Some WalClosed)
      else if firstIndex = 0 \<or> firstIndex > w_lastLogIndex w + 1 then (w, Some TruncationOutsideLog)
      else if firstIndex \<le> w_commitIndex w then (w, Some TruncatesCommitted)
      else (case appendRecord recordLogTruncation (be64 firstIndex) w of
              (w, Some err) \<Rightarrow> (w, Some err)
            | (w, None) \<Rightarrow>
                (w\<lparr>w_entryBytes := filter (\<lambda>(index, _). \<not> (firstIndex \<le> index \<and> index \<le> w_lastLogIndex w))
                                    (w_entryBytes w),
                   w_lastLogIndex := firstIndex - 1\<rparr>, None)))"

definition SaveCommitIndex :: "u64 \<Rightarrow> WAL \<Rightarrow> WAL \<times> WalError option" where
  "SaveCommitIndex index w =
     (if \<not> w_open w then (w, Some WalClosed)
      else if index < w_commitIndex w then (w, Some CommitDecreased)
      else if index > w_lastLogIndex w then (w, Some CommitExceedsLog)
      else if index = w_commitIndex w then (w, None)
      else (case appendRecord recordCommitIndex (be64 index) w of
              (w, Some err) \<Rightarrow> (w, Some err)
            | (w, None) \<Rightarrow> (w\<lparr>w_commitIndex := index\<rparr>, None)))"

definition SaveHardState :: "HardState \<Rightarrow> WAL \<Rightarrow> WAL \<times> WalError option" where
  "SaveHardState state w =
     (if \<not> w_open w then (w, Some WalClosed)
      else (case appendRecord recordHardState (be64 (hs_Term state) @ bytes_of (hs_VotedFor state)) w of
              (w, Some err) \<Rightarrow> (w, Some err)
            | (w, None) \<Rightarrow> (w\<lparr>w_hardState := state\<rparr>, None)))"

definition RetainedLogBytes :: "u64 \<Rightarrow> WAL \<Rightarrow> u64" where
  "RetainedLogBytes throughIndex w =
     sum_list (map snd (filter (\<lambda>(index, _). index > w_snapshotIndex w \<and> index \<le> throughIndex) (w_entryBytes w)))"

definition Close :: "WAL \<Rightarrow> WAL" where
  "Close w = w\<lparr>w_open := False\<rparr>"

subsection \<open>Compaction\<close>

text \<open>The loop that deletes covered segments; it stops at a segment it cannot read.\<close>

fun removeCovered :: "u64 \<Rightarrow> u64 \<Rightarrow> Segments \<Rightarrow> Segments \<times> WalError option" where
  "removeCovered activeNumber snapshotIndex [] = ([], None)"
| "removeCovered activeNumber snapshotIndex ((number, contents) # rest) =
     (if number = activeNumber
      then (let (rest', err) = removeCovered activeNumber snapshotIndex rest in ((number, contents) # rest', err))
      else (case segmentCoveredBySnapshot contents snapshotIndex of
              Inl err \<Rightarrow> ((number, contents) # rest, Some err)
            | Inr covered \<Rightarrow>
                let (rest', err) = removeCovered activeNumber snapshotIndex rest
                in (if covered then rest' else (number, contents) # rest', err)))"

definition installSnapshotCheckpoint :: "(compactionCheckpoint \<Rightarrow> byte list option) \<Rightarrow> u64 \<Rightarrow> u64 \<Rightarrow> u64 \<Rightarrow> WAL \<Rightarrow>
    WAL \<times> WalError option" where
  "installSnapshotCheckpoint marshal snapshotIndex snapshotTerm commitIndex w =
     (case marshal \<lparr>ck_Identity = w_identity w, ck_HardState = w_hardState w, ck_CommitIndex = commitIndex,
                    ck_SnapshotIndex = snapshotIndex, ck_SnapshotTerm = snapshotTerm\<rparr> of
        None \<Rightarrow> (w, Some CheckpointDecode)
      | Some payload \<Rightarrow>
          (case appendRecord recordCompactionCheckpoint payload w of
             (w, Some err) \<Rightarrow> (w, Some err)
           | (w, None) \<Rightarrow>
               let w = w\<lparr>w_snapshotIndex := snapshotIndex, w_snapshotTerm := snapshotTerm\<rparr>;
                   (segments, err) = removeCovered (w_segment w) snapshotIndex (w_segments w);
                   w = w\<lparr>w_segments := segments\<rparr>
               in if err \<noteq> None then (w, err)
                  else (w\<lparr>w_entryBytes := filter (\<lambda>(index, _). \<not> index \<le> snapshotIndex) (w_entryBytes w)\<rparr>, None)))"

definition Compact :: "(compactionCheckpoint \<Rightarrow> byte list option) \<Rightarrow> u64 \<Rightarrow> u64 \<Rightarrow> WAL \<Rightarrow> WAL \<times> WalError option" where
  "Compact marshal snapshotIndex snapshotTerm w =
     (if \<not> w_open w then (w, Some WalClosed)
      else if snapshotIndex = 0 \<or> snapshotIndex > w_commitIndex w then (w, Some BadSnapshotIndex)
      else installSnapshotCheckpoint marshal snapshotIndex snapshotTerm (w_commitIndex w) w)"

definition wal_InstallSnapshot ::
  "(compactionCheckpoint \<Rightarrow> byte list option) \<Rightarrow> u64 \<Rightarrow> u64 \<Rightarrow> WAL \<Rightarrow> WAL \<times> WalError option" where
  "wal_InstallSnapshot marshal snapshotIndex snapshotTerm w =
     (if \<not> w_open w then (w, Some WalClosed)
      else if snapshotIndex = 0 \<or> snapshotTerm = 0 \<or> snapshotIndex < w_snapshotIndex w
      then (w, Some BadSnapshotPosition)
      else (case installSnapshotCheckpoint marshal snapshotIndex snapshotTerm (max (w_commitIndex w) snapshotIndex) w of
              (w, Some err) \<Rightarrow> (w, Some err)
            | (w, None) \<Rightarrow>
                (w\<lparr>w_commitIndex := max (w_commitIndex w) snapshotIndex,
                   w_lastLogIndex := max (w_lastLogIndex w) snapshotIndex\<rparr>, None)))"

subsection \<open>Opening\<close>

definition emptyState :: "WalIdentity \<Rightarrow> WalState" where
  "emptyState identity =
     \<lparr>ws_Identity = identity, ws_HardState = \<lparr>hs_Term = 0, hs_VotedFor = ''''\<rparr>, ws_Log = [], ws_CommitIndex = 0,
      ws_SnapshotIndex = 0, ws_SnapshotTerm = 0\<rparr>"

definition freshHandle :: "Segments \<Rightarrow> WalIdentity \<Rightarrow> int \<Rightarrow> WAL" where
  "freshHandle segments identity segmentSize =
     \<lparr>w_segments = segments, w_segmentSize = segmentSize, w_segment = 0, w_open = False, w_offset = 0,
      w_lastLogIndex = 0, w_commitIndex = 0, w_hardState = \<lparr>hs_Term = 0, hs_VotedFor = ''''\<rparr>,
      w_identity = identity, w_snapshotIndex = 0, w_snapshotTerm = 0, w_entryBytes = []\<rparr>"

definition wal_open :: "(byte list \<Rightarrow> compactionCheckpoint option) \<Rightarrow> Segments \<Rightarrow> WalIdentity \<Rightarrow> int \<Rightarrow>
    WalError + (WAL \<times> WalState)" where
  "wal_open unmarshal segments identity segmentSize =
     (if blank (wi_ClusterID identity) \<or> blank (wi_NodeID identity) then Inl IdentityRequired
      else if segmentSize \<le> int (segmentHeaderSize + frameHeaderSize) then Inl SegmentTooSmall
      else
        let w = freshHandle segments identity segmentSize in
        if segments = []
        then
          (let (w, _) = createSegment 1 w in
           case appendRecord recordClusterIdentity (bytes_of (wi_ClusterID identity)) w of
             (w, Some err) \<Rightarrow> Inl err
           | (w, None) \<Rightarrow>
               (case appendRecord recordNodeIdentity (bytes_of (wi_NodeID identity)) w of
                  (w, Some err) \<Rightarrow> Inl err
                | (w, None) \<Rightarrow> Inr (w, emptyState identity)))
        else andThen (recoverSegments unmarshal segments) (\<lambda>(recovered, segments').
          if ws_Identity recovered \<noteq> identity then Inl DurableIdentityMismatch
          else
            let (number, contents) = last segments' in
            Inr (w\<lparr>w_segments := segments', w_segment := number, w_open := True, w_offset := int (length contents),
                   w_lastLogIndex := ws_SnapshotIndex recovered + of_nat (length (ws_Log recovered)),
                   w_commitIndex := ws_CommitIndex recovered, w_hardState := ws_HardState recovered,
                   w_snapshotIndex := ws_SnapshotIndex recovered, w_snapshotTerm := ws_SnapshotTerm recovered,
                   w_entryBytes := map (\<lambda>entry. (e_Index entry,
                     of_nat frameHeaderSize + 1 + 49 + of_nat (length (e_Key entry) + length (e_Value entry))))
                     (ws_Log recovered)\<rparr>, recovered)))"

definition Open :: "(byte list \<Rightarrow> compactionCheckpoint option) \<Rightarrow> Segments \<Rightarrow> WalIdentity \<Rightarrow> WalError + (WAL \<times> WalState)" where
  "Open unmarshal segments identity = wal_open unmarshal segments identity (int defaultSegmentSize)"

subsection \<open>The records in a directory\<close>

definition segmentOf :: "u64 \<times> Record list \<Rightarrow> u64 \<times> byte list" where
  "segmentOf s = (fst s, segmentBytes (snd s))"

definition recordsOf :: "(u64 \<times> Record list) list \<Rightarrow> Record list" where
  "recordsOf ss = concat (map snd ss)"

text \<open>The handle's directory holds these segments of records, the last of them active.\<close>

definition stores :: "WAL \<Rightarrow> (u64 \<times> Record list) list \<Rightarrow> bool" where
  "stores w ss \<longleftrightarrow> ss \<noteq> [] \<and> w_segments w = map segmentOf ss \<and> (\<forall>r\<in>set (recordsOf ss). fits r) \<and>
     distinct (map fst ss) \<and> (\<forall>s\<in>set ss. fst s \<le> w_segment w) \<and> fst (last ss) = w_segment w \<and>
     w_offset w = int (length (segmentBytes (snd (last ss)))) \<and> w_open w"

text \<open>What appending a record leaves alone.\<close>

definition keeps :: "WAL \<Rightarrow> WAL \<Rightarrow> bool" where
  "keeps w w' \<longleftrightarrow> w_segmentSize w' = w_segmentSize w \<and> w_open w' = w_open w \<and>
     w_lastLogIndex w' = w_lastLogIndex w \<and> w_commitIndex w' = w_commitIndex w \<and> w_hardState w' = w_hardState w \<and>
     w_identity w' = w_identity w \<and> w_snapshotIndex w' = w_snapshotIndex w \<and> w_snapshotTerm w' = w_snapshotTerm w \<and>
     w_entryBytes w' = w_entryBytes w"

lemma recordsOf_snoc: "recordsOf (ss @ [(n, rs)]) = recordsOf ss @ rs"
  by (simp add: recordsOf_def)

lemma segmentBytes_snoc: "segmentBytes (rs @ [r]) = segmentBytes rs @ recordBytes r"
  by (simp add: segmentBytes_def)

lemma createSegment_stores:
  assumes st: "stores w ss" and m: "w_segment w \<noteq> - 1"
  shows "\<exists>w'. createSegment (w_segment w + 1) (w\<lparr>w_open := False\<rparr>) = (w', True) \<and>
    stores w' (ss @ [(w_segment w + 1, [])]) \<and> keeps w w' \<and> w_segment w' = w_segment w + 1"
proof -
  have lt: "w_segment w < w_segment w + 1" by (rule word_less_add_one [OF m])
  have new: "w_segment w + 1 \<notin> fst ` set ss" using st lt by (auto simp: stores_def)
  moreover have "fst ` set (map segmentOf ss) = fst ` set ss" by (force simp: segmentOf_def)
  moreover have "fst s \<le> w_segment w + 1" if "s \<in> set ss" for s
    using st that lt by (force simp: stores_def)
  ultimately show ?thesis
    using st by (auto simp: createSegment_def stores_def keeps_def segmentOf_def segmentBytes_def recordsOf_def)
qed

lemma writeActive_stores:
  assumes st: "stores w ss" and r: "fits r"
  shows "\<exists>ss'. stores ((writeActive (recordBytes r) w)\<lparr>w_offset := w_offset w + int (length (recordBytes r))\<rparr>) ss' \<and>
    recordsOf ss' = recordsOf ss @ [r]"
proof -
  obtain ss0 n rs where ss: "ss = ss0 @ [(n, rs)]"
    using st by (cases ss rule: rev_cases) (auto simp: stores_def)
  have n: "n = w_segment w" "n \<notin> fst ` set ss0" using st ss by (auto simp: stores_def)
  let ?ss = "ss0 @ [(n, rs @ [r])]"
  have "map (\<lambda>(number, contents). (number, if number = w_segment w then contents @ recordBytes r else contents))
      (map segmentOf ss) = map segmentOf ?ss"
    using n by (force simp: ss segmentOf_def segmentBytes_snoc)
  then have "stores ((writeActive (recordBytes r) w)\<lparr>w_offset := w_offset w + int (length (recordBytes r))\<rparr>) ?ss"
    using st r ss by (auto simp: stores_def writeActive_def segmentBytes_snoc recordsOf_snoc)
  moreover have "recordsOf ?ss = recordsOf ss @ [r]" by (simp add: ss recordsOf_snoc)
  ultimately show ?thesis by blast
qed

lemma appendRecord_stores:
  assumes st: "stores w ss" and f: "fits (k, p)" and m: "w_segment w \<noteq> - 1"
  shows "\<exists>w' ss'. appendRecord k p w = (w', None) \<and> stores w' ss' \<and> recordsOf ss' = recordsOf ss @ [(k, p)] \<and>
    keeps w w' \<and> unat (w_segment w') \<le> Suc (unat (w_segment w))"
proof -
  let ?roll = "w_offset w > int segmentHeaderSize \<and>
    w_offset w + int (frameHeaderSize + length (k # p)) > w_segmentSize w"
  obtain w1 ss1 where w1: "(if ?roll then createSegment (w_segment w + 1) (w\<lparr>w_open := False\<rparr>) else (w, True)) = (w1, True)"
    "stores w1 ss1" "recordsOf ss1 = recordsOf ss" "keeps w w1" "unat (w_segment w1) \<le> Suc (unat (w_segment w))"
  proof (cases ?roll)
    case True
    obtain w' where c: "createSegment (w_segment w + 1) (w\<lparr>w_open := False\<rparr>) = (w', True)"
      "stores w' (ss @ [(w_segment w + 1, [])])" "keeps w w'" "w_segment w' = w_segment w + 1"
      using createSegment_stores [OF st m] by blast
    show thesis
      by (rule that [of w' "ss @ [(w_segment w + 1, [])]"])
         (use True c unat_plus_one_max [OF m] in \<open>simp_all add: recordsOf_snoc\<close>)
  next
    case False
    show thesis
      by (rule that [of w ss]) (use False st in \<open>auto simp: keeps_def\<close>)
  qed
  let ?w = "(writeActive (frame k p) w1)\<lparr>w_offset := w_offset w1 + int (frameHeaderSize + length (k # p))\<rparr>"
  have a: "appendRecord k p w = (?w, None)"
    using f w1(1) by (auto simp: appendRecord_def fits_def Let_def split: if_splits)
  have len: "length (recordBytes (k, p)) = frameHeaderSize + length (k # p)" by (simp add: length_recordBytes)
  obtain ss' where s: "stores ?w ss'" "recordsOf ss' = recordsOf ss1 @ [(k, p)]"
    using writeActive_stores [OF w1(2) f] unfolding len by (auto simp: recordBytes_def)
  have "keeps w ?w" "w_segment ?w = w_segment w1" using w1(4) by (auto simp: keeps_def writeActive_def)
  with a s w1(3,5) show ?thesis by (intro exI [of _ ?w] exI [of _ ss']) simp
qed

subsection \<open>What recovery makes of stored records\<close>

definition checkpointState :: "compactionCheckpoint \<Rightarrow> WalState" where
  "checkpointState ck =
     \<lparr>ws_Identity = ck_Identity ck, ws_HardState = ck_HardState ck, ws_Log = [], ws_CommitIndex = ck_CommitIndex ck,
      ws_SnapshotIndex = ck_SnapshotIndex ck, ws_SnapshotTerm = ck_SnapshotTerm ck\<rparr>"

definition recovered :: "(byte list \<Rightarrow> compactionCheckpoint option) \<Rightarrow> Record list \<Rightarrow> WalError + WalState" where
  "recovered unmarshal rs =
     andThen (visitAll (visitCheckpoint unmarshal) rs zeroCheckpoint)
       (\<lambda>ck. visitAll (applyRecord unmarshal) rs (checkpointState ck))"

text \<open>The directory with the beginning of an interrupted frame at the end of its last segment.\<close>

definition withTail :: "byte list \<Rightarrow> Segments \<Rightarrow> Segments" where
  "withTail bs segs = butlast segs @ [(fst (last segs), snd (last segs) @ bs)]"

definition tornTail :: "byte list \<Rightarrow> bool" where
  "tornTail bs \<longleftrightarrow> (\<exists>r j. fits r \<and> j < length (recordBytes r) \<and> bs = take j (recordBytes r))"

lemma tornTail_Nil [simp]: "tornTail []"
  unfolding tornTail_def
  by (rule exI [of _ "(0, [])"], rule exI [of _ 0]) (simp add: fits_def maxRecordSize_def length_recordBytes)

lemma frames_tornTail: "tornTail bs \<Longrightarrow> frames True visit bs s = Inr (s, 0)"
  by (auto simp: tornTail_def frames_torn)

lemma withTail_Nil: "segs \<noteq> [] \<Longrightarrow> withTail [] segs = segs"
  by (simp add: withTail_def)

lemma withTail_Cons: "segs \<noteq> [] \<Longrightarrow> withTail bs (s # segs) = s # withTail bs segs"
  by (simp add: withTail_def)

lemma withTail_ne [simp]: "withTail bs segs \<noteq> []"
  by (simp add: withTail_def)

lemma recordsOf_Cons: "recordsOf (s # ss) = snd s @ recordsOf ss"
  by (simp add: recordsOf_def)

lemma checkpointLoop_records:
  assumes "ss \<noteq> []" "\<forall>r\<in>set (recordsOf ss). fits r" "tornTail bs"
  shows "newestCheckpointLoop u (withTail bs (map segmentOf ss)) ck = visitAll (visitCheckpoint u) (recordsOf ss) ck"
  using assms
proof (induction ss arbitrary: ck)
  case (Cons s ss)
  have f: "\<forall>r\<in>set (snd s). fits r" using Cons.prems(2) by (simp add: recordsOf_Cons)
  show ?case
  proof (cases "ss = []")
    case True
    then show ?thesis
      using segmentFrames_records [OF f, of True "visitCheckpoint u" bs ck]
      by (simp add: frames_tornTail [OF Cons.prems(3)] withTail_def segmentOf_def recordsOf_def scanSegmentFrames_def andThen_def split: sum.split)
  next
    case False
    then have "newestCheckpointLoop u (withTail bs (map segmentOf ss)) ck' = visitAll (visitCheckpoint u) (recordsOf ss) ck'" for ck'
      using Cons by (simp add: recordsOf_Cons)
    then show ?thesis
      using False
      by (simp add: scanSegmentFrames_records [OF f] withTail_Cons segmentOf_def [of s] recordsOf_Cons visitAll_append andThen_def split: sum.split)
  qed
qed simp

lemma recoverLoop_records:
  assumes "ss \<noteq> []" "\<forall>r\<in>set (recordsOf ss). fits r" "tornTail bs"
  shows "recoverLoop u (withTail bs (map segmentOf ss)) st =
    andThen (visitAll (applyRecord u) (recordsOf ss) st) (\<lambda>st'. Inr (st', map segmentOf ss))"
  using assms
proof (induction ss arbitrary: st)
  case (Cons s ss)
  have f: "\<forall>r\<in>set (snd s). fits r" using Cons.prems(2) by (simp add: recordsOf_Cons)
  show ?case
  proof (cases "ss = []")
    case True
    then show ?thesis
      using segmentFrames_records [OF f, of True "applyRecord u" bs st]
      by (simp add: frames_tornTail [OF Cons.prems(3)] withTail_def segmentOf_def recordsOf_def readSegment_def andThen_def split: sum.split)
  next
    case False
    then have "recoverLoop u (withTail bs (map segmentOf ss)) st' =
        andThen (visitAll (applyRecord u) (recordsOf ss) st') (\<lambda>st''. Inr (st'', map segmentOf ss))" for st'
      using Cons by (simp add: recordsOf_Cons)
    then show ?thesis
      using False segmentFrames_records [OF f, of False "applyRecord u" "[]" st]
      by (auto simp: withTail_Cons segmentOf_def [of s] recordsOf_Cons visitAll_append readSegment_def andThen_def
        split: sum.split)
  qed
qed simp

lemma recoverSegments_records:
  assumes "ss \<noteq> []" "\<forall>r\<in>set (recordsOf ss). fits r" "tornTail bs" "recovered u (recordsOf ss) = Inr st"
    "wi_ClusterID (ws_Identity st) \<noteq> ''''" "wi_NodeID (ws_Identity st) \<noteq> ''''"
  shows "recoverSegments u (withTail bs (map segmentOf ss)) = Inr (st, map segmentOf ss)"
  using assms(4-6)
  by (auto simp: recoverSegments_def newestCompactionCheckpoint_def checkpointLoop_records [OF assms(1-3)]
    recoverLoop_records [OF assms(1-3)] recovered_def checkpointState_def andThen_Inr)

text \<open>Appending any record but a checkpoint extends what is recovered.\<close>

lemma recovered_snoc:
  assumes "k \<noteq> recordCompactionCheckpoint"
  shows "recovered u (rs @ [(k, p)]) = andThen (recovered u rs) (applyRecord u k p)"
  using assms
  by (auto simp: recovered_def visitAll_append visitCheckpoint_def andThen_def split: sum.splits)

subsection \<open>The handle agrees with its directory\<close>

definition holds :: "(byte list \<Rightarrow> compactionCheckpoint option) \<Rightarrow> WAL \<Rightarrow> WalState \<Rightarrow> bool" where
  "holds u w st \<longleftrightarrow> (\<exists>ss. stores w ss \<and> recovered u (recordsOf ss) = Inr st)"

definition wal_ok :: "(byte list \<Rightarrow> compactionCheckpoint option) \<Rightarrow> WAL \<Rightarrow> WalState \<Rightarrow> bool" where
  "wal_ok u w st \<longleftrightarrow> holds u w st \<and> \<not> blank (wi_ClusterID (ws_Identity st)) \<and> \<not> blank (wi_NodeID (ws_Identity st)) \<and>
     ws_Identity st = w_identity w \<and> walLastIndex st = w_lastLogIndex w \<and> ws_CommitIndex st = w_commitIndex w \<and>
     ws_HardState st = w_hardState w \<and> ws_SnapshotIndex st = w_snapshotIndex w \<and> ws_SnapshotTerm st = w_snapshotTerm w \<and>
     ws_SnapshotIndex st \<le> ws_CommitIndex st \<and> ws_CommitIndex st \<le> walLastIndex st \<and>
     unat (ws_SnapshotIndex st) + length (ws_Log st) < 2 ^ 64 - 1"

lemma holds_append:
  assumes "holds u w st" "fits (k, p)" "w_segment w \<noteq> - 1" "k \<noteq> recordCompactionCheckpoint"
    "applyRecord u k p st = Inr st'"
  shows "\<exists>w'. appendRecord k p w = (w', None) \<and> holds u w' st' \<and> keeps w w' \<and>
    unat (w_segment w') \<le> Suc (unat (w_segment w))"
proof -
  obtain ss where ss: "stores w ss" "recovered u (recordsOf ss) = Inr st" using assms(1) by (auto simp: holds_def)
  from appendRecord_stores [OF ss(1) assms(2,3)] obtain w' ss' where w': "appendRecord k p w = (w', None)" "stores w' ss'"
    "recordsOf ss' = recordsOf ss @ [(k, p)]" "keeps w w'" "unat (w_segment w') \<le> Suc (unat (w_segment w))" by blast
  have "recovered u (recordsOf ss') = Inr st'"
    using recovered_snoc [OF assms(4)] w'(3) ss(2) assms(5) by simp
  with w' show ?thesis by (auto simp: holds_def)
qed

lemma holds_meta:
  "holds u w st \<Longrightarrow> w_segments w' = w_segments w \<Longrightarrow> w_segment w' = w_segment w \<Longrightarrow> w_open w' = w_open w \<Longrightarrow>
    w_offset w' = w_offset w \<Longrightarrow> holds u w' st"
  by (auto simp: holds_def stores_def)

subsection \<open>Operations\<close>

datatype WalOp = SaveEntries "LogEntry list" | Truncate u64 | SaveCommit u64 | SaveHard HardState

fun walOp :: "WalOp \<Rightarrow> WAL \<Rightarrow> WAL \<times> WalError option" where
  "walOp (SaveEntries es) = SaveLogEntries es"
| "walOp (Truncate i) = TruncateLog i"
| "walOp (SaveCommit i) = SaveCommitIndex i"
| "walOp (SaveHard h) = SaveHardState h"

text \<open>What each operation promises of the durable state.\<close>

fun specOp :: "WalOp \<Rightarrow> WalState \<Rightarrow> WalState" where
  "specOp (SaveEntries es) st = st\<lparr>ws_Log := ws_Log st @ es\<rparr>"
| "specOp (Truncate i) st = st\<lparr>ws_Log := take (unat (i - ws_SnapshotIndex st - 1)) (ws_Log st)\<rparr>"
| "specOp (SaveCommit i) st = st\<lparr>ws_CommitIndex := i\<rparr>"
| "specOp (SaveHard h) st = st\<lparr>ws_HardState := h\<rparr>"

text \<open>What the consensus core guarantees of its writes: sessions are 16 bytes long, indices do not wrap,
  Terms do not decrease and a vote is not changed within a Term.\<close>

fun op_wf :: "WalOp \<Rightarrow> WalState \<Rightarrow> bool" where
  "op_wf (SaveEntries es) st \<longleftrightarrow> (\<forall>e\<in>set es. length (e_SessionID e) = 16) \<and>
     unat (ws_SnapshotIndex st) + length (ws_Log st) + length es < 2 ^ 64 - 1"
| "op_wf (SaveHard h) st \<longleftrightarrow> hs_Term (ws_HardState st) \<le> hs_Term h \<and>
     (hs_Term (ws_HardState st) = hs_Term h \<and> hs_VotedFor (ws_HardState st) \<noteq> '''' \<longrightarrow> h = ws_HardState st)"
| "op_wf _ st \<longleftrightarrow> True"

text \<open>The number of records an operation appends.\<close>

fun op_records :: "WalOp \<Rightarrow> nat" where
  "op_records (SaveEntries es) = length es"
| "op_records _ = 1"

lemma fits_success: "snd (appendRecord k p w) = None \<Longrightarrow> fits (k, p)"
  by (auto simp: appendRecord_def fits_def Let_def split: if_splits)

lemma unat_walLastIndex:
  "unat (ws_SnapshotIndex st) + length (ws_Log st) < 2 ^ 64 \<Longrightarrow>
     unat (walLastIndex st) = unat (ws_SnapshotIndex st) + length (ws_Log st)"
  by (simp add: walLastIndex_def unat_add_of_nat)

lemma appendEntryRecords_holds:
  assumes "holds u w st" "indicesFollow (walLastIndex st) es" "\<forall>e\<in>set es. length (e_SessionID e) = 16"
    "unat (ws_SnapshotIndex st) + length (ws_Log st) + length es < 2 ^ 64 - 1"
    "unat (w_segment w) + length es < 2 ^ 64" "appendEntryRecords es w = (w', None)"
  shows "holds u w' (st\<lparr>ws_Log := ws_Log st @ es\<rparr>) \<and> w_open w' = w_open w \<and>
    w_lastLogIndex w' = w_lastLogIndex w \<and> w_commitIndex w' = w_commitIndex w \<and> w_hardState w' = w_hardState w \<and>
    w_identity w' = w_identity w \<and> w_snapshotIndex w' = w_snapshotIndex w \<and> w_snapshotTerm w' = w_snapshotTerm w \<and>
    w_segmentSize w' = w_segmentSize w \<and> unat (w_segment w') \<le> unat (w_segment w) + length es"
  using assms
proof (induction es arbitrary: w st)
  case (Cons e es)
  let ?st = "st\<lparr>ws_Log := ws_Log st @ [e]\<rparr>"
  have f: "fits (recordLogEntryV3, encodeEntry e)"
    using Cons.prems(6) by (intro fits_success [of _ _ w]) (auto split: prod.splits option.splits)
  have ef: "entry_fits e" using f Cons.prems(3) by (simp add: entry_fits_def fits_def length_encodeEntry)
  have last: "unat (walLastIndex st) = unat (ws_SnapshotIndex st) + length (ws_Log st)"
    using Cons.prems(4) by (intro unat_walLastIndex) simp
  then have ne: "walLastIndex st \<noteq> - 1" using Cons.prems(4) by (auto simp: unat_max_u64)
  have idx: "e_Index e = walLastIndex st + 1" "indicesFollow (walLastIndex st + 1) es" using Cons.prems(2) by auto
  have "\<not> e_Index e \<le> ws_SnapshotIndex st"
    using last idx(1) unat_plus_one_max [OF ne] by (simp add: word_le_nat_alt)
  then have a: "applyRecord u recordLogEntryV3 (encodeEntry e) st = Inr ?st"
    using idx(1) by (simp add: applyRecord_entry [OF ef] recoverEntry_def)
  have seg: "w_segment w \<noteq> - 1" using Cons.prems(5) by (auto simp: unat_max_u64)
  from holds_append [OF Cons.prems(1) f seg _ a] obtain w1 where w1:
    "appendRecord recordLogEntryV3 (encodeEntry e) w = (w1, None)" "holds u w1 ?st" "keeps w w1"
    "unat (w_segment w1) \<le> Suc (unat (w_segment w))" by auto
  let ?w = "w1\<lparr>w_entryBytes := AList.update (e_Index e)
      (of_nat frameHeaderSize + 1 + of_nat (length (encodeEntry e))) (w_entryBytes w1)\<rparr>"
  have nxt: "walLastIndex ?st = walLastIndex st + 1" by (simp add: walLastIndex_def)
  have "holds u ?w ?st" by (rule holds_meta [OF w1(2)]) simp_all
  from Cons.IH [OF this] idx(2) nxt w1(1,3,4) Cons.prems(3-6)
  show ?case by (simp add: keeps_def)
qed simp

lemma SaveLogEntries_ok:
  assumes ok: "wal_ok u w st" and wf: "op_wf (SaveEntries es) st" and seg: "unat (w_segment w) + length es < 2 ^ 64"
    and s: "SaveLogEntries es w = (w', None)"
  shows "wal_ok u w' (specOp (SaveEntries es) st) \<and> unat (w_segment w') \<le> unat (w_segment w) + length es"
proof -
  obtain w1 where w1: "indicesFollow (w_lastLogIndex w) es" "appendEntryRecords es w = (w1, None)"
    "w' = w1\<lparr>w_lastLogIndex := w_lastLogIndex w1 + of_nat (length es)\<rparr>"
    using s by (auto simp: SaveLogEntries_def split: if_splits prod.splits option.splits)
  have h: "holds u w st" "indicesFollow (walLastIndex st) es" using ok w1(1) by (auto simp: wal_ok_def)
  have b: "\<forall>e\<in>set es. length (e_SessionID e) = 16"
    "unat (ws_SnapshotIndex st) + length (ws_Log st) + length es < 2 ^ 64 - 1" using wf by simp_all
  note a = appendEntryRecords_holds [OF h b seg w1(2)]
  have "holds u w' (st\<lparr>ws_Log := ws_Log st @ es\<rparr>)" using a w1(3) by (auto intro: holds_meta)
  moreover have "ws_CommitIndex st \<le> walLastIndex (st\<lparr>ws_Log := ws_Log st @ es\<rparr>)"
    using ok b(2) unat_walLastIndex [of st] unat_walLastIndex [of "st\<lparr>ws_Log := ws_Log st @ es\<rparr>"]
    by (auto simp: wal_ok_def word_le_nat_alt)
  ultimately show ?thesis using ok a w1(3) b(2) by (auto simp: wal_ok_def walLastIndex_def)
qed

lemma TruncateLog_ok:
  assumes ok: "wal_ok u w st" and seg: "unat (w_segment w) + 1 < 2 ^ 64" and s: "TruncateLog i w = (w', None)"
  shows "wal_ok u w' (specOp (Truncate i) st) \<and> unat (w_segment w') \<le> unat (w_segment w) + 1"
proof -
  let ?st = "specOp (Truncate i) st" and ?S = "ws_SnapshotIndex st"
  have g: "i \<noteq> 0" "\<not> i > walLastIndex st + 1" "\<not> i \<le> ws_CommitIndex st" "snd (appendRecord recordLogTruncation (be64 i) w) = None"
    using s ok by (auto simp: TruncateLog_def wal_ok_def split: if_splits prod.splits option.splits)
  have bound: "unat ?S + length (ws_Log st) < 2 ^ 64 - 1" and cS: "?S \<le> ws_CommitIndex st" using ok by (auto simp: wal_ok_def)
  have iS: "\<not> i \<le> ?S" using cS g(3) by auto
  have last: "unat (walLastIndex st) = unat ?S + length (ws_Log st)" using bound by (intro unat_walLastIndex) simp
  then have "unat (walLastIndex st + 1) = unat ?S + length (ws_Log st) + 1"
    using bound unat_plus_one_max [of "walLastIndex st"] by (force simp: unat_max_u64)
  then have ui: "unat i \<le> unat ?S + length (ws_Log st) + 1" "unat ?S < unat i"
    using g(2) iS by (simp_all add: word_less_nat_alt word_le_nat_alt)
  have cut: "unat (i - ?S - 1) = unat i - unat ?S - 1"
  proof -
    have "unat (i - ?S) = unat i - unat ?S" using iS by (intro unat_sub_le) simp
    moreover have "0 < i - ?S" using calculation ui(2) by (simp add: word_less_nat_alt)
    ultimately show ?thesis by (simp add: unat_minus_one_pos)
  qed
  have a: "applyRecord u recordLogTruncation (be64 i) st = Inr ?st"
    using g iS uint64_be64 [of i "[]"] by (simp add: applyRecord_def recoverTruncation_def Let_def)
  have "w_segment w \<noteq> - 1" using seg by (auto simp: unat_max_u64)
  from holds_append [OF _ fits_success [OF g(4)] this _ a] ok obtain w1 where w1:
    "appendRecord recordLogTruncation (be64 i) w = (w1, None)" "holds u w1 ?st" "keeps w w1"
    "unat (w_segment w1) \<le> Suc (unat (w_segment w))" by (auto simp: wal_ok_def)
  then obtain eb where w': "w' = w1\<lparr>w_entryBytes := eb, w_lastLogIndex := i - 1\<rparr>"
    using s by (auto simp: TruncateLog_def split: if_splits)
  have "length (ws_Log ?st) = unat i - unat ?S - 1" using cut ui by simp
  then have l: "unat (walLastIndex ?st) = unat i - 1"
    using ui bound unat_walLastIndex [of ?st] by simp
  then have "walLastIndex ?st = i - 1"
    using g(1) by (intro unat_inj_u64) (simp add: unat_minus_one_pos word_gt_0)
  moreover have "ws_CommitIndex st \<le> walLastIndex ?st" using l g(3) by (simp add: word_le_nat_alt)
  moreover have "holds u w' ?st" by (rule holds_meta [OF w1(2)]) (simp_all add: w')
  ultimately show ?thesis using ok w1(3,4) bound w' by (auto simp: wal_ok_def keeps_def)
qed

lemma SaveCommitIndex_ok:
  assumes ok: "wal_ok u w st" and seg: "unat (w_segment w) + 1 < 2 ^ 64" and s: "SaveCommitIndex i w = (w', None)"
  shows "wal_ok u w' (specOp (SaveCommit i) st) \<and> unat (w_segment w') \<le> unat (w_segment w) + 1"
proof (cases "i = w_commitIndex w")
  case True
  then have "w' = w" "specOp (SaveCommit i) st = st"
    using s ok by (auto simp: SaveCommitIndex_def wal_ok_def split: if_splits)
  with ok show ?thesis by simp
next
  case False
  have g: "\<not> i < ws_CommitIndex st" "\<not> i > walLastIndex st" "snd (appendRecord recordCommitIndex (be64 i) w) = None"
    using s ok False by (auto simp: SaveCommitIndex_def wal_ok_def split: if_splits prod.splits option.splits)
  let ?st = "specOp (SaveCommit i) st"
  have a: "applyRecord u recordCommitIndex (be64 i) st = Inr ?st"
    using g uint64_be64 [of i "[]"] by (simp add: applyRecord_def recoverCommit_def Let_def)
  have "w_segment w \<noteq> - 1" using seg by (auto simp: unat_max_u64)
  from holds_append [OF _ fits_success [OF g(3)] this _ a] ok obtain w1 where w1:
    "appendRecord recordCommitIndex (be64 i) w = (w1, None)" "holds u w1 ?st" "keeps w w1"
    "unat (w_segment w1) \<le> Suc (unat (w_segment w))" by (auto simp: wal_ok_def)
  have w': "w' = w1\<lparr>w_commitIndex := i\<rparr>" using s w1(1) False by (auto simp: SaveCommitIndex_def split: if_splits)
  have "holds u w' ?st" by (rule holds_meta [OF w1(2)]) (simp_all add: w')
  moreover have "ws_SnapshotIndex st \<le> i" using ok g(1) by (auto simp: wal_ok_def)
  ultimately show ?thesis using ok w1(3,4) w' g(2) by (auto simp: wal_ok_def keeps_def walLastIndex_def)
qed

lemma SaveHardState_ok:
  assumes ok: "wal_ok u w st" and wf: "op_wf (SaveHard h) st" and seg: "unat (w_segment w) + 1 < 2 ^ 64"
    and s: "SaveHardState h w = (w', None)"
  shows "wal_ok u w' (specOp (SaveHard h) st) \<and> unat (w_segment w') \<le> unat (w_segment w) + 1"
proof -
  let ?p = "be64 (hs_Term h) @ bytes_of (hs_VotedFor h)" and ?st = "specOp (SaveHard h) st"
  have f: "fits (recordHardState, ?p)"
    using s by (intro fits_success [of _ _ w]) (auto simp: SaveHardState_def split: if_splits prod.splits option.splits)
  have ne: "wi_NodeID (ws_Identity st) \<noteq> ''''" using ok by (auto simp: wal_ok_def)
  have a: "applyRecord u recordHardState ?p st = Inr ?st"
    using wf ne by (auto simp: applyRecord_def recoverHardState_def Let_def)
  have "w_segment w \<noteq> - 1" using seg by (auto simp: unat_max_u64)
  from holds_append [OF _ f this _ a] ok obtain w1 where w1:
    "appendRecord recordHardState ?p w = (w1, None)" "holds u w1 ?st" "keeps w w1"
    "unat (w_segment w1) \<le> Suc (unat (w_segment w))" by (auto simp: wal_ok_def)
  have w': "w' = w1\<lparr>w_hardState := h\<rparr>" using s w1(1) by (auto simp: SaveHardState_def split: if_splits)
  have "holds u w' ?st" by (rule holds_meta [OF w1(2)]) (simp_all add: w')
  then show ?thesis using ok w1(3,4) w' by (auto simp: wal_ok_def keeps_def walLastIndex_def)
qed

text \<open>Every successful operation does to the directory what it promises.\<close>

lemma walOp_ok:
  assumes "wal_ok u w st" "op_wf p st" "unat (w_segment w) + op_records p < 2 ^ 64" "walOp p w = (w', None)"
  shows "wal_ok u w' (specOp p st) \<and> unat (w_segment w') \<le> unat (w_segment w) + op_records p"
  using assms SaveLogEntries_ok [OF assms(1)] TruncateLog_ok [OF assms(1)] SaveCommitIndex_ok [OF assms(1)]
    SaveHardState_ok [OF assms(1)]
  by (cases p) (simp_all del: specOp.simps op_wf.simps)

subsection \<open>Histories of operations\<close>

fun runWal :: "WalOp list \<Rightarrow> WAL \<Rightarrow> WAL option" where
  "runWal [] w = Some w"
| "runWal (p # ps) w = (case walOp p w of (w', None) \<Rightarrow> runWal ps w' | _ \<Rightarrow> None)"

fun ops_wf :: "WalOp list \<Rightarrow> WalState \<Rightarrow> bool" where
  "ops_wf [] st = True"
| "ops_wf (p # ps) st = (op_wf p st \<and> ops_wf ps (specOp p st))"

lemma runWal_ok:
  assumes "wal_ok u w st" "ops_wf ps st" "unat (w_segment w) + sum_list (map op_records ps) < 2 ^ 64" "runWal ps w = Some w'"
  shows "wal_ok u w' (fold specOp ps st)"
  using assms
proof (induction ps arbitrary: w st)
  case (Cons p ps)
  obtain w1 where w1: "walOp p w = (w1, None)" "runWal ps w1 = Some w'"
    using Cons.prems(4) by (auto split: prod.splits option.splits)
  have p: "op_wf p st" "unat (w_segment w) + op_records p < 2 ^ 64" using Cons.prems(2,3) by auto
  note s = walOp_ok [OF Cons.prems(1) p w1(1)]
  then have "unat (w_segment w1) + sum_list (map op_records ps) < 2 ^ 64" using Cons.prems(3) by auto
  with Cons.IH [of w1 "specOp p st"] s Cons.prems(2) w1(2) show ?case by simp
qed simp

lemma open_fresh:
  assumes o: "wal_open u [] identity sz = Inr (w, st)"
  shows "wal_ok u w st \<and> st = emptyState identity \<and> unat (w_segment w) \<le> 3 \<and> w_identity w = identity \<and>
    w_segmentSize w = sz \<and> \<not> sz \<le> int (segmentHeaderSize + frameHeaderSize)"
proof -
  define w0 where "w0 = fst (createSegment 1 (freshHandle [] identity sz))"
  let ?c = "bytes_of (wi_ClusterID identity)" and ?n = "bytes_of (wi_NodeID identity)"
  have b: "\<not> blank (wi_ClusterID identity)" "\<not> blank (wi_NodeID identity)"
    "\<not> sz \<le> int (segmentHeaderSize + frameHeaderSize)"
    using o by (auto simp: wal_open_def split: if_splits)
  then have ne: "wi_ClusterID identity \<noteq> ''''" "wi_NodeID identity \<noteq> ''''" by auto
  obtain w1 where a1: "appendRecord recordClusterIdentity ?c w0 = (w1, None)"
    and a2: "appendRecord recordNodeIdentity ?n w1 = (w, None)" and st: "st = emptyState identity"
    using o b by (auto simp: wal_open_def w0_def Let_def createSegment_def split: prod.splits option.splits)
  have h0: "holds u w0 (checkpointState zeroCheckpoint)" and s0: "w_segment w0 = 1"
    unfolding holds_def
    by (rule exI [of _ "[(1, [])]"])
       (simp_all add: w0_def createSegment_def freshHandle_def stores_def recordsOf_def segmentOf_def segmentBytes_def
         recovered_def)
  have f1: "fits (recordClusterIdentity, ?c)" and f2: "fits (recordNodeIdentity, ?n)"
    using fits_success [of _ ?c w0] fits_success [of _ ?n w1] a1 a2 by simp_all
  have seg0: "w_segment w0 \<noteq> - 1" using s0 by simp
  let ?st1 = "(checkpointState zeroCheckpoint)\<lparr>ws_Identity := \<lparr>wi_ClusterID = wi_ClusterID identity, wi_NodeID = ''''\<rparr>\<rparr>"
  have "applyRecord u recordClusterIdentity ?c (checkpointState zeroCheckpoint) = Inr ?st1"
    by (simp add: applyRecord_def checkpointState_def zeroCheckpoint_def)
  from holds_append [OF h0 f1 seg0 _ this] a1
  have h1: "holds u w1 ?st1" "keeps w0 w1" "unat (w_segment w1) \<le> 2" using s0 by auto
  have seg1: "w_segment w1 \<noteq> - 1" using h1(3) by (auto simp: unat_max_u64)
  have "applyRecord u recordNodeIdentity ?n ?st1 = Inr (emptyState identity)"
    using ne by (simp add: applyRecord_def checkpointState_def zeroCheckpoint_def emptyState_def)
  from holds_append [OF h1(1) f2 seg1 _ this] a2
  have "holds u w (emptyState identity)" "keeps w1 w" "unat (w_segment w) \<le> 3" using h1(3) by auto
  with b st h1(2) show ?thesis
    by (auto simp: wal_ok_def keeps_def walLastIndex_def emptyState_def w0_def createSegment_def freshHandle_def)
qed

lemma open_holds:
  assumes ok: "wal_ok u w st" and sz: "\<not> sz \<le> int (segmentHeaderSize + frameHeaderSize)" and t: "tornTail bs"
  shows "\<exists>w'. wal_open u (withTail bs (w_segments w)) (w_identity w) sz = Inr (w', st) \<and>
    w_segments w' = w_segments w \<and> w_lastLogIndex w' = w_lastLogIndex w \<and> w_commitIndex w' = w_commitIndex w \<and>
    w_hardState w' = w_hardState w"
proof -
  obtain ss where ss: "stores w ss" "recovered u (recordsOf ss) = Inr st" using ok by (auto simp: wal_ok_def holds_def)
  then have s: "ss \<noteq> []" "\<forall>r\<in>set (recordsOf ss). fits r" "w_segments w = map segmentOf ss" by (auto simp: stores_def)
  have i: "wi_ClusterID (ws_Identity st) \<noteq> ''''" "wi_NodeID (ws_Identity st) \<noteq> ''''" using ok by (auto simp: wal_ok_def)
  note r = recoverSegments_records [OF s(1,2) t ss(2) i]
  then show ?thesis
    using ok sz s by (auto simp: wal_open_def Let_def wal_ok_def split_beta freshHandle_def walLastIndex_def)
qed

text \<open>C29. What is saved is what is recovered: after any sequence of successful saves, truncations, commit
  and hard-state writes, through any number of segment rotations, reopening the directory yields exactly
  the state these operations promise, also when the process died in the middle of writing a further
  record.\<close>

theorem wal_recovers_saved:
  assumes "wal_open u [] identity segmentSize = Inr (w0, st0)" and "runWal ops w0 = Some w"
    and "ops_wf ops (emptyState identity)" and "sum_list (map op_records ops) < 2 ^ 63" and "tornTail bs"
  shows "\<exists>w'. wal_open u (withTail bs (w_segments w)) identity segmentSize =
      Inr (w', fold specOp ops (emptyState identity)) \<and>
    w_segments w' = w_segments w \<and> w_lastLogIndex w' = w_lastLogIndex w \<and> w_commitIndex w' = w_commitIndex w \<and>
    w_hardState w' = w_hardState w"
proof -
  note f = open_fresh [OF assms(1)]
  have "unat (w_segment w0) + sum_list (map op_records ops) < 2 ^ 64" using f assms(4) by simp
  from runWal_ok [OF _ _ this assms(2)] f assms(3) have ok: "wal_ok u w (fold specOp ops (emptyState identity))" by auto
  have "ws_Identity (specOp p st) = ws_Identity st" for p st by (cases p) simp_all
  then have "ws_Identity (fold specOp ops st) = ws_Identity st" for st by (induction ops arbitrary: st) simp_all
  then have "w_identity w = identity" using ok by (simp add: wal_ok_def emptyState_def)
  with open_holds [OF ok _ assms(5)] f show ?thesis by auto
qed

text \<open>A directory written by a short history.\<close>

definition sample_identity :: WalIdentity where
  "sample_identity = \<lparr>wi_ClusterID = ''c'', wi_NodeID = ''n1''\<rparr>"

definition wal_entry :: "u64 \<Rightarrow> u64 \<Rightarrow> LogEntry" where
  "wal_entry i t = \<lparr>e_Index = i, e_Term = t, e_Type = EntrySet, e_SessionID = replicate 16 7, e_Sequence = i,
     e_Key = ''k'', e_Value = [1]\<rparr>"

definition sample_ops :: "WalOp list" where
  "sample_ops = [SaveHard \<lparr>hs_Term = 1, hs_VotedFor = ''n1''\<rparr>, SaveEntries [wal_entry 1 1, wal_entry 2 1],
     Truncate 2, SaveEntries [wal_entry 2 1], SaveCommit 1]"

lemma appendRecord_fits:
  "length p < maxRecordSize \<Longrightarrow> \<not> (w_offset w > int segmentHeaderSize \<and>
     w_offset w + int (frameHeaderSize + Suc (length p)) > w_segmentSize w) \<Longrightarrow>
   appendRecord k p w =
     ((writeActive (frame k p) w)\<lparr>w_offset := w_offset w + int (frameHeaderSize + Suc (length p))\<rparr>, None)"
  by (auto simp: appendRecord_def Let_def)

lemma writeActive_fields [simp]:
  "w_offset (writeActive bs w) = w_offset w" "w_segmentSize (writeActive bs w) = w_segmentSize w"
  "w_open (writeActive bs w) = w_open w" "w_lastLogIndex (writeActive bs w) = w_lastLogIndex w"
  "w_commitIndex (writeActive bs w) = w_commitIndex w" "w_segment (writeActive bs w) = w_segment w"
  by (simp_all add: writeActive_def)

lemma length_wal_entry [simp]: "length (encodeEntry (wal_entry i t)) = 51"
  by (simp add: length_encodeEntry wal_entry_def)

lemmas wal_sizes = segmentHeaderSize_def segmentMagic_def frameHeaderSize_def maxRecordSize_def

lemma sample_open_ok:
  "\<exists>w st. wal_open u [] sample_identity 4096 = Inr (w, st) \<and> w_open w \<and> w_offset w < 50 \<and> w_segmentSize w = 4096 \<and>
     w_lastLogIndex w = 0 \<and> w_commitIndex w = 0"
proof -
  have "\<not> blank (wi_ClusterID sample_identity) \<and> \<not> blank (wi_NodeID sample_identity)" by code_simp
  then show ?thesis
    by (simp add: wal_open_def sample_identity_def createSegment_def freshHandle_def Let_def appendRecord_fits wal_sizes)
qed

lemma sample_ops_run:
  assumes "w_open w" "w_offset w < 50" "0 \<le> w_offset w" "w_segmentSize w = 4096" "w_lastLogIndex w = 0" "w_commitIndex w = 0"
  shows "\<exists>w'. runWal sample_ops w = Some w'"
proof -
  have i: "e_Index (wal_entry i t) = i" for i t by (simp add: wal_entry_def)
  show ?thesis
    using assms
    by (simp add: sample_ops_def SaveHardState_def SaveLogEntries_def TruncateLog_def SaveCommitIndex_def i
      appendRecord_fits wal_sizes)
qed


theorem wal_recovers_saved_witness:
  "\<exists>w0 st0 w w'. wal_open (\<lambda>_. None) [] sample_identity 4096 = Inr (w0, st0) \<and> runWal sample_ops w0 = Some w \<and>
     wal_open (\<lambda>_. None) (withTail [] (w_segments w)) sample_identity 4096 =
       Inr (w', fold specOp sample_ops (emptyState sample_identity))"
proof -
  obtain w0 st0 where o: "wal_open (\<lambda>_. None) [] sample_identity 4096 = Inr (w0, st0)" and w0: "w_open w0"
    "w_offset w0 < 50" "w_segmentSize w0 = 4096" "w_lastLogIndex w0 = 0" "w_commitIndex w0 = 0"
    using sample_open_ok by blast
  have "holds (\<lambda>_. None) w0 st0" using open_fresh [OF o] by (auto simp: wal_ok_def)
  then have "0 \<le> w_offset w0" by (auto simp: holds_def stores_def)
  with sample_ops_run [OF w0(1,2) _ w0(3-5)] obtain w where r: "runWal sample_ops w0 = Some w" by blast
  have "ops_wf sample_ops (emptyState sample_identity)" "sum_list (map op_records sample_ops) < 2 ^ 63"
    by (simp_all add: sample_ops_def emptyState_def wal_entry_def)
  from wal_recovers_saved [OF o r this tornTail_Nil] o r show ?thesis by blast
qed

subsection \<open>Directories the log cannot reopen\<close>

text \<open>C33. Losing power while a segment is created stops the Node. If the file of a new segment exists
  but its twelve-byte header is not complete, recovery fails; and if the very first segment has its header
  but not yet both identity records, recovery fails as well. Interrupted frames are forgiven, interrupted
  headers are not.\<close>

theorem interrupted_creation_blocks_restart:
  assumes "wal_ok u w st" and "k < segmentHeaderSize" and "\<not> blank (wi_ClusterID identity)"
    and "\<not> blank (wi_NodeID identity)" and "segmentSize > int (segmentHeaderSize + frameHeaderSize)"
  shows "wal_open u (w_segments w @ [(n, take k segmentHeader)]) identity segmentSize = Inl ShortHeader \<and>
    wal_open u [(1, segmentHeader)] identity segmentSize = Inl IncompleteIdentity"
proof -
  obtain ss where ss: "stores w ss" "recovered u (recordsOf ss) = Inr st" using assms(1) by (auto simp: wal_ok_def holds_def)
  then have f: "\<forall>r\<in>set (recordsOf ss). fits r" and w: "w_segments w = map segmentOf ss" by (auto simp: stores_def)
  obtain ck where ck: "visitAll (visitCheckpoint u) (recordsOf ss) zeroCheckpoint = Inr ck"
    using ss(2) by (auto simp: recovered_def andThen_Inr)
  have "newestCheckpointLoop u (map segmentOf ss @ [(n, take k segmentHeader)]) c =
      andThen (visitAll (visitCheckpoint u) (recordsOf ss) c) (\<lambda>_. Inl ShortHeader)" for c
    using f
  proof (induction ss arbitrary: c)
    case Nil
    then show ?case
      using assms(2) by (simp add: recordsOf_def scanSegmentFrames_def segmentFrames_def)
  next
    case (Cons s ss)
    then have "\<forall>r\<in>set (snd s). fits r" by (simp add: recordsOf_Cons)
    from scanSegmentFrames_records [OF this, of False "visitCheckpoint u"] Cons show ?case
      by (simp add: segmentOf_def [of s] recordsOf_Cons visitAll_append andThen_def split: sum.split)
  qed
  with ck have "recoverSegments u (map segmentOf ss @ [(n, take k segmentHeader)]) = Inl ShortHeader"
    by (simp add: recoverSegments_def newestCompactionCheckpoint_def)
  moreover have "recoverSegments u [(1, segmentHeader)] = Inl IncompleteIdentity"
    using checkpointLoop_records [of "[(1, [])]" "[]" u zeroCheckpoint] recoverLoop_records [of "[(1, [])]" "[]" u]
    by (simp add: recoverSegments_def newestCompactionCheckpoint_def withTail_def segmentOf_def segmentBytes_def
      recordsOf_def zeroCheckpoint_def)
  ultimately show ?thesis using assms(3-5) w by (simp add: wal_open_def)
qed

theorem interrupted_creation_blocks_restart_witness:
  "\<exists>w st. wal_ok (\<lambda>_. None) w st \<and>
     wal_open (\<lambda>_. None) (w_segments w @ [(2, take 3 segmentHeader)]) sample_identity 4096 = Inl ShortHeader"
proof -
  obtain w st where o: "wal_open (\<lambda>_. None) [] sample_identity 4096 = Inr (w, st)" using sample_open_ok by blast
  have b: "\<not> blank (wi_ClusterID sample_identity)" "\<not> blank (wi_NodeID sample_identity)" by code_simp+
  have ok: "wal_ok (\<lambda>_. None) w st" using open_fresh [OF o] by blast
  from interrupted_creation_blocks_restart [OF this _ b, of 3 4096 2] ok show ?thesis by (auto simp: wal_sizes)
qed

lemma applyRecord_snapshot:
  "applyRecord u k p st = Inr st' \<Longrightarrow> ws_SnapshotIndex st' = ws_SnapshotIndex st"
proof -
  have e: "recoverEntry e st = Inr st' \<Longrightarrow> ws_SnapshotIndex st' = ws_SnapshotIndex st" for e st st'
    by (auto simp: recoverEntry_def split: if_splits)
  have l: "recoverLegacy width session bs st = Inr st' \<Longrightarrow> ws_SnapshotIndex st' = ws_SnapshotIndex st"
    for width session bs st st'
  proof (induction width session bs st rule: recoverLegacy.induct)
    case (1 width session bs st)
    show ?case
    proof (cases "length bs < width \<or> width = 0")
      case False
      then obtain x where "recoverEntry (legacyEntry session bs) st = Inr x"
        "recoverLegacy width session (drop width bs) x = Inr st'"
        using "1.prems" by (auto simp: recoverLegacy.simps [of width session bs] andThen_Inr)
      with "1.IH" [OF False, of x] e show ?thesis by metis
    qed (use "1.prems" in \<open>simp add: recoverLegacy.simps [of width session bs]\<close>)
  qed
  show "applyRecord u k p st = Inr st' \<Longrightarrow> ws_SnapshotIndex st' = ws_SnapshotIndex st"
    by (auto simp: applyRecord_def recoverHardState_def recoverTruncation_def recoverCommit_def Let_def andThen_Inr
      split: if_splits option.splits dest!: e l)
qed

text \<open>Replaying a truncation at or below the Snapshot always fails.\<close>

lemma truncation_below_snapshot_fails:
  assumes "(recordLogTruncation, be64 i) \<in> set rs" "i \<le> ws_SnapshotIndex st"
  shows "visitAll (applyRecord u) rs st \<noteq> Inr st'"
  using assms
proof (induction rs arbitrary: st)
  case (Cons r rs)
  show ?case
  proof (cases "r = (recordLogTruncation, be64 i)")
    case True
    then show ?thesis
      using Cons.prems(2) uint64_be64 [of i "[]"] by (simp add: applyRecord_def recoverTruncation_def Let_def)
  next
    case False
    show ?thesis
    proof (cases "applyRecord u (fst r) (snd r) st")
      case (Inr st1)
      then show ?thesis using Cons False applyRecord_snapshot [OF Inr] by simp
    qed simp
  qed
qed simp

lemma removeCovered_active:
  assumes "removeCovered n S (map segmentOf ss @ [(n, bs)]) = (segs, None)" "n \<notin> fst ` set ss"
  shows "\<exists>ss'. segs = map segmentOf ss' @ [(n, bs)] \<and> set ss' \<subseteq> set ss"
  using assms
proof (induction ss arbitrary: segs)
  case Nil
  then show ?case by (intro exI [of _ "[]"]) simp
next
  case (Cons s ss)
  obtain rest covered where r: "removeCovered n S (map segmentOf ss @ [(n, bs)]) = (rest, None)"
    "segs = (if covered then rest else segmentOf s # rest)"
    using Cons.prems by (auto simp: segmentOf_def [of s] Let_def split: sum.splits if_splits prod.splits)
  from Cons.IH [OF r(1)] Cons.prems(2) obtain ss' where "rest = map segmentOf ss' @ [(n, bs)]" "set ss' \<subseteq> set ss" by auto
  then have "segs = map segmentOf (if covered then ss' else s # ss') @ [(n, bs)]" using r(2) by simp
  moreover have "set (if covered then ss' else s # ss') \<subseteq> set (s # ss)" using \<open>set ss' \<subseteq> set ss\<close> by auto
  ultimately show ?case by blast
qed

lemma visitCheckpoint_last:
  assumes "visitAll (visitCheckpoint u) (rs @ [(recordCompactionCheckpoint, p)]) c = Inr ck" "u p = Some ck'"
  shows "ck = ck'"
  using assms
  by (auto simp: visitAll_append andThen_Inr visitCheckpoint_def split: if_splits)

text \<open>C32. Compaction after a truncation can make the log unreadable. If the active segment still holds a
  truncation record at or below the new Snapshot index, the checkpoint is written and reported as
  successful, but every later attempt to open the directory fails: recovery replays the old truncation
  against the newer Snapshot position and refuses it.\<close>

theorem compaction_after_truncation_blocks_restart:
  assumes "stores w (ss @ [(n, rs)])" and "(recordLogTruncation, be64 i) \<in> set rs" and "i \<le> S"
    and "Compact marshal S t w = (w', None)"
    and "marshal \<lparr>ck_Identity = w_identity w, ck_HardState = w_hardState w, ck_CommitIndex = w_commitIndex w,
           ck_SnapshotIndex = S, ck_SnapshotTerm = t\<rparr> = Some p"
    and "unmarshal p = Some \<lparr>ck_Identity = w_identity w, ck_HardState = w_hardState w,
           ck_CommitIndex = w_commitIndex w, ck_SnapshotIndex = S, ck_SnapshotTerm = t\<rparr>"
    and "w_offset w + int (frameHeaderSize + Suc (length p)) \<le> w_segmentSize w"
  shows "\<exists>e. wal_open unmarshal (w_segments w') identity segmentSize = Inl e"
proof -
  let ?ck = "(recordCompactionCheckpoint, p)"
  have n: "n = w_segment w" "n \<notin> fst ` set ss" using assms(1) by (auto simp: stores_def)
  obtain w1 where w1: "appendRecord recordCompactionCheckpoint p w = (w1, None)"
    using assms(4,5) by (auto simp: Compact_def installSnapshotCheckpoint_def split: if_splits prod.splits option.splits)
  have f: "fits ?ck" using fits_success [of recordCompactionCheckpoint p w] w1 by simp
  have w1': "w1 = (writeActive (recordBytes ?ck) w)\<lparr>w_offset := w_offset w + int (frameHeaderSize + Suc (length p))\<rparr>"
    using w1 appendRecord_fits [of p w recordCompactionCheckpoint] f assms(7) by (simp add: fits_def recordBytes_def)
  have segs1: "w_segments w1 = map segmentOf ss @ [(n, segmentBytes (rs @ [?ck]))]" "w_segment w1 = n"
    using assms(1) n by (force simp: w1' writeActive_def stores_def segmentOf_def segmentBytes_snoc)+
  have "removeCovered n S (w_segments w1) = (w_segments w', None)"
    using assms(4,5) w1 segs1(2)
    by (auto simp: Compact_def installSnapshotCheckpoint_def Let_def prod_eq_iff split_beta split: if_splits)
  then obtain ss' where ss': "w_segments w' = map segmentOf (ss' @ [(n, rs @ [?ck])])" "set ss' \<subseteq> set ss"
    unfolding segs1(1) using removeCovered_active n(2) by (force simp: segmentOf_def)
  let ?ss = "ss' @ [(n, rs @ [?ck])]"
  have fits: "\<forall>r\<in>set (recordsOf ?ss). fits r"
    using assms(1) ss'(2) f by (auto simp: stores_def recordsOf_def)
  have "recoverSegments unmarshal (w_segments w') \<noteq> Inr r" for r
  proof
    assume "recoverSegments unmarshal (w_segments w') = Inr r"
    then obtain ck st where ck: "visitAll (visitCheckpoint unmarshal) (recordsOf ?ss) zeroCheckpoint = Inr ck"
      and st: "visitAll (applyRecord unmarshal) (recordsOf ?ss) (checkpointState ck) = Inr st"
      using checkpointLoop_records [of ?ss "[]" unmarshal] recoverLoop_records [of ?ss "[]" unmarshal] fits ss'(1)
      by (auto simp: recoverSegments_def newestCompactionCheckpoint_def andThen_Inr withTail_Nil checkpointState_def)
    have "recordsOf ?ss = (recordsOf ss' @ rs) @ [?ck]" by (simp add: recordsOf_def)
    with ck visitCheckpoint_last [of unmarshal "recordsOf ss' @ rs" p zeroCheckpoint ck] assms(6)
    have "ws_SnapshotIndex (checkpointState ck) = S" by (simp add: checkpointState_def)
    moreover have "(recordLogTruncation, be64 i) \<in> set (recordsOf ?ss)" using assms(2) by (simp add: recordsOf_def)
    ultimately show False using truncation_below_snapshot_fails st assms(3) by metis
  qed
  then obtain e where "recoverSegments unmarshal (w_segments w') = Inl e"
    by (cases "recoverSegments unmarshal (w_segments w')") auto
  then show ?thesis using ss'(1) by (auto simp: wal_open_def Let_def)
qed

definition truncated_records :: "Record list" where
  "truncated_records =
     [(recordClusterIdentity, bytes_of ''c''), (recordNodeIdentity, bytes_of ''n1''),
      (recordLogEntryV3, encodeEntry (wal_entry 1 1)), (recordLogEntryV3, encodeEntry (wal_entry 2 1)),
      (recordLogTruncation, be64 2), (recordLogEntryV3, encodeEntry (wal_entry 2 2)), (recordCommitIndex, be64 2)]"

definition truncated_wal :: WAL where
  "truncated_wal = (freshHandle [(1, segmentBytes truncated_records)] sample_identity 4096)
     \<lparr>w_segment := 1, w_open := True, w_offset := int (length (segmentBytes truncated_records)),
      w_lastLogIndex := 2, w_commitIndex := 2\<rparr>"

definition one_checkpoint :: "compactionCheckpoint \<Rightarrow> byte list option" where
  "one_checkpoint ck = Some [1]"

definition read_checkpoint :: "byte list \<Rightarrow> compactionCheckpoint option" where
  "read_checkpoint p = Some \<lparr>ck_Identity = w_identity truncated_wal, ck_HardState = w_hardState truncated_wal,
     ck_CommitIndex = 2, ck_SnapshotIndex = 2, ck_SnapshotTerm = 2\<rparr>"

theorem compaction_after_truncation_blocks_restart_witness:
  "\<exists>w' e. Compact one_checkpoint 2 2 truncated_wal = (w', None) \<and>
     wal_open read_checkpoint (w_segments w') sample_identity 4096 = Inl e"
proof -
  have st: "stores truncated_wal ([] @ [(1, truncated_records)])"
    by (simp add: stores_def truncated_wal_def freshHandle_def segmentOf_def recordsOf_def truncated_records_def
      fits_def maxRecordSize_def)
  have len: "w_offset truncated_wal = 247"
    by (simp add: truncated_wal_def segmentBytes_def truncated_records_def length_recordBytes wal_sizes)
  have f: "w_open truncated_wal" "w_commitIndex truncated_wal = 2" "w_segmentSize truncated_wal = 4096" "w_segment truncated_wal = 1"
    "w_segments truncated_wal = [(1, segmentBytes truncated_records)]"
    by (simp_all add: truncated_wal_def freshHandle_def)
  have "\<exists>w'. Compact one_checkpoint 2 2 truncated_wal = (w', None)"
    by (simp add: Compact_def installSnapshotCheckpoint_def one_checkpoint_def f len appendRecord_fits wal_sizes
      writeActive_def Let_def)
  then obtain w' where c: "Compact one_checkpoint 2 2 truncated_wal = (w', None)" by blast
  have "(recordLogTruncation, be64 2) \<in> set truncated_records" by (simp add: truncated_records_def)
  from compaction_after_truncation_blocks_restart [OF st this _ c, of "[1]" read_checkpoint sample_identity 4096] c
  show ?thesis by (auto simp: one_checkpoint_def read_checkpoint_def f len wal_sizes)
qed

end
