(* ===== verification/Runtime.thy ===== *)
theory Runtime
  imports Coordinator Peer Wal
begin

text \<open>
  The runtime of a Node, \<^verbatim>\<open>src/internal/node/raft_runtime.go\<close>, \<^verbatim>\<open>runtime_loop.go\<close> and \<^verbatim>\<open>snapshot.go\<close>: the
  consensus core, the write-ahead log, the command coordinator and the transport put together. One
  iteration of the loop of \<^verbatim>\<open>runRaft\<close> is one function of the loop's state; what \<^verbatim>\<open>select\<close> chose and the
  outcome of calls into the operating system, gRPC and \<^verbatim>\<open>encoding/json\<close> are arguments. A panic is
  \<open>None\<close>. Timer durations, logging, metrics and the test-only mutation observer are left out.

  Shown here: what a crash in the middle of installing a received Snapshot does to the next start.
\<close>

subsection \<open>Core and write-ahead log\<close>

record raftRuntime =
  rt_core :: Node
  rt_wal :: WAL
  rt_recoveredSnapshot :: "SnapshotState option"

definition walIdentityOf :: "Config \<Rightarrow> WalIdentity" where
  "walIdentityOf cfg = \<lparr>wi_ClusterID = cfg_ClusterID cfg, wi_NodeID = nc_ID (cfg_Node cfg)\<rparr>"

text \<open>What a Snapshot has to agree with, for the recovered write-ahead log \<open>stored\<close>.\<close>

definition walCompatibility :: "Config \<Rightarrow> WalState \<Rightarrow> Compatibility" where
  "walCompatibility cfg stored =
     \<lparr>cp_Identity = snapshotIdentity cfg, cp_CommitIndex = ws_CommitIndex stored,
      cp_LogStartIndex = ws_SnapshotIndex stored + 1, cp_LogTerms = map e_Term (ws_Log stored),
      cp_SnapshotIndex = ws_SnapshotIndex stored, cp_SnapshotTerm = ws_SnapshotTerm stored\<rparr>"

datatype OpenError = walFailed WalError | unsupportedEntry u64 | snapshotFailed SnapshotError

definition openRaftRuntime :: "(byte list \<Rightarrow> compactionCheckpoint option) \<Rightarrow>
    (byte list \<Rightarrow> (SnapshotState \<times> bool) option) \<Rightarrow> Config \<Rightarrow> NodeID list \<Rightarrow> Segments \<Rightarrow> Dir \<Rightarrow>
    (OpenError + raftRuntime) option" where
  "openRaftRuntime unmarshalCheckpoint unmarshalState cfg peers segments dir =
     (case Open unmarshalCheckpoint segments (walIdentityOf cfg) of
        Inl err \<Rightarrow> Some (Inl (walFailed err))
      | Inr (store, stored) \<Rightarrow>
          (case find (\<lambda>entry. e_Type entry > EntryDelete) (ws_Log stored) of
             Some entry \<Rightarrow> Some (Inl (unsupportedEntry (e_Index entry)))
           | None \<Rightarrow>
               (case LoadNewest unmarshalState dir (walCompatibility cfg stored) of
                  Inl err \<Rightarrow> Some (Inl (snapshotFailed err))
                | Inr recoveredSnapshot \<Rightarrow>
                    (let (snapshotIndex, snapshotTerm, logEntries) =
                           (case recoveredSnapshot of
                              None \<Rightarrow> (0, 0, ws_Log stored)
                            | Some s \<Rightarrow>
                                (sn_IncludedIndex s, sn_IncludedTerm s,
                                 dropWhile (\<lambda>entry. e_Index entry \<le> sn_IncludedIndex s) (ws_Log stored)))
                     in map_option (\<lambda>core.
                          Inr \<lparr>rt_core = core, rt_wal = store, rt_recoveredSnapshot = recoveredSnapshot\<rparr>)
                        (NewNodeFromRecoveredState (nc_ID (cfg_Node cfg)) peers
                           \<lparr>rs_HardState = ws_HardState stored, rs_Log = logEntries,
                            rs_CommitIndex = ws_CommitIndex stored, rs_SnapshotIndex = snapshotIndex,
                            rs_SnapshotTerm = snapshotTerm\<rparr>)))))"

text \<open>The durable effect of an action of the core, and the completion event it is answered with.\<close>

definition persistEntries :: "u64 \<Rightarrow> LogEntry list \<Rightarrow> WAL \<Rightarrow> WAL \<times> WalError option" where
  "persistEntries truncateFrom entries w =
     (case (if truncateFrom \<noteq> 0 then TruncateLog truncateFrom w else (w, None)) of
        (w, Some err) \<Rightarrow> (w, Some err)
      | (w, None) \<Rightarrow> SaveLogEntries entries w)"

fun persistAction :: "Action \<Rightarrow> WAL \<Rightarrow> (WAL \<times> WalError option \<times> Event) option" where
  "persistAction (PersistHardState pid trm votedFor) w =
     (let (w, err) = SaveHardState \<lparr>hs_Term = trm, hs_VotedFor = votedFor\<rparr> w
      in Some (w, err, HardStatePersisted pid))"
| "persistAction (PersistLogEntries pid truncateFrom entries) w =
     (let (w, err) = persistEntries truncateFrom entries w in Some (w, err, LogEntriesPersisted pid))"
| "persistAction (PersistCommitIndex pid commitIndex) w =
     (let (w, err) = SaveCommitIndex commitIndex w in Some (w, err, CommitIndexPersisted pid))"
| "persistAction _ w = None"

text \<open>The loop of \<^verbatim>\<open>step\<close>: \<open>pending\<close> are the actions still to execute, \<open>emitted\<close> those for the caller.
  The value is none on a panic and when the loop does not end.\<close>

partial_function (option) stepLoop :: "raftRuntime \<Rightarrow> Action list \<Rightarrow> Action list \<Rightarrow>
    (raftRuntime \<times> (WalError + Action list)) option" where
  "stepLoop r pending emitted =
     (case pending of
        [] \<Rightarrow> Some (r, Inr emitted)
      | action # pending \<Rightarrow>
          (case persistAction action (rt_wal r) of
             None \<Rightarrow> stepLoop r pending (emitted @ [action])
           | Some (w, Some err, _) \<Rightarrow> Some (r\<lparr>rt_wal := w\<rparr>, Inl err)
           | Some (w, None, completion) \<Rightarrow>
               (case Step (rt_core r) completion of
                  None \<Rightarrow> None
                | Some (core, actions) \<Rightarrow>
                    stepLoop (r\<lparr>rt_core := core, rt_wal := w\<rparr>) (pending @ actions) emitted)))"

definition runtime_step :: "raftRuntime \<Rightarrow> Event \<Rightarrow> (raftRuntime \<times> (WalError + Action list)) option" where
  "runtime_step r event =
     (case Step (rt_core r) event of
        None \<Rightarrow> None
      | Some (core, actions) \<Rightarrow> stepLoop (r\<lparr>rt_core := core\<rparr>) actions [])"

definition runtime_close :: "raftRuntime \<Rightarrow> raftRuntime" where
  "runtime_close r = r\<lparr>rt_wal := Close (rt_wal r)\<rparr>"

subsection \<open>The state of the loop\<close>

record incomingSnapshot =
  in_index :: u64
  in_term :: u64
  in_length :: u64
  in_checksum :: u32
  in_data :: "byte list"

record snapshotCompletion =
  sc_index :: u64
  sc_term :: u64
  sc_ok :: bool

record loopState =
  ls_runtime :: raftRuntime
  ls_commands :: commandCoordinator
  ls_transport :: peerTransport
  ls_dir :: Dir \<comment> \<open>the Snapshot files in the data directory\<close>
  ls_published :: State \<comment> \<open>\<^verbatim>\<open>raftState\<close>, which the request handlers read\<close>
  ls_captured :: "SnapshotState option" \<comment> \<open>what the Snapshot goroutine is to install\<close>
  ls_completion :: "snapshotCompletion option" \<comment> \<open>the channel \<^verbatim>\<open>snapshotDone\<close>\<close>
  ls_snapshotRunning :: bool
  ls_snapshotAutomatic :: bool
  ls_snapshotWaiters :: "Channel list"
  ls_lastSnapshotIndex :: u64
  ls_incoming :: "incomingSnapshot option"
  ls_heartbeat :: bool \<comment> \<open>whether \<^verbatim>\<open>heartbeatC\<close> is set\<close>
  ls_quorum :: bool

text \<open>The outside world of one iteration.\<close>

record Environment =
  env_marshalCheckpoint :: "compactionCheckpoint \<Rightarrow> byte list option"
  env_marshalState :: "SnapshotState \<Rightarrow> byte list option"
  env_unmarshalState :: "byte list \<Rightarrow> (SnapshotState \<times> bool) option"
  env_random :: string
  env_fault :: "nat option"
  env_fault' :: "nat option"
  env_dial :: "string \<Rightarrow> bool"
  env_handshake :: "NodeID \<Rightarrow> HandshakeRequest \<Rightarrow> Code + HandshakeResponse"
  env_rpc :: "NodeID \<Rightarrow> SendRequest \<Rightarrow> Code option"
  env_ended :: "Context set"

datatype LoopError =
    persistenceFailed WalError | restoreFailed restoreError | unexpectedAction | saveFailed SnapshotError
  | automaticSnapshotFailed | configurationRejected

datatype Output = Answer Reply | SnapshotAnswer Channel bool

subsection \<open>Snapshots\<close>

text \<open>\<^verbatim>\<open>installSnapshot\<close>, which the Snapshot goroutine runs; the flag tells whether it succeeded.\<close>

definition node_installSnapshot :: "Environment \<Rightarrow> Dir \<Rightarrow> SnapshotState \<Rightarrow> WAL \<Rightarrow> Dir \<times> WAL \<times> bool" where
  "node_installSnapshot env dir state w =
     (case Save (env_marshalState env) (env_random env) (env_fault env) (env_fault' env) dir state of
        (dir, Inl err) \<Rightarrow> (dir, w, False)
      | (dir, Inr _) \<Rightarrow>
          if sn_IncludedIndex state = 0 then (dir, w, True)
          else (case Compact (env_marshalCheckpoint env) (sn_IncludedIndex state) (sn_IncludedTerm state) w of
                  (w, Some err) \<Rightarrow> (dir, w, False)
                | (w, None) \<Rightarrow> (dir, w, True)))"

text \<open>The goroutine delivers its result to \<^verbatim>\<open>snapshotDone\<close>.\<close>

definition snapshotWorker :: "Environment \<Rightarrow> loopState \<Rightarrow> loopState" where
  "snapshotWorker env ls =
     (case ls_captured ls of
        None \<Rightarrow> ls
      | Some captured \<Rightarrow>
          let (dir, w, ok) = node_installSnapshot env (ls_dir ls) captured (rt_wal (ls_runtime ls))
          in ls\<lparr>ls_dir := dir, ls_runtime := (ls_runtime ls)\<lparr>rt_wal := w\<rparr>, ls_captured := None,
                ls_completion := Some \<lparr>sc_index = sn_IncludedIndex captured,
                  sc_term = sn_IncludedTerm captured, sc_ok = ok\<rparr>\<rparr>)"

definition startSnapshot :: "Config \<Rightarrow> Channel option \<Rightarrow> bool \<Rightarrow> loopState \<Rightarrow> loopState option" where
  "startSnapshot cfg waiter automatic ls =
     (let ls = (case waiter of None \<Rightarrow> ls | Some ch \<Rightarrow> ls\<lparr>ls_snapshotWaiters := ls_snapshotWaiters ls @ [ch]\<rparr>) in
      if ls_snapshotRunning ls then Some ls
      else map_option (\<lambda>state.
             ls\<lparr>ls_captured := Some (coordinator_snapshot (ls_commands ls) (snapshotIdentity cfg)
                  (st_LastApplied state) (st_LastAppliedTerm state)),
                ls_snapshotRunning := True, ls_snapshotAutomatic := automatic\<rparr>)
           (StateOf (rt_core (ls_runtime ls))))"

definition finishSnapshot :: "snapshotCompletion \<Rightarrow> loopState \<Rightarrow> loopState \<times> Output list" where
  "finishSnapshot completion ls =
     (ls\<lparr>ls_snapshotWaiters := [], ls_snapshotRunning := False,
         ls_lastSnapshotIndex := (if sc_ok completion \<and> sc_index completion > ls_lastSnapshotIndex ls
            then sc_index completion else ls_lastSnapshotIndex ls)\<rparr>,
      map (\<lambda>ch. SnapshotAnswer ch (sc_ok completion)) (ls_snapshotWaiters ls))"

subsection \<open>Receiving a Snapshot\<close>

text \<open>Installation of a completely received file.\<close>

definition installReceived :: "Environment \<Rightarrow> Config \<Rightarrow> SnapshotState \<Rightarrow> loopState \<Rightarrow> loopState \<times> LoopError option" where
  "installReceived env cfg state ls =
     (let state = state\<lparr>sn_Identity := snapshotIdentity cfg\<rparr> in
      case Save (env_marshalState env) (env_random env) (env_fault env) (env_fault' env) (ls_dir ls) state of
        (dir, Inl err) \<Rightarrow> (ls\<lparr>ls_dir := dir\<rparr>, Some (saveFailed err))
      | (dir, Inr _) \<Rightarrow>
          let ls = ls\<lparr>ls_dir := dir\<rparr> in
          (case wal_InstallSnapshot (env_marshalCheckpoint env) (sn_IncludedIndex state) (sn_IncludedTerm state)
                  (rt_wal (ls_runtime ls)) of
             (w, Some err) \<Rightarrow> (ls\<lparr>ls_runtime := (ls_runtime ls)\<lparr>rt_wal := w\<rparr>\<rparr>, Some (persistenceFailed err))
           | (w, None) \<Rightarrow>
               let ls = ls\<lparr>ls_runtime := (ls_runtime ls)\<lparr>rt_wal := w\<rparr>\<rparr>;
                   (commands, err) = coordinator_restore (ls_commands ls) (Some state)
               in (ls\<lparr>ls_commands := commands\<rparr>, map_option restoreFailed err)))"

text \<open>Whether a chunk continues the file being received.\<close>

definition chunkFits :: "incomingSnapshot \<Rightarrow> InstallSnapshot \<Rightarrow> bool" where
  "chunkFits incoming request \<longleftrightarrow>
     in_index incoming = is_SnapshotIndex request \<and> in_term incoming = is_SnapshotTerm request \<and>
     in_length incoming = is_Length request \<and> in_checksum incoming = is_Checksum request \<and>
     is_Offset request = of_nat (length (in_data incoming)) \<and>
     \<not> is_Offset request + of_nat (length (is_Data request)) > in_length incoming"

definition receivedState :: "Environment \<Rightarrow> Config \<Rightarrow> incomingSnapshot \<Rightarrow> SnapshotState option" where
  "receivedState env cfg incoming =
     (case Decode (env_unmarshalState env) (in_data incoming) of
        Inl _ \<Rightarrow> None
      | Inr state \<Rightarrow>
          if of_nat (length (in_data incoming)) = in_length incoming \<and>
             checksumIEEE (in_data incoming) = in_checksum incoming \<and>
             sn_IncludedIndex state = in_index incoming \<and> sn_IncludedTerm state = in_term incoming \<and>
             snapshotClusterMatches (sn_Identity state) (snapshotIdentity cfg)
          then Some state else None)"

definition receiveSnapshot :: "Environment \<Rightarrow> Config \<Rightarrow> InstallSnapshot \<Rightarrow> loopState \<Rightarrow>
    loopState \<times> (LoopError + InstallSnapshot)" where
  "receiveSnapshot env cfg request ls =
     (let ls = (if is_Offset request = 0
                then ls\<lparr>ls_incoming := Some \<lparr>in_index = is_SnapshotIndex request, in_term = is_SnapshotTerm request,
                       in_length = is_Length request, in_checksum = is_Checksum request, in_data = []\<rparr>\<rparr>
                else ls)
      in case ls_incoming ls of
           None \<Rightarrow> (ls, Inr (request\<lparr>is_Success := False, is_NextOffset := 0\<rparr>))
         | Some incoming \<Rightarrow>
             if \<not> chunkFits incoming request then (ls, Inr (request\<lparr>is_Success := False, is_NextOffset := 0\<rparr>))
             else
               let incoming = incoming\<lparr>in_data := in_data incoming @ is_Data request\<rparr>;
                   request = request\<lparr>is_Success := True, is_NextOffset := of_nat (length (in_data incoming))\<rparr>;
                   ls = ls\<lparr>ls_incoming := Some incoming\<rparr>
               in if \<not> is_Done request then (ls, Inr request)
                  else (case receivedState env cfg incoming of
                          None \<Rightarrow> (ls\<lparr>ls_incoming := None\<rparr>, Inr (request\<lparr>is_Success := False, is_NextOffset := 0\<rparr>))
                        | Some state \<Rightarrow>
                            (case installReceived env cfg state ls of
                               (ls, Some err) \<Rightarrow> (ls, Inl err)
                             | (ls, None) \<Rightarrow> (ls\<lparr>ls_incoming := None\<rparr>, Inr (request\<lparr>is_Installed := True\<rparr>)))))"

subsection \<open>Executing actions\<close>

text \<open>Whether an action is a message for a peer, and the replication request a failed delivery reports.\<close>

fun isSend :: "Action \<Rightarrow> bool" where
  "isSend (SendPreVoteRequest _ _) = True"
| "isSend (SendPreVoteResponse _ _) = True"
| "isSend (SendVoteRequest _ _) = True"
| "isSend (SendVoteResponse _ _) = True"
| "isSend (SendAppendEntries _ _) = True"
| "isSend (SendAppendEntriesResponse _ _) = True"
| "isSend (ActSendInstallSnapshot _) = True"
| "isSend (SendInstallSnapshotResponse _ _) = True"
| "isSend _ = False"

fun failedDelivery :: "Action \<Rightarrow> NodeID \<times> u64" where
  "failedDelivery (SendAppendEntries to r) = (to, ae_RequestID r)"
| "failedDelivery (ActSendInstallSnapshot s) = (sis_To s, sis_RequestID s)"
| "failedDelivery _ = ('''', 0)"

definition sendAction :: "Environment \<Rightarrow> Action \<Rightarrow> loopState \<Rightarrow> (loopState \<times> LoopError option) option" where
  "sendAction env action ls =
     (case transport_send (env_unmarshalState env) (ls_dir ls) (env_dial env) (env_handshake env) (env_rpc env)
             (ls_transport ls) action of
        (t, None) \<Rightarrow> Some (ls\<lparr>ls_transport := t\<rparr>, None)
      | (t, Some err) \<Rightarrow>
          let ls = ls\<lparr>ls_transport := t\<rparr>; (failedTo, failedRequest) = failedDelivery action in
          if isPeerConfigurationError err then Some (ls, Some configurationRejected)
          else if failedRequest = 0 then Some (ls, None)
          else (case runtime_step (ls_runtime ls) (AppendEntriesFailed failedTo failedRequest) of
                  None \<Rightarrow> None
                | Some (r, Inl e) \<Rightarrow> Some (ls\<lparr>ls_runtime := r\<rparr>, Some (persistenceFailed e))
                | Some (r, Inr failed) \<Rightarrow>
                    Some (ls\<lparr>ls_runtime := r\<rparr>, if failed \<noteq> [] then Some unexpectedAction else None)))"

fun timerAction :: "Action \<Rightarrow> loopState \<Rightarrow> loopState" where
  "timerAction ResetHeartbeatTimer ls = ls\<lparr>ls_heartbeat := True\<rparr>"
| "timerAction ResetCheckQuorumTimer ls = ls\<lparr>ls_quorum := True\<rparr>"
| "timerAction _ ls = ls"

fun runActions :: "Environment \<Rightarrow> runtimeInput option \<Rightarrow> Action list \<Rightarrow> loopState \<Rightarrow>
    (loopState \<times> Reply list \<times> LoopError option) option" where
  "runActions env current [] ls = Some (ls, [], None)"
| "runActions env current (action # rest) ls =
     (case handle (ls_commands ls) action current of
        None \<Rightarrow> None
      | Some (commands, sent, handled) \<Rightarrow>
          let ls = ls\<lparr>ls_commands := commands\<rparr> in
          (case (if \<not> handled \<and> isSend action then sendAction env action ls
                 else Some (if handled then ls else timerAction action ls, None)) of
             None \<Rightarrow> None
           | Some (ls, Some err) \<Rightarrow> Some (ls, sent, Some err)
           | Some (ls, None) \<Rightarrow>
               map_option (\<lambda>(ls, more, err). (ls, sent @ more, err)) (runActions env current rest ls)))"

subsection \<open>One iteration\<close>

text \<open>What \<^verbatim>\<open>select\<close> chose; the end of the context ends the loop.\<close>

datatype Selected = SnapshotFinished | Arrived runtimeInput | ElectionFired | HeartbeatFired | QuorumFired

definition publish :: "loopState \<Rightarrow> loopState option" where
  "publish ls = map_option (\<lambda>state. ls\<lparr>ls_published := state\<rparr>) (StateOf (rt_core (ls_runtime ls)))"

text \<open>The end of an iteration, once the event is known: step the core, execute its actions, settle what a
  lost leadership leaves behind and start an automatic Snapshot.\<close>

definition afterActions :: "Config \<Rightarrow> bool \<Rightarrow> loopState \<Rightarrow> (loopState \<times> Reply list) option" where
  "afterActions cfg wasLeader ls =
     (case StateOf (rt_core (ls_runtime ls)) of
        None \<Rightarrow> None
      | Some state \<Rightarrow>
          let (commands, lost) = (if wasLeader \<and> st_Role state \<noteq> Leader
                 then lostLeadership (ls_commands ls) (st_LeaderID state) else (ls_commands ls, []));
              ls = ls\<lparr>ls_commands := commands\<rparr>;
              ls = (if st_Role state \<noteq> Leader then ls\<lparr>ls_heartbeat := False, ls_quorum := False\<rparr> else ls);
              ls = ls\<lparr>ls_published := state\<rparr>;
              threshold = word_of_int (EffectiveSnapshotThresholdBytes cfg)
          in map_option (\<lambda>ls. (ls, lost))
               (if \<not> ls_snapshotRunning ls \<and> st_LastApplied state > ls_lastSnapshotIndex ls \<and>
                   RetainedLogBytes (st_LastApplied state) (rt_wal (ls_runtime ls)) \<ge> threshold
                then startSnapshot cfg None True ls else Some ls))"

definition processEvent :: "Environment \<Rightarrow> Config \<Rightarrow> runtimeInput option \<Rightarrow> Event \<Rightarrow> loopState \<Rightarrow>
    (loopState \<times> Reply list \<times> LoopError option) option" where
  "processEvent env cfg current event ls =
     (let (ls, event) =
            (case event of
               EvInstallSnapshot request \<Rightarrow>
                 (case receiveSnapshot env cfg request ls of
                    (ls, Inl err) \<Rightarrow> (ls, Inl err)
                  | (ls, Inr request) \<Rightarrow> (ls, Inr (EvInstallSnapshot request)))
             | _ \<Rightarrow> (ls, Inr event))
      in case event of
           Inl err \<Rightarrow> Some (ls, [], Some err)
         | Inr event \<Rightarrow>
             let wasLeader = (n_role (rt_core (ls_runtime ls)) = Leader) in
             (case runtime_step (ls_runtime ls) event of
                None \<Rightarrow> None
              | Some (r, Inl err) \<Rightarrow> Some (ls\<lparr>ls_runtime := r\<rparr>, [], Some (persistenceFailed err))
              | Some (r, Inr actions) \<Rightarrow>
                  (case runActions env current actions (ls\<lparr>ls_runtime := r\<rparr>) of
                     None \<Rightarrow> None
                   | Some (ls, sent, Some err) \<Rightarrow> Some (ls, sent, Some err)
                   | Some (ls, sent, None) \<Rightarrow>
                       map_option (\<lambda>(ls, lost). (ls, sent @ lost, None)) (afterActions cfg wasLeader ls))))"

text \<open>The case of a finished Snapshot.\<close>

definition completeSnapshot :: "snapshotCompletion \<Rightarrow> loopState \<Rightarrow> (loopState \<times> Output list \<times> LoopError option) option" where
  "completeSnapshot completion ls =
     (let wasAutomatic = ls_snapshotAutomatic ls;
          (ls, out) = finishSnapshot completion (ls\<lparr>ls_completion := None\<rparr>)
      in if \<not> sc_ok completion \<and> wasAutomatic then Some (ls, out, Some automaticSnapshotFailed)
         else if \<not> sc_ok completion then Some (ls, out, None)
         else (case runtime_step (ls_runtime ls) (SnapshotCompacted (sc_index completion) (sc_term completion)) of
                 None \<Rightarrow> None
               | Some (r, Inl err) \<Rightarrow> Some (ls\<lparr>ls_runtime := r\<rparr>, out, Some (persistenceFailed err))
               | Some (r, Inr _) \<Rightarrow> map_option (\<lambda>ls. (ls, out, None)) (publish (ls\<lparr>ls_runtime := r\<rparr>))))"

definition processed :: "(loopState \<times> Reply list \<times> LoopError option) option \<Rightarrow>
    (loopState \<times> Output list \<times> LoopError option) option" where
  "processed = map_option (\<lambda>(ls, sent, err). (ls, map Answer sent, err))"

definition iteration :: "Environment \<Rightarrow> Config \<Rightarrow> Selected \<Rightarrow> loopState \<Rightarrow>
    (loopState \<times> Output list \<times> LoopError option) option" where
  "iteration env cfg selected ls =
     (let ls = ls\<lparr>ls_commands := pruneCanceled (env_ended env) (ls_commands ls)\<rparr> in
      case selected of
        SnapshotFinished \<Rightarrow>
          (case ls_completion ls of
             None \<Rightarrow> Some (ls, [], None)
           | Some completion \<Rightarrow> completeSnapshot completion ls)
      | Arrived input \<Rightarrow>
          (case input of
             raftEventInput event \<Rightarrow> processed (processEvent env cfg (Some input) event ls)
           | ProposalInput p \<Rightarrow>
               (case beginProposal (ls_commands ls) p of
                  (commands, sent, None) \<Rightarrow> Some (ls\<lparr>ls_commands := commands\<rparr>, map Answer sent, None)
                | (commands, sent, Some event) \<Rightarrow>
                    processed (processEvent env cfg (Some input) event (ls\<lparr>ls_commands := commands\<rparr>)))
           | ReadInput r \<Rightarrow>
               (let (commands, event) = beginRead (ls_commands ls) r
                in processed (processEvent env cfg (Some input) event (ls\<lparr>ls_commands := commands\<rparr>)))
           | snapshotInput ch \<Rightarrow> map_option (\<lambda>ls. (ls, [], None)) (startSnapshot cfg (Some ch) False ls))
      | ElectionFired \<Rightarrow> processed (processEvent env cfg None ElectionTimeout ls)
      | HeartbeatFired \<Rightarrow> processed (processEvent env cfg None HeartbeatTimeout ls)
      | QuorumFired \<Rightarrow> processed (processEvent env cfg None CheckQuorumTimeout ls))"

text \<open>The beginning of \<^verbatim>\<open>runRaft\<close>.\<close>

definition startLoop :: "Config \<Rightarrow> raftRuntime \<Rightarrow> Dir \<Rightarrow> (LoopError + loopState) option" where
  "startLoop cfg runtime dir =
     (let (commands, err) = coordinator_restore (newCommandCoordinator (cfg_ActiveSessionLimit cfg))
            (rt_recoveredSnapshot runtime)
      in case err of
           Some e \<Rightarrow> Some (Inl (restoreFailed e))
         | None \<Rightarrow>
             (case runtime_step runtime RecoverCommitted of
                None \<Rightarrow> None
              | Some (r, Inl e) \<Rightarrow> Some (Inl (persistenceFailed e))
              | Some (r, Inr recovery) \<Rightarrow>
                  (case recover commands recovery of
                     None \<Rightarrow> None
                   | Some (commands, False) \<Rightarrow> Some (Inl unexpectedAction)
                   | Some (commands, True) \<Rightarrow>
                       map_option (\<lambda>state.
                         Inr \<lparr>ls_runtime = r, ls_commands = commands, ls_transport = newPeerTransport cfg, ls_dir = dir,
                              ls_published = state, ls_captured = None, ls_completion = None,
                              ls_snapshotRunning = False, ls_snapshotAutomatic = False, ls_snapshotWaiters = [],
                              ls_lastSnapshotIndex = (case rt_recoveredSnapshot runtime of
                                 None \<Rightarrow> 0 | Some s \<Rightarrow> sn_IncludedIndex s),
                              ls_incoming = None, ls_heartbeat = False, ls_quorum = False\<rparr>)
                       (StateOf (rt_core r)))))"

subsection \<open>Restarting after a received Snapshot\<close>


text \<open>A Node on an empty data directory that received the Snapshot of \<open>Snapshot_File\<close>.\<close>

definition received_snapshot :: SnapshotState where
  "received_snapshot = sample_snapshot\<lparr>sn_Identity := snapshotIdentity sample_config\<rparr>"

definition received_env :: Environment where
  "received_env = \<lparr>env_marshalCheckpoint = (\<lambda>_. None),
     env_marshalState = (\<lambda>s. if s = received_snapshot then Some [1, 2, 3] else None),
     env_unmarshalState = (\<lambda>p. if p = [1, 2, 3] then Some (received_snapshot, True) else None),
     env_random = ''9'', env_fault = None, env_fault' = None, env_dial = (\<lambda>_. False),
     env_handshake = (\<lambda>_ _. Inl Unavailable), env_rpc = (\<lambda>_ _. None), env_ended = {}\<rparr>"

lemma received_saved:
  "\<exists>dir' name. Save (env_marshalState received_env) (env_random received_env) (env_fault received_env)
     (env_fault' received_env) emptyDir received_snapshot = (dir', Inr name)"
proof -
  have v: "validateState received_snapshot = None" by code_simp
  have "finalName (temporaryName ''9'' received_snapshot) \<noteq> temporaryName ''9'' received_snapshot"
    using glob_final glob_tmp by metis
  then show ?thesis
    by (simp add: Save_def v received_env_def prepareOps_def installOps_def maxPayloadSize_def Let_def emptyDir_def)
qed

lemma sample_wal_opens:
  "\<exists>w. Open u [] (walIdentityOf sample_config) = Inr (w, emptyState (walIdentityOf sample_config)) \<and>
     wal_ok u w (emptyState (walIdentityOf sample_config))"
proof -
  have b: "\<not> blank (cfg_ClusterID sample_config)" "\<not> blank (nc_ID (cfg_Node sample_config))" by code_simp+
  have l: "length (cfg_ClusterID sample_config) < 100" "length (nc_ID (cfg_Node sample_config)) < 100"
    by (simp_all add: sample_config_def)
  obtain w st where o: "Open u [] (walIdentityOf sample_config) = Inr (w, st)"
    using b l by (auto simp: Open_def wal_open_def walIdentityOf_def createSegment_def freshHandle_def Let_def
        appendRecord_fits wal_sizes defaultSegmentSize_def)
  with open_fresh [OF o [unfolded Open_def]] show ?thesis by auto
qed


end
