(* ===== verification/Durability.thy ===== *)
theory Durability
  imports Runtime Raft_Properties
begin

text \<open>
  The synchronous persistence step of the runtime and the consensus core together: what the core believes
  durable is what the write-ahead log holds, every write the core asks for succeeds, and the loop of
  \<^verbatim>\<open>raftRuntime.step\<close> ends. The core asks for at most three writes per event, in the order hard state, log
  entries, commit index; \<open>owes\<close> says which of them are outstanding, and its first argument is the
  measure under which the loop ends. Snapshots are not part of this theory: their interplay with the
  write-ahead log is the subject of the properties on compaction.
\<close>

subsection \<open>What persistence depends on\<close>

fun persists :: "Action \<Rightarrow> bool" where
  "persists (PersistHardState _ _ _) = True"
| "persists (PersistLogEntries _ _ _) = True"
| "persists (PersistCommitIndex _ _) = True"
| "persists _ = False"

lemma persistAction_None: "\<not> persists a \<Longrightarrow> persistAction a w = None"
  by (cases a) simp_all

text \<open>The hard state and the log with the writes that are on their way.\<close>

definition hview where
  "hview n = (n_id n, n_term n, n_votedFor n, n_durableTerm n, n_durableVotedFor n, n_pendingHardState n)"

definition dview where
  "dview n = (n_pendingLog n, n_pendingCommit n, n_log n, n_logBaseIndex n, n_commitIndex n, n_durableCommitIndex n)"

lemma hview_frame [simp, frame]:
  "hview (n_peers_update f1 n) = hview n"
  "hview (n_role_update f2 n) = hview n"
  "hview (n_leaderID_update f3 n) = hview n"
  "hview (n_lastLogIndex_update f4 n) = hview n"
  "hview (n_lastLogTerm_update f5 n) = hview n"
  "hview (n_durableLogIndex_update f6 n) = hview n"
  "hview (n_logBaseIndex_update f7 n) = hview n"
  "hview (n_logBaseTerm_update f8 n) = hview n"
  "hview (n_log_update f9 n) = hview n"
  "hview (n_commitIndex_update f10 n) = hview n"
  "hview (n_lastApplied_update f11 n) = hview n"
  "hview (n_readReady_update f12 n) = hview n"
  "hview (n_votes_update f13 n) = hview n"
  "hview (n_preVotes_update f14 n) = hview n"
  "hview (n_activePeers_update f15 n) = hview n"
  "hview (n_matchIndex_update f16 n) = hview n"
  "hview (n_nextIndex_update f17 n) = hview n"
  "hview (n_appendInFlight_update f18 n) = hview n"
  "hview (n_snapshotInFlight_update f19 n) = hview n"
  "hview (n_nextRequestID_update f20 n) = hview n"
  "hview (n_pendingReads_update f21 n) = hview n"
  "hview (n_recentLeaderContact_update f22 n) = hview n"
  "hview (n_nextHardStatePersistence_update f23 n) = hview n"
  "hview (n_nextLogPersistence_update f24 n) = hview n"
  "hview (n_pendingLog_update f25 n) = hview n"
  "hview (n_durableCommitIndex_update f26 n) = hview n"
  "hview (n_nextCommitPersistence_update f27 n) = hview n"
  "hview (n_pendingCommit_update f28 n) = hview n"
  by (simp_all add: hview_def)

lemma dview_frame [simp, frame]:
  "dview (n_id_update g1 n) = dview n"
  "dview (n_peers_update f1 n) = dview n"
  "dview (n_role_update f2 n) = dview n"
  "dview (n_term_update g2 n) = dview n"
  "dview (n_votedFor_update g3 n) = dview n"
  "dview (n_leaderID_update f3 n) = dview n"
  "dview (n_lastLogIndex_update f4 n) = dview n"
  "dview (n_lastLogTerm_update f5 n) = dview n"
  "dview (n_durableLogIndex_update f6 n) = dview n"
  "dview (n_logBaseTerm_update f8 n) = dview n"
  "dview (n_lastApplied_update f11 n) = dview n"
  "dview (n_readReady_update f12 n) = dview n"
  "dview (n_votes_update f13 n) = dview n"
  "dview (n_preVotes_update f14 n) = dview n"
  "dview (n_activePeers_update f15 n) = dview n"
  "dview (n_matchIndex_update f16 n) = dview n"
  "dview (n_nextIndex_update f17 n) = dview n"
  "dview (n_appendInFlight_update f18 n) = dview n"
  "dview (n_snapshotInFlight_update f19 n) = dview n"
  "dview (n_nextRequestID_update f20 n) = dview n"
  "dview (n_pendingReads_update f21 n) = dview n"
  "dview (n_recentLeaderContact_update f22 n) = dview n"
  "dview (n_durableTerm_update g4 n) = dview n"
  "dview (n_durableVotedFor_update g5 n) = dview n"
  "dview (n_nextHardStatePersistence_update f23 n) = dview n"
  "dview (n_pendingHardState_update g6 n) = dview n"
  "dview (n_nextLogPersistence_update f24 n) = dview n"
  "dview (n_nextCommitPersistence_update f27 n) = dview n"
  by (simp_all add: dview_def)

text \<open>A step that owes nothing to the disk.\<close>

definition idle :: "Node \<Rightarrow> Node \<Rightarrow> Action list \<Rightarrow> bool" where
  "idle n n' as \<longleftrightarrow> hview n' = hview n \<and> dview n' = dview n \<and> (\<forall>a\<in>set as. \<not> persists a)"

lemma idle_refl [simp]: "idle n n []"
  by (simp add: idle_def)

lemma idle_trans: "idle n n1 as1 \<Longrightarrow> idle n1 n2 as2 \<Longrightarrow> idle n n2 (as1 @ as2)"
  by (auto simp: idle_def)

lemma idle_start: "idle n1 n2 as \<Longrightarrow> hview n1 = hview n \<Longrightarrow> dview n1 = dview n \<Longrightarrow> idle n n2 as"
  by (simp add: idle_def)

lemma completeReads_loop_idle: "completeReads_loop ids n = Some (n', as) \<Longrightarrow> idle n n' as"
proof (induction ids n arbitrary: n' as rule: completeReads_loop.induct)
  case (2 readID rest n)
  then obtain read where read: "map_of (n_pendingReads n) readID = Some read"
    by (auto split: option.splits)
  show ?case
  proof (cases "\<not> pr_confirmed read \<or> n_lastApplied n < pr_commitIndex read")
    case True
    with 2 read show ?thesis by simp
  next
    case False
    with "2.prems" read obtain as1 where
      "completeReads_loop rest (n\<lparr>n_pendingReads := AList.delete readID (n_pendingReads n)\<rparr>) = Some (n', as1)"
      "as = ReadConfirmed readID (pr_commitIndex read) # as1"
      by (auto simp: Option.bind_eq_Some_conv)
    with "2.IH"(2) [OF read False] show ?thesis by (auto simp: idle_def)
  qed
qed simp

lemma completeReads_idle: "completeReads n = Some (n', as) \<Longrightarrow> idle n n' as"
  unfolding completeReads_def by (rule completeReads_loop_idle)

lemma acknowledgeRead_idle: "acknowledgeRead n r = Some (n', as) \<Longrightarrow> idle n n' as"
  by (auto simp: acknowledgeRead_def Let_def split: option.splits if_splits dest!: completeReads_idle)
     (auto simp: idle_def)

lemma applyLoop_idle: "applyLoop index n = Some (n', as) \<Longrightarrow> idle n n' as"
proof (induction index n arbitrary: n' as rule: applyLoop.induct)
  case (1 index n)
  show ?case
  proof (cases "n_lastApplied n < index")
    case False
    with "1.prems" show ?thesis by (simp add: applyLoop.simps [of index n])
  next
    case True
    with "1.prems" obtain entry ready as1 where
      entry: "go_index (n_log n) (n_lastApplied n + 1 - n_logBaseIndex n - 1) = Some entry" and
      ready: "ready = (n_role n = Leader \<and> \<not> n_readReady n \<and> e_Type entry = EntryNoOp \<and>
                           e_Term entry = n_term n)" and
      rec: "applyLoop index (n\<lparr>n_lastApplied := n_lastApplied n + 1,
              n_readReady := n_readReady n \<or> ready\<rparr>) = Some (n', as1)" and
      as: "as = ApplyEntry entry # (if ready then [BecameReadReady (n_term n)] else []) @ as1"
      by (auto simp: applyLoop.simps [of index n] Option.bind_eq_Some_conv Let_def)
    from "1.IH" [OF True entry ready rec] as show ?thesis by (auto simp: idle_def)
  qed
qed

lemma applyThrough_idle: "applyThrough n i = Some (n', as) \<Longrightarrow> idle n n' as"
  by (auto simp: applyThrough_def Option.bind_eq_Some_conv split: if_splits
      dest!: applyLoop_idle completeReads_idle intro: idle_trans)

lemma sendAppendEntriesTo_idle: "sendAppendEntriesTo n peer r = Some (n', as) \<Longrightarrow> idle n n' as"
  by (auto simp: sendAppendEntriesTo_def Let_def Option.bind_eq_Some_conv idle_def split: if_splits)

lemma for_each_idle:
  assumes "for_each f ps n = Some (n', as)" and "\<And>p m m' bs. f p m = Some (m', bs) \<Longrightarrow> idle m m' bs"
  shows "idle n n' as"
  using assms(1)
proof (induction ps arbitrary: n as)
  case (Cons p ps)
  then obtain n1 as1 as2 where s: "f p n = Some (n1, as1)" "for_each f ps n1 = Some (n', as2)" "as = as1 @ as2"
    by (auto simp: Option.bind_eq_Some_conv)
  show ?case unfolding s(3) by (rule idle_trans [OF assms(2) [OF s(1)] Cons.IH [OF s(2)]])
qed simp

lemma sendAppendEntries_idle: "sendAppendEntries n r = Some (n', as) \<Longrightarrow> idle n n' as"
  unfolding sendAppendEntries_def by (erule for_each_idle) (rule sendAppendEntriesTo_idle)

subsection \<open>Writes that succeed\<close>

lemma appendRecord_succeeds:
  assumes "wal_ok u w st" "fits (k, p)" "w_segment w \<noteq> - 1"
  shows "\<exists>w'. appendRecord k p w = (w', None)"
proof -
  obtain ss where "stores w ss" using assms(1) by (auto simp: wal_ok_def holds_def)
  from appendRecord_stores [OF this assms(2,3)] show ?thesis by blast
qed

lemma wal_ok_open: "wal_ok u w st \<Longrightarrow> w_open w"
  by (auto simp: wal_ok_def holds_def stores_def)

lemma segment_room: "unat (w_segment w) + k < 2 ^ 64 \<Longrightarrow> 0 < k \<Longrightarrow> w_segment w \<noteq> - 1"
  by (auto simp: unat_max_u64)

lemma SaveHardState_succeeds:
  assumes ok: "wal_ok u w st" and fit: "length (hs_VotedFor h) + 9 \<le> maxRecordSize"
    and room: "unat (w_segment w) + 1 < 2 ^ 64"
  shows "\<exists>w'. SaveHardState h w = (w', None)"
proof -
  have "fits (recordHardState, be64 (hs_Term h) @ bytes_of (hs_VotedFor h))"
    using fit by (simp add: fits_def)
  from appendRecord_succeeds [OF ok this segment_room [OF room]] show ?thesis
    using wal_ok_open [OF ok] by (auto simp: SaveHardState_def)
qed

lemma SaveCommitIndex_succeeds:
  assumes ok: "wal_ok u w st" and i: "ws_CommitIndex st \<le> i" "i \<le> walLastIndex st"
    and room: "unat (w_segment w) + 1 < 2 ^ 64"
  shows "\<exists>w'. SaveCommitIndex i w = (w', None)"
proof -
  have "fits (recordCommitIndex, be64 i)" by (simp add: fits_def maxRecordSize_def)
  from appendRecord_succeeds [OF ok this segment_room [OF room]] show ?thesis
    using wal_ok_open [OF ok] ok i by (auto simp: SaveCommitIndex_def wal_ok_def not_less)
qed

lemma TruncateLog_succeeds:
  assumes ok: "wal_ok u w st" and i: "ws_CommitIndex st < i" "i \<le> walLastIndex st"
    and room: "unat (w_segment w) + 1 < 2 ^ 64"
  shows "\<exists>w'. TruncateLog i w = (w', None)"
proof -
  have "fits (recordLogTruncation, be64 i)" by (simp add: fits_def maxRecordSize_def)
  from appendRecord_succeeds [OF ok this segment_room [OF room]] obtain w' where
    a: "appendRecord recordLogTruncation (be64 i) w = (w', None)" by auto
  have "unat (walLastIndex st) < 2 ^ 64 - 1"
    using ok unat_walLastIndex [of st] by (auto simp: wal_ok_def)
  then have "walLastIndex st \<noteq> - 1" by (auto simp: unat_max_u64)
  then have "walLastIndex st < walLastIndex st + 1" by (rule word_less_add_one)
  then have "\<not> i > w_lastLogIndex w + 1" "i \<noteq> 0" "\<not> i \<le> w_commitIndex w"
    using i ok by (auto simp: wal_ok_def)
  with a wal_ok_open [OF ok] show ?thesis by (simp add: TruncateLog_def)
qed

lemma appendEntryRecords_succeeds:
  assumes "stores w ss" "\<forall>e\<in>set es. entry_fits e" "unat (w_segment w) + length es < 2 ^ 64"
  shows "\<exists>w'. appendEntryRecords es w = (w', None)"
  using assms
proof (induction es arbitrary: w ss)
  case (Cons e es)
  have f: "fits (recordLogEntryV3, encodeEntry e)" using Cons.prems(2) by (simp add: entry_fits_record)
  have "w_segment w \<noteq> - 1" using Cons.prems(3) by (auto simp: unat_max_u64)
  from appendRecord_stores [OF Cons.prems(1) f this] obtain w1 ss1 where w1:
    "appendRecord recordLogEntryV3 (encodeEntry e) w = (w1, None)" "stores w1 ss1"
    "unat (w_segment w1) \<le> Suc (unat (w_segment w))" by blast
  let ?w = "w1\<lparr>w_entryBytes := AList.update (e_Index e)
      (of_nat frameHeaderSize + 1 + of_nat (length (encodeEntry e))) (w_entryBytes w1)\<rparr>"
  have "stores ?w ss1" using w1(2) by (simp add: stores_def)
  from Cons.IH [OF this] Cons.prems(2,3) w1(1,3) show ?case by simp
qed simp

lemma indicesFollow_consecutive: "indicesFollow i es \<longleftrightarrow> consecutive (i + 1) es"
  by (induction es arbitrary: i) (simp_all add: consecutive_Cons)

lemma SaveLogEntries_succeeds:
  assumes ok: "wal_ok u w st" and es: "es \<noteq> []" "consecutive (walLastIndex st + 1) es" "\<forall>e\<in>set es. entry_fits e"
    and room: "unat (w_segment w) + length es < 2 ^ 64"
  shows "\<exists>w'. SaveLogEntries es w = (w', None)"
proof -
  obtain ss where "stores w ss" using ok by (auto simp: wal_ok_def holds_def)
  from appendEntryRecords_succeeds [OF this es(3) room] obtain w' where "appendEntryRecords es w = (w', None)" by blast
  with es(1,2) ok wal_ok_open [OF ok] show ?thesis
    by (simp add: SaveLogEntries_def indicesFollow_consecutive wal_ok_def)
qed

subsection \<open>Outstanding writes\<close>

text \<open>The writes of the log and the commit index that \<open>n\<close> still owes to a write-ahead log that holds \<open>st\<close>,
  when \<open>as\<close> are the actions still to execute. The number bounds the records these writes append.\<close>

text \<open>An entry the write-ahead log can store and a restart accepts.\<close>

definition storable :: "LogEntry \<Rightarrow> bool" where
  "storable e \<longleftrightarrow> entry_fits e \<and> e_Type e \<le> EntryDelete"

inductive logOwes :: "nat \<Rightarrow> Node \<Rightarrow> Action list \<Rightarrow> WalState \<Rightarrow> bool" where
  nothing:
  "\<lbrakk>n_pendingLog n = Map.empty; n_pendingCommit n = Map.empty; ws_SnapshotIndex st = n_logBaseIndex n;
    ws_CommitIndex st = n_durableCommitIndex n; n_commitIndex n = n_durableCommitIndex n; ws_Log st = n_log n;
    \<forall>a\<in>set as. \<not> persists a\<rbrakk> \<Longrightarrow> logOwes 0 n as st"
| commit:
  "\<lbrakk>n_pendingLog n = Map.empty; n_pendingCommit n = [pid \<mapsto> p]; pc_commitIndex p = n_commitIndex n;
    \<forall>a\<in>set (pc_after p). \<not> persists a; ws_SnapshotIndex st = n_logBaseIndex n;
    ws_CommitIndex st = n_durableCommitIndex n; ws_Log st = n_log n; \<forall>a\<in>set (xs @ ys). \<not> persists a;
    as = xs @ PersistCommitIndex pid (n_commitIndex n) # ys; b = 1\<rbrakk> \<Longrightarrow> logOwes b n as st"
| entries:
  "\<lbrakk>n_pendingLog n = [pid \<mapsto> p]; n_pendingCommit n = Map.empty; ws_SnapshotIndex st = n_logBaseIndex n;
    ws_CommitIndex st = n_durableCommitIndex n; n_commitIndex n = n_durableCommitIndex n;
    es \<noteq> []; \<forall>e\<in>set es. storable e; k \<le> length (ws_Log st); n_log n = take k (ws_Log st) @ es;
    (if tf = 0 then k = length (ws_Log st)
     else n_commitIndex n < tf \<and> unat tf = unat (n_logBaseIndex n) + k + 1 \<and> k < length (ws_Log st));
    \<forall>a\<in>set (xs @ ys). \<not> persists a; as = xs @ PersistLogEntries pid tf es # ys; b = length es + 2\<rbrakk>
   \<Longrightarrow> logOwes b n as st"

text \<open>With the hard state: everything else the core wants to do waits behind it.\<close>

definition hard_durable :: "Node \<Rightarrow> WalState \<Rightarrow> bool" where
  "hard_durable n st \<longleftrightarrow> ws_HardState st = \<lparr>hs_Term = n_durableTerm n, hs_VotedFor = n_durableVotedFor n\<rparr>"

definition hard_current :: "Node \<Rightarrow> bool" where
  "hard_current n \<longleftrightarrow> n_durableTerm n = n_term n \<and> n_durableVotedFor n = n_votedFor n \<and> n_pendingHardState n = Map.empty"

definition current :: "Node \<Rightarrow> HardState" where
  "current n = \<lparr>hs_Term = n_term n, hs_VotedFor = n_votedFor n\<rparr>"

inductive owes :: "nat \<Rightarrow> Node \<Rightarrow> Action list \<Rightarrow> WalState \<Rightarrow> bool" where
  log: "\<lbrakk>hard_current n; hard_durable n st; logOwes b n as st\<rbrakk> \<Longrightarrow> owes b n as st"
| hard:
  "\<lbrakk>n_pendingHardState n = [pid \<mapsto> \<lparr>ph_term = n_term n, ph_votedFor = n_votedFor n, ph_after = after\<rparr>];
    hard_durable n st; op_wf (SaveHard (current n)) st; length (n_votedFor n) + 9 \<le> maxRecordSize;
    logOwes b n after st; \<forall>a\<in>set (xs @ ys). \<not> persists a;
    as = xs @ PersistHardState pid (n_term n) (n_votedFor n) # ys\<rbrakk> \<Longrightarrow> owes (Suc b) n as st"

lemma logOwes_cong:
  assumes "logOwes b n as st" "dview n' = dview n" "ws_SnapshotIndex st' = ws_SnapshotIndex st"
    "ws_CommitIndex st' = ws_CommitIndex st" "ws_Log st' = ws_Log st"
  shows "logOwes b n' as st'"
  using assms(1)
proof cases
  case nothing
  with assms show ?thesis by (auto simp: dview_def intro!: logOwes.nothing)
next
  case (commit pid p xs ys)
  with assms show ?thesis
    by (intro logOwes.commit [where pid = pid and p = p and xs = xs and ys = ys]) (auto simp: dview_def)
next
  case (entries pid p es k tf xs ys)
  with assms show ?thesis
    by (intro logOwes.entries [where pid = pid and p = p and k = k and tf = tf and xs = xs and ys = ys and es = es])
       (auto simp: dview_def)
qed

lemma logOwes_hard [simp]: "logOwes b n as (st\<lparr>ws_HardState := h\<rparr>) = logOwes b n as st"
  by (rule iffI; erule logOwes_cong) simp_all

lemma logOwes_around:
  assumes "logOwes b n as st" "\<forall>a\<in>set (ps @ qs). \<not> persists a"
  shows "logOwes b n (ps @ as @ qs) st"
  using assms(1)
proof cases
  case nothing
  with assms(2) show ?thesis by (auto intro!: logOwes.nothing)
next
  case (commit pid p xs ys)
  with assms(2) show ?thesis by (intro logOwes.commit [where xs = "ps @ xs" and ys = "ys @ qs"]) auto
next
  case (entries pid p es k tf xs ys)
  with assms(2) show ?thesis
    by (intro logOwes.entries [where pid = pid and p = p and es = es and tf = tf and xs = "ps @ xs" and ys = "ys @ qs" and k = k]) auto
qed

lemma logOwes_emit:
  assumes "logOwes b n (a # as) st" "\<not> persists a"
  shows "logOwes b n as st"
  using assms(1)
proof cases
  case nothing
  then show ?thesis by (auto intro!: logOwes.nothing)
next
  case (commit pid p xs ys)
  with assms(2) obtain xs' where "xs = a # xs'" by (cases xs) auto
  with commit show ?thesis by (intro logOwes.commit [where xs = xs' and ys = ys]) auto
next
  case (entries pid p es k tf xs ys)
  with assms(2) obtain xs' where "xs = a # xs'" by (cases xs) auto
  with entries show ?thesis by (intro logOwes.entries [where pid = pid and p = p and es = es and tf = tf and xs = xs' and ys = ys and k = k]) auto
qed

lemma owes_emit:
  assumes "owes b n (a # as) st" "\<not> persists a"
  shows "owes b n as st"
  using assms(1)
proof cases
  case log
  then show ?thesis using logOwes_emit assms(2) by (blast intro: owes.log)
next
  case (hard pid after b' xs ys)
  with assms(2) obtain xs' where "xs = a # xs'" by (cases xs) auto
  with hard show ?thesis by (auto intro!: owes.hard [where xs = xs' and ys = ys])
qed

lemma owes_Nil: "owes b n [] st \<Longrightarrow> b = 0 \<and> hard_current n \<and> hard_durable n st \<and> logOwes 0 n [] st"
  by (auto elim!: owes.cases elim: logOwes.cases)

subsection \<open>Creating writes\<close>

lemma idle_logOwes: "logOwes 0 n [] st \<Longrightarrow> idle n n' as \<Longrightarrow> logOwes 0 n' as st"
  using logOwes_cong [of 0 n "[]" st n' st] logOwes_around [of 0 n' "[]" st as "[]"] by (auto simp: idle_def)

lemma idle_owes: "owes 0 n [] st \<Longrightarrow> idle n n' as \<Longrightarrow> owes 0 n' as st"
  using owes_Nil [of 0 n st] idle_logOwes [of n st n' as]
  by (auto intro!: owes.log simp: idle_def hview_def hard_current_def hard_durable_def)

lemma persistCommit_owes:
  assumes "logOwes 0 n [] st" "dview m = dview n" "persistCommit (m\<lparr>n_commitIndex := c\<rparr>) after = (n', as)"
    "\<forall>a\<in>set after. \<not> persists a"
  shows "logOwes 1 n' as st" "hview n' = hview m"
proof -
  from assms(1) have f: "n_pendingLog n = Map.empty" "n_pendingCommit n = Map.empty"
    "ws_SnapshotIndex st = n_logBaseIndex n" "ws_CommitIndex st = n_durableCommitIndex n" "ws_Log st = n_log n"
    by (auto elim: logOwes.cases)
  show "logOwes 1 n' as st"
    using assms f
    by (intro logOwes.commit [where pid = "n_nextCommitPersistence m + 1" and xs = "[]" and ys = "[]"
          and p = "\<lparr>pc_commitIndex = c, pc_after = after\<rparr>"])
       (auto simp: persistCommit_def Let_def dview_def)
  show "hview n' = hview m" using assms(3) by (auto simp: persistCommit_def Let_def)
qed

lemma persistLog_owes:
  assumes "logOwes 0 n [] st" "n_pendingLog m = n_pendingLog n" "n_pendingCommit m = n_pendingCommit n"
    "n_logBaseIndex m = n_logBaseIndex n" "n_commitIndex m = n_commitIndex n"
    "n_durableCommitIndex m = n_durableCommitIndex n" "n_log m = take k (n_log n) @ es" "k \<le> length (n_log n)"
    "es \<noteq> []" "\<forall>e\<in>set es. storable e"
    "if pl_truncateFrom p = 0 then k = length (n_log n)
     else n_commitIndex n < pl_truncateFrom p \<and> unat (pl_truncateFrom p) = unat (n_logBaseIndex n) + k + 1 \<and> k < length (n_log n)"
    "persistLog m es p = (n', as)"
  shows "logOwes (length es + 2) n' as st" "hview n' = hview m"
proof -
  from assms(1) have f: "n_pendingLog n = Map.empty" "n_pendingCommit n = Map.empty"
    "ws_SnapshotIndex st = n_logBaseIndex n" "ws_CommitIndex st = n_durableCommitIndex n" "ws_Log st = n_log n"
    "n_commitIndex n = n_durableCommitIndex n"
    by (auto elim: logOwes.cases)
  show "logOwes (length es + 2) n' as st"
    using assms f
    by (intro logOwes.entries [where pid = "n_nextLogPersistence m + 1" and xs = "[]" and ys = "[]" and p = p
          and tf = "pl_truncateFrom p" and es = es and k = k])
       (auto simp: persistLog_def Let_def split: if_splits)
  show "hview n' = hview m" using assms(12) by (auto simp: persistLog_def Let_def)
qed

subsection \<open>Paying a write\<close>

text \<open>What no write of the core changes; entries stay of the known kinds.\<close>

definition stays :: "WalState \<Rightarrow> WalState \<Rightarrow> bool" where
  "stays st st' \<longleftrightarrow> ws_Identity st' = ws_Identity st \<and> ws_SnapshotIndex st' = ws_SnapshotIndex st \<and>
     ws_SnapshotTerm st' = ws_SnapshotTerm st \<and>
     ((\<forall>e\<in>set (ws_Log st). e_Type e \<le> EntryDelete) \<longrightarrow> (\<forall>e\<in>set (ws_Log st'). e_Type e \<le> EntryDelete))"

lemma stays_refl [simp]: "stays st st"
  by (simp add: stays_def)

lemma stays_trans: "stays st st1 \<Longrightarrow> stays st1 st2 \<Longrightarrow> stays st st2"
  unfolding stays_def by metis

lemma take_owed_log:
  assumes "wf_node n" "n_log n = take k (ws_Log st) @ es" "k \<le> length (ws_Log st)" "ws_SnapshotIndex st = n_logBaseIndex n"
    "ws_Log st1 = take k (ws_Log st)" "ws_SnapshotIndex st1 = ws_SnapshotIndex st"
  shows "consecutive (walLastIndex st1 + 1) es"
    "unat (ws_SnapshotIndex st1) + length (ws_Log st1) + length es < 2 ^ 64 - 1"
proof -
  have ok: "log_ok n" using assms(1) by (simp add: wf_node_def)
  then have "consecutive (n_logBaseIndex n + 1) (take k (ws_Log st) @ es)"
    using assms(2) by (simp add: log_ok_def)
  then show "consecutive (walLastIndex st1 + 1) es"
    using assms(3-6) by (simp add: consecutive_append walLastIndex_def ac_simps)
  show "unat (ws_SnapshotIndex st1) + length (ws_Log st1) + length es < 2 ^ 64 - 1"
    using log_ok_bound [OF ok] assms(2-6) by simp
qed

lemma truncation_paid:
  assumes ok: "wal_ok u w st" and wf: "wf_node n" and base: "ws_SnapshotIndex st = n_logBaseIndex n"
    and c: "ws_CommitIndex st = n_commitIndex n"
    and tf: "if tf = 0 then k = length (ws_Log st)
       else n_commitIndex n < tf \<and> unat tf = unat (n_logBaseIndex n) + k + 1 \<and> k < length (ws_Log st)"
    and room: "unat (w_segment w) + 1 < 2 ^ 64"
  shows "\<exists>w1. (if tf \<noteq> 0 then TruncateLog tf w else (w, None)) = (w1, None) \<and>
    wal_ok u w1 (st\<lparr>ws_Log := take k (ws_Log st)\<rparr>) \<and> unat (w_segment w1) \<le> unat (w_segment w) + 1"
proof (cases "tf = 0")
  case True
  with ok tf show ?thesis by simp
next
  case False
  with tf have t: "n_commitIndex n < tf" "unat tf = unat (n_logBaseIndex n) + k + 1" "k < length (ws_Log st)" by auto
  have l: "unat (walLastIndex st) = unat (n_logBaseIndex n) + length (ws_Log st)"
    using unat_walLastIndex [of st] ok unfolding wal_ok_def base by linarith
  then have le: "tf \<le> walLastIndex st" using t by (simp add: word_le_nat_alt)
  from TruncateLog_succeeds [OF ok _ le room] t(1) c obtain w1 where w1: "TruncateLog tf w = (w1, None)" by auto
  have "n_logBaseIndex n < tf" using t by (simp add: word_less_nat_alt)
  with le have "unat (tf - n_logBaseIndex n - 1) = k" using offset_unat [of "n_logBaseIndex n" tf] t by simp
  with walOp_ok [of u w st "Truncate tf" w1] ok room w1 base False show ?thesis by simp
qed

lemma entries_paid:
  assumes o: "logOwes b n (PersistLogEntries pid tf es # as) st" and wf: "wf_node n" and ok: "wal_ok u w st"
    and room: "unat (w_segment w) + b < 2 ^ 64"
  shows "\<exists>w' p. persistEntries tf es w = (w', None) \<and> wal_ok u w' (st\<lparr>ws_Log := n_log n\<rparr>) \<and>
    unat (w_segment w') + 1 \<le> unat (w_segment w) + b \<and> n_pendingLog n = [pid \<mapsto> p] \<and> 1 < b \<and> stays st (st\<lparr>ws_Log := n_log n\<rparr>) \<and>
    (\<forall>a\<in>set as. \<not> persists a) \<and> (\<forall>f. logOwes 0 (n\<lparr>n_pendingLog := Map.empty, n_durableLogIndex := f\<rparr>) [] (st\<lparr>ws_Log := n_log n\<rparr>))"
  using o
proof cases
  case (entries pid' p es' k tf' xs ys)
  then have xs: "xs = []" "pid' = pid" "es' = es" "tf' = tf" "ys = as" by (cases xs; auto)+
  note e = entries [unfolded xs]
  let ?st = "st\<lparr>ws_Log := take k (ws_Log st)\<rparr>"
  from truncation_paid [OF ok wf e(3) _ e(10)] e(4,5) room e(13) obtain w1 where w1:
    "(if tf \<noteq> 0 then TruncateLog tf w else (w, None)) = (w1, None)" "wal_ok u w1 ?st"
    "unat (w_segment w1) \<le> unat (w_segment w) + 1" by auto
  note t = take_owed_log [OF wf e(9,8,3), of ?st, simplified]
  have r: "unat (w_segment w1) + length es < 2 ^ 64" using w1(3) room e(13) by simp
  have fit: "\<forall>e\<in>set es. entry_fits e" using e(7) by (simp add: storable_def)
  from SaveLogEntries_succeeds [OF w1(2) e(6) _ fit r] t(1) obtain w2 where w2: "SaveLogEntries es w1 = (w2, None)" by auto
  have "op_wf (SaveEntries es) ?st" using t(2) fit by (auto simp: entry_fits_def)
  from walOp_ok [OF w1(2) this] r w2 have ok2: "wal_ok u w2 (st\<lparr>ws_Log := n_log n\<rparr>)"
    "unat (w_segment w2) \<le> unat (w_segment w1) + length es" using e(9) by simp_all
  have "persistEntries tf es w = (w2, None)" using w1(1) w2 by (simp add: persistEntries_def)
  moreover have "logOwes 0 (n\<lparr>n_pendingLog := Map.empty, n_durableLogIndex := f\<rparr>) [] (st\<lparr>ws_Log := n_log n\<rparr>)" for f
    using e by (intro logOwes.nothing) simp_all
  moreover have "stays st (st\<lparr>ws_Log := n_log n\<rparr>)"
    using e(7,9) by (auto simp: stays_def storable_def dest: in_set_takeD)
  ultimately show ?thesis using ok2 e(1,11,13) w1(3) by auto
next
  case (commit pid p xs ys)
  then show ?thesis by (cases xs) auto
qed auto

lemma advanceFollowerCommit_owes:
  assumes "logOwes 0 n [] st" "advanceFollowerCommit n lc after = Some (n', as)" "\<forall>a\<in>set after. \<not> persists a"
  shows "\<exists>b\<le>1. logOwes b n' as st \<and> hview n' = hview n"
proof (cases "min lc (n_lastLogIndex n) > n_commitIndex n")
  case True
  with persistCommit_owes [OF assms(1) refl _ assms(3)] assms(2) show ?thesis
    by (auto simp: advanceFollowerCommit_def Let_def)
next
  case False
  with assms(2) obtain as1 where a: "applyThrough n (n_durableCommitIndex n) = Some (n', as1)" "as = as1 @ after"
    by (auto simp: advanceFollowerCommit_def Let_def bind_eq_Some_conv)
  have "idle n n' as" using applyThrough_idle [OF a(1)] a(2) assms(3) by (auto simp: idle_def)
  with idle_logOwes [OF assms(1)] show ?thesis by (auto simp: idle_def)
qed

lemma logEntriesPersisted_owes:
  assumes "n_pendingLog n = [pid \<mapsto> p]" "logEntriesPersisted n pid = Some (n', as)"
    "\<And>f. logOwes 0 (n\<lparr>n_pendingLog := Map.empty, n_durableLogIndex := f\<rparr>) [] st"
  shows "\<exists>b\<le>1. logOwes b n' as st \<and> hview n' = hview n"
proof -
  define m where "m = (let n = n\<lparr>n_pendingLog := Map.empty\<rparr> in
    if pl_lastIndex p > n_durableLogIndex n then n\<lparr>n_durableLogIndex := pl_lastIndex p\<rparr> else n)"
  have o: "logOwes 0 m [] st" by (rule logOwes_cong [OF assms(3)]) (simp_all add: m_def Let_def dview_def)
  have h: "hview m = hview n" by (simp add: m_def Let_def)
  have d: "map_delete (n_pendingLog n) pid = Map.empty" by (auto simp: assms(1))
  have idle: ?thesis if "idle m n' as" using idle_logOwes [OF o that] that h by (auto simp: idle_def)
  define after where "after = appendEntriesResponse m (pl_leader p) (pl_requestID p) True (pl_lastIndex p) 0 0 (pl_readID p)"
  have a: "\<forall>a\<in>set after. \<not> persists a" by (simp add: after_def appendEntriesResponse_def)
  have "logEntriesPersisted n pid = (case pl_purpose p of
      persistLeaderEntry \<Rightarrow>
        if n_role m \<noteq> Leader \<or> n_term m \<noteq> pl_term p \<or> n_lastLogIndex m < pl_lastIndex p then Some (m, [])
        else sendAppendEntries m 0
    | persistFollowerAppend \<Rightarrow>
        if n_term m \<noteq> pl_term p \<or> n_role m \<noteq> Follower \<or> n_leaderID m \<noteq> pl_leader p then Some (m, [])
        else advanceFollowerCommit m (pl_leaderCommit p) after)"
    by (cases "pl_purpose p"; cases "n_durableLogIndex n < pl_lastIndex p")
       (simp_all add: logEntriesPersisted_def assms(1) d [unfolded assms(1)] m_def after_def Let_def)
  with assms(2) consider "idle m n' as" | "advanceFollowerCommit m (pl_leaderCommit p) after = Some (n', as)"
    by (auto split: logPersistencePurpose.splits if_splits dest: sendAppendEntries_idle)
  then show ?thesis
    by cases (use idle h advanceFollowerCommit_owes [OF o _ a] in auto)
qed

lemma commit_paid:
  assumes o: "logOwes b n (PersistCommitIndex pid c # as) st" and wf: "wf_node n" and ok: "wal_ok u w st"
    and room: "unat (w_segment w) + b < 2 ^ 64"
  shows "\<exists>w' n' as'. SaveCommitIndex c w = (w', None) \<and> wal_ok u w' (st\<lparr>ws_CommitIndex := c\<rparr>) \<and>
    unat (w_segment w') \<le> unat (w_segment w) + b \<and> 0 < b \<and> commitIndexPersisted n pid = Some (n', as') \<and>
    logOwes 0 n' (as @ as') (st\<lparr>ws_CommitIndex := c\<rparr>) \<and> hview n' = hview n"
  using o
proof cases
  case (commit pid' p xs ys)
  then have xs: "xs = []" "pid' = pid" "c = n_commitIndex n" "ys = as" by (cases xs; auto)+
  note e = commit [unfolded xs]
  have pos: "log_ok n" "n_durableCommitIndex n \<le> n_commitIndex n" "n_commitIndex n \<le> n_lastLogIndex n"
    using wf by (auto simp: wf_node_def positions_ok_def)
  have "walLastIndex st = n_lastLogIndex n" using pos(1) e(5,7) by (simp add: walLastIndex_def log_ok_def)
  with SaveCommitIndex_succeeds [OF ok, of c] pos e(6) room e(10) xs(3) obtain w' where
    w': "SaveCommitIndex c w = (w', None)" by auto
  have "op_wf (SaveCommit c) st" by simp
  from walOp_ok [OF ok this, of w'] w' room e(10) have ok': "wal_ok u w' (st\<lparr>ws_CommitIndex := c\<rparr>)"
    "unat (w_segment w') \<le> unat (w_segment w) + 1" by simp_all
  have d: "map_delete (n_pendingCommit n) pid = Map.empty" using e(2) by auto
  define m where "m = n\<lparr>n_pendingCommit := Map.empty,
    n_durableCommitIndex := if c > n_durableCommitIndex n then c else n_durableCommitIndex n\<rparr>"
  obtain n' as' where n': "commitIndexPersisted n pid = Some (n', as')"
    using achievesD commitIndexPersisted_achieves [OF wf, of pid] by (auto simp: achieves_def)
  then obtain as1 where a: "applyThrough m c = Some (n', as1)" "as' = as1 @ pc_after p"
    using e(2,3) d xs(3)
    by (auto simp: commitIndexPersisted_def m_def Let_def bind_eq_Some_conv split: if_splits)
  have "n_durableCommitIndex m = c" using pos(2) xs(3) by (auto simp: m_def)
  then have o: "logOwes 0 m [] (st\<lparr>ws_CommitIndex := c\<rparr>)"
    using e xs(3) by (intro logOwes.nothing) (auto simp: m_def)
  have i: "idle m n' (as @ as')" using applyThrough_idle [OF a(1)] a(2) e(4,8) by (auto simp: idle_def)
  have "hview n' = hview n" using i by (simp add: idle_def m_def)
  with idle_logOwes [OF o i] w' ok' n' e(10) show ?thesis by auto
next
  case (entries pid' p es k tf xs ys)
  then show ?thesis by (cases xs) auto
qed auto

lemma hard_durable_cong: "hard_durable n st \<Longrightarrow> hview n' = hview n \<Longrightarrow> ws_HardState st' = ws_HardState st \<Longrightarrow> hard_durable n' st'"
  by (simp add: hard_durable_def hview_def)

lemma hard_current_cong: "hard_current n \<Longrightarrow> hview n' = hview n \<Longrightarrow> hard_current n'"
  by (simp add: hard_current_def hview_def)

lemma hard_paid:
  assumes o: "owes b n (PersistHardState pid t v # as) st" and ok: "wal_ok u w st"
    and room: "unat (w_segment w) + b < 2 ^ 64"
  shows "\<exists>w' n' as' st' b'. SaveHardState \<lparr>hs_Term = t, hs_VotedFor = v\<rparr> w = (w', None) \<and> wal_ok u w' st' \<and>
    unat (w_segment w') + b' \<le> unat (w_segment w) + b \<and> b' < b \<and> hardStatePersisted n pid = (n', as') \<and>
    owes b' n' (as @ as') st' \<and> st' = st\<lparr>ws_HardState := \<lparr>hs_Term = t, hs_VotedFor = v\<rparr>\<rparr>"
  using o
proof cases
  case log
  then have "logOwes b n (PersistHardState pid t v # as) st" by simp
  then show ?thesis by cases (auto simp: append_eq_Cons_conv Cons_eq_append_conv)
next
  case (hard pid' after b' xs ys)
  then have xs: "xs = []" "pid' = pid" "t = n_term n" "v = n_votedFor n" "ys = as" by (cases xs; auto)+
  note e = hard [unfolded xs]
  have c: "\<lparr>hs_Term = t, hs_VotedFor = v\<rparr> = current n" by (simp add: current_def xs)
  from SaveHardState_succeeds [OF ok, of "current n"] room e(1,5) obtain w' where
    w': "SaveHardState (current n) w = (w', None)" by (auto simp: current_def)
  from walOp_ok [OF ok e(4), of w'] w' room e(1) have ok': "wal_ok u w' (st\<lparr>ws_HardState := current n\<rparr>)"
    "unat (w_segment w') \<le> unat (w_segment w) + 1" by simp_all
  define m where "m = n\<lparr>n_pendingHardState := Map.empty, n_durableTerm := t, n_durableVotedFor := v\<rparr>"
  have "map_delete (n_pendingHardState n) pid = Map.empty" using e(2) by auto
  then have h: "hardStatePersisted n pid = (m, after)"
    using e(2) xs by (simp add: hardStatePersisted_def m_def)
  have "logOwes b' m after st" by (rule logOwes_cong [OF e(6)]) (simp_all add: m_def)
  from logOwes_around [OF this, of as "[]"] e(7) have "logOwes b' m (as @ after) st" by simp
  then have "owes b' m (as @ after) (st\<lparr>ws_HardState := current n\<rparr>)"
    by (intro owes.log) (simp_all add: m_def hard_current_def hard_durable_def current_def xs)
  with w' ok' h e(1) show ?thesis
    unfolding c by (intro exI [of _ w'] exI [of _ m] exI [of _ after] exI [of _ "st\<lparr>ws_HardState := current n\<rparr>"] exI [of _ b']) simp
qed

lemma owes_pay:
  assumes o: "owes b n (a # as) st" and p: "persists a" and wf: "wf_node n" and ok: "wal_ok u w st"
    and room: "unat (w_segment w) + b < 2 ^ 64"
  shows "\<exists>w' st' b' n' as' c. persistAction a w = Some (w', None, c) \<and> Step n c = Some (n', as') \<and>
    wal_ok u w' st' \<and> wf_node n' \<and> owes b' n' (as @ as') st' \<and> b' < b \<and>
    unat (w_segment w') + b' \<le> unat (w_segment w) + b \<and>
    stays st st'"
proof -
  have step: "wf_node n'" if "Step n c = Some (n', as')" "event_wf n c" for n' as' c
    using Step_ok [OF wf that(2,1)] by (rule step_ok_wf)
  have log: "hard_current n" "hard_durable n st" "logOwes b n (a # as) st" if "\<And>pid t v. a \<noteq> PersistHardState pid t v"
    using o that by (cases; auto simp: append_eq_Cons_conv Cons_eq_append_conv p)+
  show ?thesis
  proof (cases a)
    case (PersistHardState pid t v)
    let ?st = "st\<lparr>ws_HardState := \<lparr>hs_Term = t, hs_VotedFor = v\<rparr>\<rparr>"
    from hard_paid [OF o [unfolded PersistHardState] ok room] obtain w' n' as' b' where
      "SaveHardState \<lparr>hs_Term = t, hs_VotedFor = v\<rparr> w = (w', None)" "wal_ok u w' ?st"
      "unat (w_segment w') + b' \<le> unat (w_segment w) + b" "b' < b" "hardStatePersisted n pid = (n', as')"
      "owes b' n' (as @ as') ?st" by blast
    with step [of "HardStatePersisted pid"] show ?thesis
      by (intro exI [of _ w'] exI [of _ ?st] exI [of _ b'] exI [of _ n'] exI [of _ as']
          exI [of _ "HardStatePersisted pid"]) (simp add: stays_def PersistHardState)
  next
    case (PersistLogEntries pid tf es)
    note l = log [unfolded PersistLogEntries, simplified]
    from entries_paid [OF l(3) wf ok room] obtain w' p where w':
      "persistEntries tf es w = (w', None)" "wal_ok u w' (st\<lparr>ws_Log := n_log n\<rparr>)"
      "unat (w_segment w') + 1 \<le> unat (w_segment w) + b" "n_pendingLog n = [pid \<mapsto> p]" "1 < b" "\<forall>a\<in>set as. \<not> persists a"
      "stays st (st\<lparr>ws_Log := n_log n\<rparr>)"
      "\<And>f. logOwes 0 (n\<lparr>n_pendingLog := Map.empty, n_durableLogIndex := f\<rparr>) [] (st\<lparr>ws_Log := n_log n\<rparr>)" by blast
    obtain n' as' where n': "logEntriesPersisted n pid = Some (n', as')"
      using logEntriesPersisted_achieves [OF wf, of pid] by (auto simp: achieves_def)
    from logEntriesPersisted_owes [OF w'(4) n' w'(8)] obtain b' where
      b': "b' \<le> 1" "logOwes b' n' as' (st\<lparr>ws_Log := n_log n\<rparr>)" "hview n' = hview n" by blast
    have "owes b' n' (as @ as') (st\<lparr>ws_Log := n_log n\<rparr>)"
      using logOwes_around [OF b'(2), of as "[]"] w'(6) l(1,2) b'(3)
      by (auto intro!: owes.log intro: hard_current_cong hard_durable_cong)
    with w' b'(1) n' step [of "LogEntriesPersisted pid"] show ?thesis
      by (intro exI [of _ w'] exI [of _ "st\<lparr>ws_Log := n_log n\<rparr>"] exI [of _ b'] exI [of _ n'] exI [of _ as']
          exI [of _ "LogEntriesPersisted pid"]) (simp add: PersistLogEntries)
  next
    case (PersistCommitIndex pid c)
    note l = log [unfolded PersistCommitIndex, simplified]
    from commit_paid [OF l(3) wf ok room] obtain w' n' as' where w':
      "SaveCommitIndex c w = (w', None)" "wal_ok u w' (st\<lparr>ws_CommitIndex := c\<rparr>)"
      "unat (w_segment w') \<le> unat (w_segment w) + b" "0 < b" "commitIndexPersisted n pid = Some (n', as')"
      "logOwes 0 n' (as @ as') (st\<lparr>ws_CommitIndex := c\<rparr>)" "hview n' = hview n" by blast
    have "owes 0 n' (as @ as') (st\<lparr>ws_CommitIndex := c\<rparr>)"
      using w'(6,7) l(1,2) by (auto intro!: owes.log intro: hard_current_cong hard_durable_cong)
    with w' step [of "CommitIndexPersisted pid"] show ?thesis
      by (intro exI [of _ w'] exI [of _ "st\<lparr>ws_CommitIndex := c\<rparr>"] exI [of _ 0] exI [of _ n'] exI [of _ as']
          exI [of _ "CommitIndexPersisted pid"]) (simp add: stays_def PersistCommitIndex)
  qed (use p in simp_all)
qed

text \<open>The loop ends, without an error, when nothing is owed any more.\<close>

definition settled :: "(byte list \<Rightarrow> compactionCheckpoint option) \<Rightarrow> raftRuntime \<Rightarrow> WalState \<Rightarrow> bool" where
  "settled u r st \<longleftrightarrow> wf_node (rt_core r) \<and> wal_ok u (rt_wal r) st \<and> owes 0 (rt_core r) [] st"

lemma stepLoop_ends:
  assumes "owes b (rt_core r) as st" "wf_node (rt_core r)" "wal_ok u (rt_wal r) st" "unat (w_segment (rt_wal r)) + b < 2 ^ 64"
  shows "\<exists>r' st' out. stepLoop r as emitted = Some (r', Inr out) \<and> settled u r' st' \<and>
    unat (w_segment (rt_wal r')) \<le> unat (w_segment (rt_wal r)) + b \<and> (\<forall>a\<in>set out. a \<in> set emitted \<or> \<not> persists a) \<and>
    stays st st'"
  using assms
proof (induction b arbitrary: r as st emitted rule: less_induct)
  case (less b)
  note outer = less
  show ?case
    using less.prems
  proof (induction as arbitrary: emitted)
    case Nil
    with owes_Nil [of b "rt_core r" st] show ?case by (auto simp: stepLoop.simps settled_def intro!: exI [of _ st])
  next
    case (Cons a as)
    show ?case
    proof (cases "persists a")
      case False
      with Cons.IH [OF owes_emit [OF Cons.prems(1)] Cons.prems(2-4), of "emitted @ [a]"] show ?thesis
        by (fastforce simp: stepLoop.simps [of r "a # as"] persistAction_None)
    next
      case True
      from owes_pay [OF Cons.prems(1) True Cons.prems(2-4)] obtain w' st' b' n' as' c where s:
        "persistAction a (rt_wal r) = Some (w', None, c)" "Step (rt_core r) c = Some (n', as')" "wal_ok u w' st'" "wf_node n'"
        "owes b' n' (as @ as') st'" "b' < b" "unat (w_segment w') + b' \<le> unat (w_segment (rt_wal r)) + b"
        "stays st st'" by blast
      let ?r = "r\<lparr>rt_core := n', rt_wal := w'\<rparr>"
      have "unat (w_segment (rt_wal ?r)) + b' < 2 ^ 64" using s(7) Cons.prems(4) by simp
      from outer(1) [OF s(6), of ?r "as @ as'" st' emitted] s(3,4,5) this obtain r' st2 out where
        "stepLoop ?r (as @ as') emitted = Some (r', Inr out)" "settled u r' st2"
        "unat (w_segment (rt_wal r')) \<le> unat (w_segment w') + b'" "\<forall>a\<in>set out. a \<in> set emitted \<or> \<not> persists a"
        "stays st' st2" by auto
      with s(1,2,7,8) stays_trans show ?thesis
        by (intro exI [of _ r'] exI [of _ st2] exI [of _ out]) (auto simp: stepLoop.simps [of r "a # as"])
    qed
  qed
qed

end
