(* ===== verification/Durable_Runtime.thy ===== *)
theory Durable_Runtime
  imports Durability
begin

text \<open>
  What every event of the consensus core owes to the write-ahead log, handler by handler, and from it the
  contract of \<^verbatim>\<open>raftRuntime.step\<close>: between events the files hold exactly the Term, the vote, the log and the
  commit index of the core, so that a Node that stops at any such moment restarts where it was. Events that
  install or compact a Snapshot are not part of the histories considered here (\<open>event_fits\<close>).
\<close>

subsection \<open>What an event owes\<close>

lemma idle_owes_le: "owes 0 n [] st \<Longrightarrow> idle n n' as \<Longrightarrow> \<exists>b\<le>k. owes b n' as st"
  using idle_owes by (intro exI [of _ 0]) simp

lemma persistHardState_owes:
  assumes "logOwes b m after st" "hard_durable m st" "n_pendingHardState m = Map.empty" "op_wf (SaveHard (current m)) st"
    "length (n_votedFor m) + 9 \<le> maxRecordSize" "persistHardState m after = (n', as)"
  shows "owes (Suc b) n' as st"
proof -
  have n': "n' = m\<lparr>n_nextHardStatePersistence := n_nextHardStatePersistence m + 1, n_pendingHardState :=
      [n_nextHardStatePersistence m + 1 \<mapsto> \<lparr>ph_term = n_term m, ph_votedFor = n_votedFor m, ph_after = after\<rparr>]\<rparr>"
    "as = [PersistHardState (n_nextHardStatePersistence m + 1) (n_term m) (n_votedFor m)]"
    using assms(3,6) by (auto simp: persistHardState_def Let_def)
  have "logOwes b n' after st" by (rule logOwes_cong [OF assms(1)]) (simp_all add: n')
  then show ?thesis
    using assms(2,4,5)
    by (intro owes.hard [where xs = "[]" and ys = "[]" and pid = "n_nextHardStatePersistence m + 1" and after = after])
       (simp_all add: n' hard_durable_def current_def)
qed

text \<open>A Node without outstanding writes: its hard state may change within the rules of Raft.\<close>

lemma newer_term_owes:
  assumes n: "owes 0 n [] st" and m: "n_durableTerm m = n_durableTerm n" "n_durableVotedFor m = n_durableVotedFor n"
      "n_pendingHardState m = n_pendingHardState n"
    and t: "n_term n < n_term m \<or> (n_term n = n_term m \<and> (n_votedFor n = '''' \<or> n_votedFor n = n_votedFor m))"
    and v: "length (n_votedFor m) + 9 \<le> maxRecordSize"
    and a: "logOwes b m after st" "persistHardState m after = (n', as)"
  shows "owes (Suc b) n' as st"
proof -
  note h = owes_Nil [OF n]
  have "hard_durable m st" using h m by (simp add: hard_durable_def)
  moreover have "op_wf (SaveHard (current m)) st"
    using h m t by (auto simp: hard_durable_def hard_current_def current_def)
  ultimately show ?thesis using persistHardState_owes [OF a(1)] a(2) m v h by (simp add: hard_current_def)
qed

lemma becomeFollower_hard:
  "n_durableTerm (becomeFollower n t l) = n_durableTerm n" "n_durableVotedFor (becomeFollower n t l) = n_durableVotedFor n"
  "n_pendingHardState (becomeFollower n t l) = n_pendingHardState n" "n_term (becomeFollower n t l) = t"
  "n_votedFor (becomeFollower n t l) = (if t > n_term n then '''' else n_votedFor n)"
  "dview (becomeFollower n t l) = dview n"
  by (auto simp: becomeFollower_def Let_def)

lemma stepDown_owes:
  assumes "owes 0 n [] st" "t > n_term n" "persistHardState (becomeFollower n t l) [] = (n', as)"
  shows "owes 1 n' as st"
proof -
  have "logOwes 0 (becomeFollower n t l) [] st"
    by (rule logOwes_cong) (use owes_Nil [OF assms(1)] in \<open>auto simp: becomeFollower_hard\<close>)
  from newer_term_owes [OF assms(1) _ _ _ _ _ this assms(3)] assms(2) show ?thesis
    by (simp add: becomeFollower_hard maxRecordSize_def)
qed

lemma startElection_owes:
  assumes "owes 0 n [] st" "n_term n \<noteq> - 1" "length (n_id n) + 9 \<le> maxRecordSize" "startElection n = (n', as)"
  shows "owes 1 n' as st"
proof -
  define m where "m = n\<lparr>n_role := Candidate, n_term := n_term n + 1, n_votedFor := n_id n, n_leaderID := '''',
                n_readReady := False, n_votes := {n_id n}\<rparr>"
  define after where "after = ResetElectionTimer # map (\<lambda>peer. SendVoteRequest peer
     \<lparr>vq_From = n_id m, vq_Term = n_term m, vq_LastLogIndex = n_lastLogIndex m, vq_LastLogTerm = n_lastLogTerm m\<rparr>) (n_peers m)"
  have p: "persistHardState m after = (n', as)"
    using assms(4) by (simp add: startElection_def Let_def m_def after_def)
  have "logOwes 0 m [] st" by (rule logOwes_cong) (use owes_Nil [OF assms(1)] in \<open>auto simp: m_def\<close>)
  from logOwes_around [OF this, of after "[]"] have l: "logOwes 0 m after st" by (auto simp: after_def)
  have "n_term n < n_term n + 1" using assms(2) by (rule word_less_add_one)
  then show ?thesis
    using newer_term_owes [OF assms(1) _ _ _ _ _ l p] assms(3) by (simp add: m_def)
qed

lemma owes_around:
  assumes "owes b n as st" "\<forall>a\<in>set (ps @ qs). \<not> persists a"
  shows "owes b n (ps @ as @ qs) st"
  using assms(1)
proof cases
  case log
  then show ?thesis using logOwes_around [OF _ assms(2)] by (blast intro: owes.log)
next
  case (hard pid after b' xs ys)
  then show ?thesis
    using assms(2) unfolding hard(1) by (intro owes.hard [where xs = "ps @ xs" and ys = "ys @ qs" and pid = pid and after = after]) auto
qed

lemma startPreVote_owes:
  assumes "owes 0 n [] st" "n_term n \<noteq> - 1" "length (n_id n) + 9 \<le> maxRecordSize" "startPreVote n = (n', as)"
  shows "\<exists>b\<le>1. owes b n' as st"
proof (cases "n_role n = Leader")
  case True
  with assms show ?thesis by (auto simp: startPreVote_def)
next
  case False
  define m where "m = n\<lparr>n_recentLeaderContact := False, n_leaderID := '''', n_role := PreCandidate, n_preVotes := {n_id n}\<rparr>"
  define ps where "ps = ResetElectionTimer # map (\<lambda>peer. SendPreVoteRequest peer
     \<lparr>pvq_From = n_id m, pvq_Term = n_term m + 1, pvq_LastLogIndex = n_lastLogIndex m, pvq_LastLogTerm = n_lastLogTerm m\<rparr>) (n_peers m)"
  have i: "idle n m ps" by (auto simp: idle_def m_def ps_def)
  have m: "owes 0 m [] st" by (rule idle_owes [OF assms(1)]) (simp add: idle_def m_def)
  obtain m' as1 where s: "startElection m = (m', as1)" by (cases "startElection m")
  have "owes 1 m' as1 st" by (rule startElection_owes [OF m _ _ s]) (use assms in \<open>simp_all add: m_def\<close>)
  from owes_around [OF this, of ps "[]"] have o: "owes 1 m' (ps @ as1) st" by (auto simp: ps_def)
  have "startPreVote n = (if quorum m = 1 then (let (n', as) = startElection m in (n', ps @ as)) else (m, ps))"
    by (simp only: startPreVote_def Let_def False if_False m_def ps_def)
  then have "(n', as) = (m', ps @ as1) \<or> (n', as) = (m, ps)" using assms(4) s by (simp split: if_splits)
  then show ?thesis using o idle_owes [OF assms(1) i] by auto
qed

lemma handlePreVoteResponse_owes:
  assumes "owes 0 n [] st" "n_term n \<noteq> - 1" "length (n_id n) + 9 \<le> maxRecordSize" "handlePreVoteResponse n r = (n', as)"
  shows "\<exists>b\<le>1. owes b n' as st"
proof -
  define m where "m = n\<lparr>n_preVotes := insert (pvr_From r) (n_preVotes n)\<rparr>"
  have m: "owes 0 m [] st" by (rule idle_owes [OF assms(1)]) (simp add: idle_def m_def)
  have e: "(n', as) = (if pvr_CurrentTerm r > n_term n then persistHardState (becomeFollower n (pvr_CurrentTerm r) '''') []
    else if n_role n \<noteq> PreCandidate \<or> pvr_Term r \<noteq> n_term n + 1 \<or> \<not> pvr_Granted r then (n, [])
    else if card (n_preVotes m) < quorum m then (m, []) else startElection m)"
    by (simp only: assms(4) [symmetric] handlePreVoteResponse_def Let_def m_def)
  consider "pvr_CurrentTerm r > n_term n" "persistHardState (becomeFollower n (pvr_CurrentTerm r) '''') [] = (n', as)"
    | "n' = n" "as = []" | "n' = m" "as = []" | "startElection m = (n', as)"
    using e by (metis prod.inject)
  then show ?thesis
  proof cases
    case 1
    then show ?thesis using stepDown_owes [OF assms(1)] by blast
  next
    case 4
    then show ?thesis using startElection_owes [OF m] assms(2,3) by (auto simp: m_def)
  qed (use assms(1) m in auto)
qed

lemma handleVoteRequest_owes:
  assumes n: "owes 0 n [] st" and f: "length (vq_From r) + 9 \<le> maxRecordSize" and h: "handleVoteRequest n r = (n', as)"
  shows "\<exists>b\<le>1. owes b n' as st"
proof -
  define n1 where "n1 = (if vq_Term r > n_term n then becomeFollower n (vq_Term r) '''' else n)"
  define grant where "grant = ((n_votedFor n1 = '''' \<or> n_votedFor n1 = vq_From r) \<and>
    candidateLogIsUpToDate n1 (vq_LastLogTerm r) (vq_LastLogIndex r))"
  define m where "m = (if grant then n1\<lparr>n_votedFor := vq_From r\<rparr> else n1)"
  have e: "(n', as) = (if vq_Term r < n_term n then (n, voteResponse n (vq_From r) False)
    else if vq_Term r > n_term n \<or> (grant \<and> \<not> voteIsDurable m (vq_From r)) then persistHardState m (voteResponse m (vq_From r) grant)
    else (m, voteResponse m (vq_From r) grant))"
    by (simp only: h [symmetric] handleVoteRequest_def n1_def grant_def m_def Let_def)
  have d: "dview m = dview n" by (simp add: m_def n1_def becomeFollower_hard)
  have "logOwes 0 m [] st" by (rule logOwes_cong [OF _ d]) (use owes_Nil [OF n] in auto)
  from logOwes_around [OF this, of "voteResponse m (vq_From r) grant" "[]"]
  have l: "logOwes 0 m (voteResponse m (vq_From r) grant) st" by (simp add: voteResponse_def)
  consider "n' = n" "as = voteResponse n (vq_From r) False"
    | "persistHardState m (voteResponse m (vq_From r) grant) = (n', as)" "\<not> vq_Term r < n_term n" "vq_Term r > n_term n \<or> grant"
    | "n' = m" "as = voteResponse m (vq_From r) grant" "vq_Term r = n_term n" "grant \<longrightarrow> voteIsDurable m (vq_From r)"
  proof (cases "vq_Term r < n_term n")
    case True
    with e that(1) show thesis by simp
  next
    case False
    show thesis
    proof (cases "vq_Term r > n_term n \<or> (grant \<and> \<not> voteIsDurable m (vq_From r))")
      case True
      with e False that(2) show thesis by (simp only: if_True if_False) blast
    next
      case never: False
      with False have "vq_Term r = n_term n" by auto
      with e False never that(3) show thesis by (simp only: if_True if_False) blast
    qed
  qed
  then show ?thesis
  proof cases
    case 1
    then have "idle n n' as" by (simp add: idle_def voteResponse_def)
    then show ?thesis by (rule idle_owes_le [OF n])
  next
    case 2
    have "owes (Suc 0) n' as st"
    proof (rule newer_term_owes [OF n _ _ _ _ _ l 2(1)])
      show "n_term n < n_term m \<or> n_term n = n_term m \<and> (n_votedFor n = '''' \<or> n_votedFor n = n_votedFor m)"
        using 2(2,3) by (auto simp: m_def n1_def becomeFollower_hard grant_def not_less)
      show "length (n_votedFor m) + 9 \<le> maxRecordSize"
        using f 2(3) by (auto simp: m_def n1_def becomeFollower_hard maxRecordSize_def)
    qed (simp_all add: m_def n1_def becomeFollower_hard)
    then show ?thesis by auto
  next
    case 3
    note c = owes_Nil [OF n]
    have n1: "n1 = n" using 3(3) by (simp add: n1_def)
    have "hview m = hview n"
      using c 3(4) unfolding m_def n1 by (auto simp: hview_def hard_current_def voteIsDurable_def)
    then have "hard_current m" "hard_durable m st" using c by (auto intro: hard_current_cong hard_durable_cong)
    then show ?thesis using l 3(1,2) by (auto intro: owes.log)
  qed
qed

lemma appendEntries_fields:
  assumes "appendEntries n es = Some m"
  shows "n_log m = n_log n @ es" "hview m = hview n" "n_pendingLog m = n_pendingLog n" "n_pendingCommit m = n_pendingCommit n"
    "n_logBaseIndex m = n_logBaseIndex n" "n_commitIndex m = n_commitIndex n" "n_durableCommitIndex m = n_durableCommitIndex n"
  using assms by (auto simp: appendEntries_def Let_def split: if_splits)

lemma truncateLog_fields:
  assumes "truncateLog n tf = Some m"
  shows "n_log m = take (unat (tf - n_logBaseIndex n - 1)) (n_log n)" "hview m = hview n" "n_pendingLog m = n_pendingLog n"
    "n_pendingCommit m = n_pendingCommit n" "n_logBaseIndex m = n_logBaseIndex n" "n_commitIndex m = n_commitIndex n"
    "n_durableCommitIndex m = n_durableCommitIndex n"
  using assms by (auto simp: truncateLog_def Let_def go_upto_def bind_eq_Some_conv split: if_splits)

lemma followerAppend_owes:
  assumes n: "logOwes 0 n [] st" and wf: "wf_node n" and plan: "entriesToAppend n prev entries = Some (Some (es, tf))"
    and es: "es \<noteq> []" "\<forall>e\<in>set entries. storable e"
    and n1: "(if tf \<noteq> 0 then truncateLog n tf else Some n) = Some n1" and n2: "appendEntries n1 es = Some n2"
    and p: "persistLog n2 es p = (n', as)" "pl_truncateFrom p = tf"
  shows "logOwes (length es + 2) n' as st \<and> hview n' = hview n \<and> length es \<le> length entries"
proof -
  from plan obtain k where k: "appendable n (prev + 1) entries k es tf"
    unfolding entriesToAppend_def by (auto dest: entriesToAppend_loop_spec)
  then have "es = drop k entries" by (simp add: appendable_def)
  then have fit: "\<forall>e\<in>set es. storable e" "length es \<le> length entries"
    using es(2) by (auto dest: in_set_dropD)
  define j where "j = (if tf = 0 then length (n_log n) else unat (tf - n_logBaseIndex n - 1))"
  have "n_log n1 = take j (n_log n) \<and> hview n1 = hview n \<and> n_pendingLog n1 = n_pendingLog n \<and>
      n_pendingCommit n1 = n_pendingCommit n \<and> n_logBaseIndex n1 = n_logBaseIndex n \<and> n_commitIndex n1 = n_commitIndex n \<and>
      n_durableCommitIndex n1 = n_durableCommitIndex n"
  proof (cases "tf = 0")
    case True
    with n1 have "n1 = n" by simp
    then show ?thesis by (simp add: j_def True)
  next
    case False
    with n1 have "truncateLog n tf = Some n1" by simp
    from truncateLog_fields [OF this] False show ?thesis by (simp add: j_def)
  qed
  then have j: "n_log n1 = take j (n_log n)" "hview n1 = hview n" "n_pendingLog n1 = n_pendingLog n" "n_pendingCommit n1 = n_pendingCommit n"
    "n_logBaseIndex n1 = n_logBaseIndex n" "n_commitIndex n1 = n_commitIndex n" "n_durableCommitIndex n1 = n_durableCommitIndex n"
    by blast+
  have b: "if tf = 0 then j = length (n_log n)
     else n_commitIndex n < tf \<and> unat tf = unat (n_logBaseIndex n) + j + 1 \<and> j < length (n_log n)"
  proof (cases "tf = 0")
    case False
    with k have tf: "n_commitIndex n < tf" "tf \<le> n_lastLogIndex n" by (auto simp: appendable_def)
    have "n_logBaseIndex n \<le> n_commitIndex n" using wf by (auto simp: wf_node_def positions_ok_def)
    then have f: "n_logBaseIndex n < tf" using tf(1) by simp
    have "log_ok n" using wf by (simp add: wf_node_def)
    from offset_unat [OF f tf(2)] log_ok_last [OF this] f tf False show ?thesis
      by (auto simp: j_def word_less_nat_alt word_le_nat_alt)
  qed (simp add: j_def)
  then have "j \<le> length (n_log n)" by (auto split: if_splits)
  note persistLog_owes [OF n _ _ _ _ _ _ this es(1) fit(1) _ p(1), unfolded p(2), OF _ _ _ _ _ _ b]
  with appendEntries_fields [OF n2] j fit(2) show ?thesis by simp
qed

lemma leaderAppend_owes:
  assumes n: "logOwes 0 n [] st" and e: "storable e" and m: "appendEntries m [e] = Some m1" "dview m = dview n"
    and p: "persistLog m1' [e] p = (n', as)" "pl_truncateFrom p = 0" "dview m1' = dview m1" "hview m1' = hview m1"
  shows "logOwes 3 n' as st \<and> hview n' = hview m"
proof -
  have d: "n_log m1' = take (length (n_log n)) (n_log n) @ [e]" "n_pendingLog m1' = n_pendingLog n"
    "n_pendingCommit m1' = n_pendingCommit n" "n_logBaseIndex m1' = n_logBaseIndex n" "n_commitIndex m1' = n_commitIndex n"
    "n_durableCommitIndex m1' = n_durableCommitIndex n"
    using appendEntries_fields [OF m(1)] m(2) p(3) by (auto simp: dview_def)
  from persistLog_owes [OF n d(2-6,1) _ _ _ _ p(1)] e p(2) have "logOwes 3 n' as st" "hview n' = hview m1'"
    by (simp_all add: numeral_3_eq_3)
  then show ?thesis using p(4) appendEntries_fields(2) [OF m(1)] by simp
qed

lemma owes_logI: "owes 0 n [] st \<Longrightarrow> logOwes b n' as st \<Longrightarrow> hview n' = hview n \<Longrightarrow> owes b n' as st"
  using owes_Nil [of 0 n st] by (auto intro!: owes.log intro: hard_current_cong hard_durable_cong)

lemma proposeEntry_owes:
  assumes n: "owes 0 n [] st" and e: "storable e" and p: "proposeEntry n pid e = Some (n', as)"
  shows "owes 3 n' as st"
proof -
  from p obtain m where m: "appendEntries n [e] = Some m" by (auto simp: proposeEntry_def bind_eq_Some_conv)
  define q where "q = \<lparr>pl_purpose = persistLeaderEntry, pl_term = n_term m, pl_leader = '''', pl_requestID = 0,
          pl_truncateFrom = 0, pl_lastIndex = e_Index e, pl_leaderCommit = 0, pl_readID = 0\<rparr>"
  obtain n1 as1 where l1: "persistLog m [e] q = (n1, as1)" by (cases "persistLog m [e] q")
  with p m have eq: "n1 = n'" "as = ProposalAccepted pid (e_Index e) # as1" by (simp_all add: proposeEntry_def q_def)
  have l: "logOwes 0 n [] st" using owes_Nil [OF n] by simp
  from leaderAppend_owes [OF l e m refl l1 _ refl refl] eq(1) have "logOwes 3 n' as1 st" "hview n' = hview n" by (simp_all add: q_def)
  from owes_around [OF owes_logI [OF n this], of "[ProposalAccepted pid (e_Index e)]" "[]"] eq(2) show ?thesis by simp
qed

lemma handleVoteResponse_owes:
  assumes n: "owes 0 n [] st" and h: "handleVoteResponse n r = Some (n', as)"
  shows "\<exists>b\<le>3. owes b n' as st"
proof -
  define m where "m = n\<lparr>n_votes := insert (vr_From r) (n_votes n)\<rparr>"
  define m1 where "m1 = m\<lparr>n_role := Leader, n_leaderID := n_id m, n_activePeers := {},
                       n_matchIndex := Map.empty, n_nextIndex := Map.empty,
                       n_appendInFlight := Map.empty, n_snapshotInFlight := Map.empty,
                       n_readReady := False\<rparr>"
  define e where "e = \<lparr>e_Index = n_lastLogIndex m1 + 1, e_Term = n_term m1, e_Type = EntryNoOp,
                          e_SessionID = zeroSessionID, e_Sequence = 0, e_Key = '''', e_Value = []\<rparr>"
  have i: "idle n m []" by (simp add: idle_def m_def)
  define f where "f = (\<lambda>m2 :: Node. m2\<lparr>n_nextIndex := (\<lambda>peer. if peer \<in> set (n_peers m2) then Some (n_lastLogIndex m2 + 1) else n_nextIndex m2 peer)\<rparr>)"
  define q where "q = (\<lambda>m2 :: Node. \<lparr>pl_purpose = persistLeaderEntry, pl_term = n_term m2, pl_leader = '''', pl_requestID = 0,
                pl_truncateFrom = 0, pl_lastIndex = e_Index e, pl_leaderCommit = 0, pl_readID = 0\<rparr>)"
  have eq: "Some (n', as) = (if vr_Term r > n_term n then Some (persistHardState (becomeFollower n (vr_Term r) '''') [])
    else if n_role n \<noteq> Candidate \<or> vr_Term r \<noteq> n_term n \<or> \<not> vr_Granted r then Some (n, [])
    else if card (n_votes m) < quorum m then Some (m, [])
    else do { m2 \<leftarrow> appendEntries m1 [e];
      let (n, as) = persistLog (f m2) [e] (q (f m2));
      Some (n, [BecameLeader (n_term n), ResetHeartbeatTimer, ResetCheckQuorumTimer] @ as) })"
    by (simp only: h [symmetric] handleVoteResponse_def Let_def m_def m1_def e_def f_def q_def)
  consider (newer) "vr_Term r > n_term n"
    | (ignored) "\<not> vr_Term r > n_term n" "n_role n \<noteq> Candidate \<or> vr_Term r \<noteq> n_term n \<or> \<not> vr_Granted r"
    | (counted) "\<not> vr_Term r > n_term n" "\<not> (n_role n \<noteq> Candidate \<or> vr_Term r \<noteq> n_term n \<or> \<not> vr_Granted r)"
        "card (n_votes m) < quorum m"
    | (elected) "\<not> vr_Term r > n_term n" "\<not> (n_role n \<noteq> Candidate \<or> vr_Term r \<noteq> n_term n \<or> \<not> vr_Granted r)"
        "\<not> card (n_votes m) < quorum m" by blast
  then show ?thesis
  proof cases
    case newer
    with eq have "persistHardState (becomeFollower n (vr_Term r) '''') [] = (n', as)"
      by (simp only: if_True option.inject)
    from stepDown_owes [OF n newer this] show ?thesis by (intro exI [of _ 1]) simp
  next
    case ignored
    with eq n show ?thesis by (simp only: if_True if_False option.inject prod.inject) auto
  next
    case counted
    with eq idle_owes [OF n i] show ?thesis by (simp only: if_True if_False option.inject prod.inject) auto
  next
    case elected
    then have s: "Some (n', as) = do { m2 \<leftarrow> appendEntries m1 [e]; let (n, as) = persistLog (f m2) [e] (q (f m2));
          Some (n, [BecameLeader (n_term n), ResetHeartbeatTimer, ResetCheckQuorumTimer] @ as) }"
      using eq by (simp only: if_False)
    then obtain m2 where m2: "appendEntries m1 [e] = Some m2" by (cases "appendEntries m1 [e]") simp_all
    obtain n1 as1 where l1: "persistLog (f m2) [e] (q (f m2)) = (n1, as1)" by (cases "persistLog (f m2) [e] (q (f m2))")
    with s m2 have eq': "n1 = n'" "as = [BecameLeader (n_term n'), ResetHeartbeatTimer, ResetCheckQuorumTimer] @ as1"
      by simp_all
    have l: "logOwes 0 n [] st" using owes_Nil [OF n] by simp
    have "storable e" by (simp add: e_def storable_def entry_fits_def zeroSessionID_def maxRecordSize_def)
    from leaderAppend_owes [OF l this m2 _ l1] eq'(1) have "logOwes 3 n' as1 st" "hview n' = hview n"
      by (simp_all add: m1_def m_def f_def q_def)
    from owes_around [OF owes_logI [OF n this], of "[BecameLeader (n_term n'), ResetHeartbeatTimer, ResetCheckQuorumTimer]" "[]"]
      eq'(2) show ?thesis by auto
  qed
qed

lemma idle_after: "logOwes b n as st \<Longrightarrow> idle n n' as' \<Longrightarrow> logOwes b n' (as @ as') st"
  using logOwes_cong [of b n as st n' st] logOwes_around [of b n' as st "[]" as'] by (auto simp: idle_def)

lemma acceptLeader_durable:
  "dview (acceptLeader n t l) = dview n" "n_durableTerm (acceptLeader n t l) = n_durableTerm n"
  "n_durableVotedFor (acceptLeader n t l) = n_durableVotedFor n" "n_pendingHardState (acceptLeader n t l) = n_pendingHardState n"
  "t > n_term n \<Longrightarrow> n_term (acceptLeader n t l) = t" "t > n_term n \<Longrightarrow> n_votedFor (acceptLeader n t l) = ''''"
  "\<not> t > n_term n \<Longrightarrow> hview (acceptLeader n t l) = hview n"
  by (auto simp: acceptLeader_def becomeFollower_def Let_def)

lemma acceptLeader_logOwes:
  assumes "owes 0 n [] st"
  shows "logOwes 0 (acceptLeader n t l) [] st"
proof -
  have "logOwes 0 n [] st" using owes_Nil [OF assms] by simp
  then show ?thesis by (rule logOwes_cong) (simp_all add: acceptLeader_durable(1))
qed

lemma acceptedAppend_owes:
  assumes n: "logOwes 0 n [] st" and wf: "wf_node n" and fit: "\<forall>e\<in>set (ae_Entries r). storable e"
    and a: "acceptedAppend n r = Some (n', as)"
  shows "\<exists>b \<le> length (ae_Entries r) + 2. logOwes b n' as st \<and> hview n' = hview n"
  using a
proof (cases rule: acceptedAppendE)
  case (reject ct ci)
  then have "idle n n' as" by (simp add: idle_def appendEntriesResponse_def)
  with idle_logOwes [OF n this] show ?thesis by (auto simp: idle_def)
next
  case (append es tf n1 n2)
  from followerAppend_owes [OF n wf append(2,3) fit append(4-6)] show ?thesis
    by (intro exI [of _ "length es + 2"]) simp
next
  case wait
  with n show ?thesis by auto
next
  case commit
  have "\<forall>a\<in>set (appendEntriesResponse n (ae_From r) (ae_RequestID r) True (n_lastLogIndex n) 0 0 (ae_ReadID r)). \<not> persists a"
    by (simp add: appendEntriesResponse_def)
  from advanceFollowerCommit_owes [OF n commit(4) this] show ?thesis by (meson le_add2 le_trans one_le_numeral)
qed

lemma afterTermChange_owes:
  assumes n: "owes 0 n [] st" and m: "logOwes b m as st" "hview m = hview (acceptLeader n t l)" "\<not> t < n_term n"
    and a: "afterTermChange (t > n_term n) m (ResetElectionTimer # as) = (n', as')"
  shows "\<exists>b' \<le> Suc b. owes b' n' as' st"
proof -
  have o: "logOwes b m (ResetElectionTimer # as) st" using logOwes_around [OF m(1), of "[ResetElectionTimer]" "[]"] by simp
  show ?thesis
  proof (cases "t > n_term n")
    case True
    note f = acceptLeader_durable [of n t l]
    have h: "n_durableTerm m = n_durableTerm n" "n_durableVotedFor m = n_durableVotedFor n"
      "n_pendingHardState m = n_pendingHardState n" "n_term m = t" "n_votedFor m = ''''"
      using m(2) f True by (auto simp: hview_def)
    from True a have p: "persistHardState m (ResetElectionTimer # as) = (n', as')" by (simp add: afterTermChange_def)
    have "owes (Suc b) n' as' st"
      by (rule newer_term_owes [OF n h(1-3) _ _ o p]) (use h True in \<open>simp_all add: maxRecordSize_def\<close>)
    then show ?thesis by auto
  next
    case False
    with m(2) have "hview m = hview n" by (simp add: acceptLeader_durable)
    from owes_logI [OF n o this] False a show ?thesis by (intro exI [of _ b]) (simp add: afterTermChange_def)
  qed
qed

lemma acceptLeader_wf: "wf_node n \<Longrightarrow> wf_node (acceptLeader n t l)"
  using acceptLeader_step_ok step_ok_wf by blast

lemma handleAppendEntries_owes:
  assumes n: "owes 0 n [] st" and wf: "wf_node n" and fit: "\<forall>e\<in>set (ae_Entries r). storable e"
    and h: "handleAppendEntries n r = Some (n', as)"
  shows "\<exists>b \<le> length (ae_Entries r) + 3. owes b n' as st"
proof (cases "ae_Term r < n_term n")
  case True
  with h have "idle n n' as" by (auto simp: handleAppendEntries_accept idle_def appendEntriesResponse_def)
  then show ?thesis by (rule idle_owes_le [OF n])
next
  case False
  let ?m = "acceptLeader n (ae_Term r) (ae_From r)"
  from h False obtain m as1 where m: "acceptedAppend ?m r = Some (m, as1)"
    by (auto simp: handleAppendEntries_accept bind_eq_Some_conv)
  with h False have a: "afterTermChange (ae_Term r > n_term n) m (ResetElectionTimer # as1) = (n', as)"
    by (simp add: handleAppendEntries_accept)
  from acceptedAppend_owes [OF acceptLeader_logOwes [OF n] acceptLeader_wf [OF wf] fit m] obtain b where
    b: "b \<le> length (ae_Entries r) + 2" "logOwes b m as1 st" "hview m = hview ?m" by blast
  from afterTermChange_owes [OF n b(2,3) False a] obtain b' where "b' \<le> Suc b" "owes b' n' as st" by blast
  with b(1) show ?thesis by (intro exI [of _ b']) simp
qed

lemma handleInstallSnapshot_owes:
  assumes n: "owes 0 n [] st" and "\<not> is_Installed r" and h: "handleInstallSnapshot n r = Some (n', as)"
  shows "\<exists>b\<le>1. owes b n' as st"
proof (cases "is_Term r < n_term n")
  case True
  with h have "idle n n' as" by (auto simp: handleInstallSnapshot_def idle_def snapshotResponse_def)
  then show ?thesis by (rule idle_owes_le [OF n])
next
  case False
  let ?m = "acceptLeader n (is_Term r) (is_From r)"
  let ?as = "snapshotResponse ?m r (is_Success r) (is_NextOffset r) (is_Installed r)"
  have a: "afterTermChange (is_Term r > n_term n) ?m (ResetElectionTimer # ?as) = (n', as)"
    using h False assms(2) by (simp add: handleInstallSnapshot_def Let_def)
  from logOwes_around [OF acceptLeader_logOwes [OF n], of ?as "[]"] have "logOwes 0 ?m ?as st" by (simp add: snapshotResponse_def)
  from afterTermChange_owes [OF n this refl False a] show ?thesis by simp
qed

lemma replicateAfterResponse_owes:
  assumes l: "logOwes 0 n [] st" and n1: "n1 = (if advanced then n\<lparr>n_commitIndex := c\<rparr> else n)"
    and r: "replicateAfterResponse n1 resp pending advanced = Some (n', as)"
  shows "\<exists>b\<le>1. logOwes b n' as st \<and> hview n' = hview n"
proof (cases advanced)
  case False
  with r n1 have "idle n n' as"
    by (auto simp: replicateAfterResponse_def Let_def idle_def dest!: sendAppendEntriesTo_idle split: if_splits)
  with idle_logOwes [OF l this] show ?thesis by (auto simp: idle_def)
next
  case True
  with r obtain m as1 where m: "sendAppendEntries n1 0 = Some (m, as1)" "persistCommit m as1 = (n', as)"
    by (auto simp: replicateAfterResponse_def bind_eq_Some_conv)
  have i: "idle n1 m as1" using sendAppendEntries_idle [OF m(1)] .
  let ?m = "m\<lparr>n_commitIndex := n_commitIndex n\<rparr>"
  have "dview ?m = dview n" using i True n1 by (simp add: idle_def dview_def)
  from persistCommit_owes [OF l this, of "n_commitIndex m" as1 n' as] m(2) i
  have "logOwes 1 n' as st" "hview n' = hview m" by (simp_all add: idle_def)
  then show ?thesis using i n1 True by (auto simp: idle_def)
qed

lemma recordAppendResponse_idle: "recordAppendResponse n r = Some n' \<Longrightarrow> idle n n' []"
  by (auto simp: recordAppendResponse_def Let_def idle_def bind_eq_Some_conv split: if_splits)

lemma advanceLeaderCommit_node:
  assumes "advanceLeaderCommit n = Some (n', advanced)"
  obtains c where "n' = (if advanced then n\<lparr>n_commitIndex := c\<rparr> else n)"
  using assms by (auto simp: advanceLeaderCommit_def bind_eq_Some_conv split: option.splits)

lemma handleAppendEntriesResponse_owes:
  assumes n: "owes 0 n [] st" and h: "handleAppendEntriesResponse n r = Some (n', as)"
  shows "\<exists>b\<le>1. owes b n' as st"
proof -
  let ?p = "appendInFlightOf n (ar_From r)"
  consider (newer) "ar_Term r > n_term n" | (ignored) "\<not> ar_Term r > n_term n" "idle n n' as"
    | (taken) n1 n2 adv n3 as1 as2 where "recordAppendResponse n r = Some n1" "advanceLeaderCommit n1 = Some (n2, adv)"
      "replicateAfterResponse n2 r ?p adv = Some (n3, as1)" "acknowledgeRead n3 r = Some (n', as2)" "as = as1 @ as2"
    using h by (auto simp: handleAppendEntriesResponse_def Let_def bind_eq_Some_conv split: if_splits)
  then show ?thesis
  proof cases
    case newer
    with h have "persistHardState (becomeFollower n (ar_Term r) '''') [] = (n', as)"
      by (simp add: handleAppendEntriesResponse_def)
    from stepDown_owes [OF n newer this] show ?thesis by blast
  next
    case ignored
    show ?thesis by (rule idle_owes_le [OF n ignored(2)])
  next
    case (taken n1 n2 adv n3 as1 as2)
    have l: "logOwes 0 n1 [] st" by (rule idle_logOwes [OF _ recordAppendResponse_idle [OF taken(1)]]) (use owes_Nil [OF n] in simp)
    have h1: "hview n1 = hview n" using recordAppendResponse_idle [OF taken(1)] by (simp add: idle_def)
    obtain c where "n2 = (if adv then n1\<lparr>n_commitIndex := c\<rparr> else n1)" using advanceLeaderCommit_node [OF taken(2)] .
    from replicateAfterResponse_owes [OF l this taken(3)] obtain b where b: "b \<le> 1" "logOwes b n3 as1 st" "hview n3 = hview n1"
      by blast
    note i = acknowledgeRead_idle [OF taken(4)]
    from owes_logI [OF n idle_after [OF b(2) i]] b(1,3) h1 i taken(5) show ?thesis by (auto simp: idle_def)
  qed
qed

text \<open>The conditions under which an event can be persisted: its entries and its vote fit a record of the
  write-ahead log, and a campaign does not wrap the Term around. Installing a Snapshot and compacting the
  log are left out.\<close>

fun event_fits :: "Node \<Rightarrow> Event \<Rightarrow> bool" where
  "event_fits n (EvAppendEntries r) = (\<forall>e\<in>set (ae_Entries r). storable e)"
| "event_fits n (EvProposeSession p) = (length (ps_SessionID p) = 16)"
| "event_fits n (EvProposeSet p) =
     (length (pset_SessionID p) = 16 \<and> 49 + length (pset_Key p) + length (pset_Value p) < maxRecordSize)"
| "event_fits n (EvProposeDelete p) = (length (pdel_SessionID p) = 16 \<and> 49 + length (pdel_Key p) < maxRecordSize)"
| "event_fits n (EvVoteRequest r) = (length (vq_From r) + 9 \<le> maxRecordSize)"
| "event_fits n ElectionTimeout = (n_term n \<noteq> - 1 \<and> length (n_id n) + 9 \<le> maxRecordSize)"
| "event_fits n (EvPreVoteResponse r) = (n_term n \<noteq> - 1 \<and> length (n_id n) + 9 \<le> maxRecordSize)"
| "event_fits n (EvInstallSnapshot r) = (\<not> is_Installed r)"
| "event_fits n (SnapshotCompacted _ _) = False"
| "event_fits n _ = True"

text \<open>The most records an event adds to the write-ahead log.\<close>

fun event_cost :: "Event \<Rightarrow> nat" where
  "event_cost (EvAppendEntries r) = length (ae_Entries r) + 3"
| "event_cost _ = 3"

definition proposed :: "Node \<Rightarrow> Node \<Rightarrow> Action list \<Rightarrow> bool" where
  "proposed n n' as \<longleftrightarrow> idle n n' as \<or> (\<exists>pid e. proposeEntry n pid e = Some (n', as) \<and> storable e)"

lemma propose_proposed:
  "proposeSession n p1 = Some (n', as) \<Longrightarrow> event_fits n (EvProposeSession p1) \<Longrightarrow> proposed n n' as"
  "proposeSet n p2 = Some (n', as) \<Longrightarrow> event_fits n (EvProposeSet p2) \<Longrightarrow> proposed n n' as"
  "proposeDelete n p3 = Some (n', as) \<Longrightarrow> event_fits n (EvProposeDelete p3) \<Longrightarrow> proposed n n' as"
proof -
  have p: "proposed n n' as" if "proposeEntry n pid e = Some (n', as)" "storable e" for pid e
    using that by (auto simp: proposed_def)
  have i: "proposed n n' as" if "Some (n, bs) = Some (n', as)" "\<forall>a\<in>set bs. \<not> persists a" for bs
    using that by (simp add: proposed_def idle_def)
  show "proposed n n' as" if "proposeSession n p1 = Some (n', as)" "event_fits n (EvProposeSession p1)"
  proof (cases "n_role n = Leader \<and> (ps_Type p1 = EntryOpenSession \<or> ps_Type p1 = EntryCloseSession)")
    case True
    then have l: "\<not> n_role n \<noteq> Leader" "\<not> (ps_Type p1 \<noteq> EntryOpenSession \<and> ps_Type p1 \<noteq> EntryCloseSession)" by auto
    show ?thesis by (rule p [OF that(1) [unfolded proposeSession_def if_not_P [OF l(1)] if_not_P [OF l(2)]]])
        (use that(2) True in \<open>auto simp: storable_def entry_fits_def maxRecordSize_def\<close>)
  next
    case False
    then show ?thesis using that(1) i by (auto simp: proposeSession_def split: if_split_asm)
  qed
  show "proposed n n' as" if "proposeSet n p2 = Some (n', as)" "event_fits n (EvProposeSet p2)"
  proof (cases "n_role n = Leader")
    case True
    show ?thesis by (rule p [OF that(1) [unfolded proposeSet_def, simplified True, simplified]])
        (use that(2) in \<open>simp add: storable_def entry_fits_def\<close>)
  next
    case False
    then show ?thesis using that(1) i by (auto simp: proposeSet_def)
  qed
  show "proposed n n' as" if "proposeDelete n p3 = Some (n', as)" "event_fits n (EvProposeDelete p3)"
  proof (cases "n_role n = Leader")
    case True
    show ?thesis by (rule p [OF that(1) [unfolded proposeDelete_def, simplified True, simplified]])
        (use that(2) in \<open>simp add: storable_def entry_fits_def\<close>)
  next
    case False
    then show ?thesis using that(1) i by (auto simp: proposeDelete_def)
  qed
qed

lemma proposed_owes: "owes 0 n [] st \<Longrightarrow> proposed n n' as \<Longrightarrow> \<exists>b\<le>3. owes b n' as st"
  using proposeEntry_owes idle_owes unfolding proposed_def by (metis order_refl zero_le)

lemma confirmRead_idle:
  assumes "confirmRead n rid = Some (n', as)"
  shows "idle n n' as"
proof (cases "n_role n = Leader \<and> n_readReady n")
  case True
  have "idle (n\<lparr>n_pendingReads := AList.update rid
      \<lparr>pr_acknowledgements = {n_id n}, pr_commitIndex = 0, pr_confirmed = False\<rparr> (n_pendingReads n)\<rparr>) n' as"
    by (rule sendAppendEntries_idle) (use assms True in \<open>simp add: confirmRead_def\<close>)
  then show ?thesis by (rule idle_start) simp_all
next
  case False
  with assms show ?thesis by (auto simp: confirmRead_def idle_def split: if_split_asm)
qed

lemma heartbeatRound_idle: "heartbeatRound n = Some (n', as) \<Longrightarrow> idle n n' as"
  by (auto simp: heartbeatRound_def bind_eq_Some_conv idle_def dest!: sendAppendEntries_idle split: if_split_asm)

lemma checkQuorum_idle: "checkQuorum n = (n', as) \<Longrightarrow> idle n n' as"
  by (auto simp: checkQuorum_def idle_def becomeFollower_def Let_def hview_def split: if_split_asm)

lemma handleInstallSnapshotResponse_owes:
  assumes n: "owes 0 n [] st" and h: "handleInstallSnapshotResponse n r = Some (n', as)"
  shows "\<exists>b\<le>1. owes b n' as st"
proof (cases "ir_Term r > n_term n")
  case True
  with h stepDown_owes [OF n True] show ?thesis by (auto simp: handleInstallSnapshotResponse_def)
next
  case False
  with h have "idle n n' as"
    by (auto simp: handleInstallSnapshotResponse_def Let_def idle_def dest!: sendAppendEntriesTo_idle split: if_split_asm)
  then show ?thesis by (rule idle_owes_le [OF n])
qed

lemma completion_idle:
  assumes "owes 0 n [] st"
  shows "hardStatePersisted n pid = (n, [])" "logEntriesPersisted n pid = Some (n, [])"
    "commitIndexPersisted n pid = Some (n, [])"
  using owes_Nil [OF assms]
  by (auto simp: hardStatePersisted_def logEntriesPersisted_def commitIndexPersisted_def hard_current_def elim!: logOwes.cases)

lemma Step_owes:
  assumes n: "owes 0 n [] st" and wf: "wf_node n" and f: "event_fits n e" and s: "Step n e = Some (n', as)"
  shows "\<exists>b\<le>event_cost e. owes b n' as st"
proof -
  have le: "\<exists>b\<le>event_cost e. owes b n' as st" if "\<exists>b\<le>3. owes b n' as st"
  proof -
    have "3 \<le> event_cost e" by (cases e) simp_all
    then show ?thesis using that le_trans by blast
  qed
  have le1: "\<exists>b\<le>event_cost e. owes b n' as st" if "\<exists>b\<le>1. owes b n' as st"
    using that by (intro le) (meson le_trans one_le_numeral)
  have i: "\<exists>b\<le>event_cost e. owes b n' as st" if "idle n n' as" using idle_owes [OF n that] by (intro le1) blast
  show ?thesis
  proof (cases e)
    case ElectionTimeout
    then show ?thesis using s f startPreVote_owes [OF n] by (intro le1) auto
  next
    case (EvAppendEntries r)
    then show ?thesis using s f handleAppendEntries_owes [OF n wf] by auto
  next
    case (EvPreVoteResponse r)
    then show ?thesis using s f handlePreVoteResponse_owes [OF n] by (intro le1) auto
  next
    case (EvVoteRequest r)
    then show ?thesis using s f handleVoteRequest_owes [OF n] by (intro le1) auto
  next
    case (EvVoteResponse r)
    then show ?thesis using s handleVoteResponse_owes [OF n] by (intro le) auto
  next
    case (EvAppendEntriesResponse r)
    then show ?thesis using s handleAppendEntriesResponse_owes [OF n] by (intro le1) auto
  next
    case (EvInstallSnapshot r)
    then show ?thesis using s f handleInstallSnapshot_owes [OF n] by (intro le1) auto
  next
    case (EvInstallSnapshotResponse r)
    then show ?thesis using s handleInstallSnapshotResponse_owes [OF n] by (intro le1) auto
  next
    case (EvProposeSession p)
    then show ?thesis using s f by (intro le proposed_owes [OF n]) (simp add: propose_proposed)
  next
    case (EvProposeSet p)
    then show ?thesis using s f by (intro le proposed_owes [OF n]) (simp add: propose_proposed)
  next
    case (EvProposeDelete p)
    then show ?thesis using s f by (intro le proposed_owes [OF n]) (simp add: propose_proposed)
  next
    case (EvPreVoteRequest r)
    then show ?thesis using s by (intro i) (auto simp: handlePreVoteRequest_def idle_def)
  next
    case (AppendEntriesFailed t rid)
    then show ?thesis using s by (intro i) (auto simp: handleAppendEntriesFailed_def Let_def idle_def)
  qed (rule i; use s f in \<open>simp add: completion_idle [OF n] heartbeatRound_idle checkQuorum_idle applyThrough_idle confirmRead_idle\<close>)+
qed

lemma runtime_step_settles:
  assumes r: "settled u r st" and e: "event_wf (rt_core r) e" "event_fits (rt_core r) e"
    and room: "unat (w_segment (rt_wal r)) + event_cost e < 2 ^ 64"
  shows "\<exists>r' out st'. runtime_step r e = Some (r', Inr out) \<and> settled u r' st' \<and> (\<forall>a\<in>set out. \<not> persists a) \<and>
    unat (w_segment (rt_wal r')) \<le> unat (w_segment (rt_wal r)) + event_cost e \<and>
    stays st st'"
proof -
  have wf: "wf_node (rt_core r)" and o: "owes 0 (rt_core r) [] st" and ok: "wal_ok u (rt_wal r) st"
    using r by (auto simp: settled_def)
  obtain n' as where s: "Step (rt_core r) e = Some (n', as)" "step_ok (rt_core r) n' as"
    using Step_achieves [OF wf e(1)] by (auto simp: achieves_def)
  from Step_owes [OF o wf e(2) s(1)] obtain b where b: "b \<le> event_cost e" "owes b n' as st" by blast
  have "unat (w_segment (rt_wal (r\<lparr>rt_core := n'\<rparr>))) + b < 2 ^ 64" using b(1) room by simp
  from stepLoop_ends [of b "r\<lparr>rt_core := n'\<rparr>" as st u, OF _ _ _ this, of "[]"] b(2) step_ok_wf [OF s(2)] ok
  obtain r' st' out where l: "stepLoop (r\<lparr>rt_core := n'\<rparr>) as [] = Some (r', Inr out)" "settled u r' st'"
    "unat (w_segment (rt_wal r')) \<le> unat (w_segment (rt_wal r)) + b" "\<forall>a\<in>set out. \<not> persists a"
    "stays st st'" by auto
  then show ?thesis using s(1) b(1) by (intro exI [of _ r'] exI [of _ out] exI [of _ st']) (simp add: runtime_step_def)
qed

subsection \<open>Histories and restarts\<close>

fun runEvents :: "raftRuntime \<Rightarrow> Event list \<Rightarrow> raftRuntime option" where
  "runEvents r [] = Some r"
| "runEvents r (e # es) =
     (case runtime_step r e of Some (r', Inr _) \<Rightarrow> runEvents r' es | _ \<Rightarrow> None)"

text \<open>Every event is well-formed and can be persisted in the state in which it arrives.\<close>

fun admissible :: "raftRuntime \<Rightarrow> Event list \<Rightarrow> bool" where
  "admissible r [] = True"
| "admissible r (e # es) = (event_wf (rt_core r) e \<and> event_fits (rt_core r) e \<and>
     (case runtime_step r e of Some (r', Inr _) \<Rightarrow> admissible r' es | _ \<Rightarrow> True))"

lemma runEvents_settles:
  assumes "settled u r st" "admissible r es" "unat (w_segment (rt_wal r)) + sum_list (map event_cost es) < 2 ^ 64"
  shows "\<exists>r' st'. runEvents r es = Some r' \<and> settled u r' st' \<and> stays st st'"
  using assms
proof (induction es arbitrary: r st)
  case (Cons e es)
  have "unat (w_segment (rt_wal r)) + event_cost e < 2 ^ 64" using Cons.prems(3) by simp
  from runtime_step_settles [OF Cons.prems(1) _ _ this] Cons.prems(2) obtain r1 out st1 where r1:
    "runtime_step r e = Some (r1, Inr out)" "settled u r1 st1"
    "unat (w_segment (rt_wal r1)) \<le> unat (w_segment (rt_wal r)) + event_cost e" "stays st st1" by auto
  have "unat (w_segment (rt_wal r1)) + sum_list (map event_cost es) < 2 ^ 64" using r1(3) Cons.prems(3) by simp
  from Cons.IH [OF r1(2) _ this] Cons.prems(2) r1(1) obtain r' st' where
    "runEvents r1 es = Some r'" "settled u r' st'" "stays st1 st'" by auto
  with r1(1) stays_trans [OF r1(4)] show ?case by auto
qed auto

lemma open_wal_ok:
  assumes ok: "wal_ok u w st" and sz: "\<not> sz \<le> int (segmentHeaderSize + frameHeaderSize)" and t: "tornTail bs"
  shows "\<exists>w'. wal_open u (withTail bs (w_segments w)) (w_identity w) sz = Inr (w', st) \<and> wal_ok u w' st"
proof -
  obtain ss where ss: "stores w ss" "recovered u (recordsOf ss) = Inr st" using ok by (auto simp: wal_ok_def holds_def)
  then have s: "ss \<noteq> []" "\<forall>r\<in>set (recordsOf ss). fits r" "w_segments w = map segmentOf ss" by (auto simp: stores_def)
  have i: "wi_ClusterID (ws_Identity st) \<noteq> ''''" "wi_NodeID (ws_Identity st) \<noteq> ''''" using ok by (auto simp: wal_ok_def)
  note r = recoverSegments_records [OF s(1,2) t ss(2) i]
  have l: "last (map segmentOf ss) = (w_segment w, segmentBytes (snd (last ss)))"
    using ss(1) by (simp add: last_map segmentOf_def stores_def)
  obtain w' where o: "wal_open u (withTail bs (w_segments w)) (w_identity w) sz = Inr (w', st)"
    "w_segments w' = w_segments w" "w_segment w' = w_segment w" "w_offset w' = w_offset w" "w_open w'"
    "w_identity w' = w_identity w" "w_lastLogIndex w' = w_lastLogIndex w" "w_commitIndex w' = w_commitIndex w"
    "w_hardState w' = w_hardState w" "w_snapshotIndex w' = w_snapshotIndex w" "w_snapshotTerm w' = w_snapshotTerm w"
    using ok sz s r l ss(1)
    by (auto simp: wal_open_def Let_def wal_ok_def stores_def split_beta freshHandle_def walLastIndex_def)
  then have "stores w' ss" using ss(1) by (simp add: stores_def)
  then have "wal_ok u w' st" using ok ss(2) o by (auto simp: wal_ok_def holds_def)
  with o(1) show ?thesis by blast
qed

text \<open>The core built from what a write-ahead log without a Snapshot holds.\<close>

lemma recovered_settled:
  assumes ok: "wal_ok u w st" and s: "ws_SnapshotIndex st = 0" and c: "consecutive 1 (ws_Log st)"
  shows "\<exists>n. NewNodeFromRecoveredState nid peers \<lparr>rs_HardState = ws_HardState st, rs_Log = ws_Log st,
      rs_CommitIndex = ws_CommitIndex st, rs_SnapshotIndex = 0, rs_SnapshotTerm = 0\<rparr> = Some n \<and>
    settled u \<lparr>rt_core = n, rt_wal = w, rt_recoveredSnapshot = None\<rparr> st \<and> n_log n = ws_Log st \<and>
    n_term n = hs_Term (ws_HardState st) \<and> n_votedFor n = hs_VotedFor (ws_HardState st) \<and>
    n_commitIndex n = ws_CommitIndex st"
proof -
  let ?r = "\<lparr>rs_HardState = ws_HardState st, rs_Log = ws_Log st,
      rs_CommitIndex = ws_CommitIndex st, rs_SnapshotIndex = 0, rs_SnapshotTerm = 0\<rparr>"
  have b: "length (ws_Log st) < 2 ^ 64 - 1" "ws_CommitIndex st \<le> walLastIndex st" using ok s by (auto simp: wal_ok_def)
  then have "unat (ws_CommitIndex st) \<le> length (ws_Log st)"
    using unat_walLastIndex [of st] s by (simp add: word_le_nat_alt)
  then have "recovered_ok ?r" using b(1) c by (simp add: recovered_ok_def Let_def)
  from recovered_wf [OF this] obtain n where n: "NewNodeFromRecoveredState nid peers ?r = Some n" "wf_node n" by blast
  then have f: "n_log n = ws_Log st" "n_term n = hs_Term (ws_HardState st)" "n_votedFor n = hs_VotedFor (ws_HardState st)"
    "n_commitIndex n = ws_CommitIndex st" "n_durableTerm n = n_term n" "n_durableVotedFor n = n_votedFor n"
    "n_pendingHardState n = Map.empty" "n_pendingLog n = Map.empty" "n_pendingCommit n = Map.empty"
    "n_durableCommitIndex n = n_commitIndex n" "n_logBaseIndex n = 0"
    by (auto simp: NewNodeFromRecoveredState_def Let_def split: list.splits if_splits)
  have "owes 0 n [] st"
    using f s by (intro owes.log logOwes.nothing) (simp_all add: hard_current_def hard_durable_def)
  with n f ok show ?thesis by (auto simp: settled_def)
qed

lemma LoadNewest_empty: "LoadNewest v emptyDir c = Inr None"
  by (simp add: LoadNewest_def globFiles_def emptyDir_def)

lemma openRaftRuntime_settled:
  assumes o: "Open u segments (walIdentityOf cfg) = Inr (w, st)" and ok: "wal_ok u w st"
    and s: "ws_SnapshotIndex st = 0" "consecutive 1 (ws_Log st)" and k: "\<forall>e\<in>set (ws_Log st). e_Type e \<le> EntryDelete"
  shows "\<exists>r. openRaftRuntime u v cfg peers segments emptyDir = Some (Inr r) \<and> settled u r st \<and> n_log (rt_core r) = ws_Log st \<and>
    n_term (rt_core r) = hs_Term (ws_HardState st) \<and> n_votedFor (rt_core r) = hs_VotedFor (ws_HardState st) \<and>
    n_commitIndex (rt_core r) = ws_CommitIndex st \<and> rt_wal r = w"
proof -
  have "find (\<lambda>entry. e_Type entry > EntryDelete) (ws_Log st) = None" using k by (auto simp: find_None_iff)
  with recovered_settled [OF ok s, of "nc_ID (cfg_Node cfg)" peers] o show ?thesis
    by (auto simp: openRaftRuntime_def walIdentityOf_def LoadNewest_empty)
qed

lemma fresh_runtime:
  assumes "openRaftRuntime u v cfg peers [] emptyDir = Some (Inr r)"
  shows "\<exists>st. settled u r st \<and> ws_SnapshotIndex st = 0 \<and> unat (w_segment (rt_wal r)) \<le> 3 \<and>
    ws_Identity st = walIdentityOf cfg \<and> ws_Log st = []"
proof -
  from assms obtain w st where o: "Open u [] (walIdentityOf cfg) = Inr (w, st)"
    by (auto simp: openRaftRuntime_def walIdentityOf_def split: sum.splits)
  note f = open_fresh [OF o [unfolded Open_def]]
  then have st: "wal_ok u w st" "ws_SnapshotIndex st = 0" "ws_Log st = []" "ws_Identity st = walIdentityOf cfg" "unat (w_segment w) \<le> 3"
    by (auto simp: emptyState_def)
  from openRaftRuntime_settled [OF o st(1,2), of v peers] st assms show ?thesis by auto
qed

text \<open>Between events the handle of the write-ahead log shows the state of the core.\<close>

lemma settled_mirrors:
  assumes "settled u r st"
  shows "w_hardState (rt_wal r) = current (rt_core r)" "w_commitIndex (rt_wal r) = n_commitIndex (rt_core r)"
    "w_lastLogIndex (rt_wal r) = n_lastLogIndex (rt_core r)" "ws_Log st = n_log (rt_core r)"
    "ws_HardState st = current (rt_core r)" "ws_CommitIndex st = n_commitIndex (rt_core r)"
    "ws_SnapshotIndex st = n_logBaseIndex (rt_core r)"
proof -
  have ok: "wal_ok u (rt_wal r) st" and wf: "log_ok (rt_core r)" and h: "hard_current (rt_core r)" "hard_durable (rt_core r) st"
    and l: "logOwes 0 (rt_core r) [] st"
    using assms owes_Nil [of 0 "rt_core r" st] by (auto simp: settled_def wf_node_def)
  from l have e: "ws_Log st = n_log (rt_core r)" "ws_CommitIndex st = n_commitIndex (rt_core r)"
    "ws_SnapshotIndex st = n_logBaseIndex (rt_core r)" by (auto elim: logOwes.cases)
  with ok wf h show "w_hardState (rt_wal r) = current (rt_core r)" "w_commitIndex (rt_wal r) = n_commitIndex (rt_core r)"
    "w_lastLogIndex (rt_wal r) = n_lastLogIndex (rt_core r)" "ws_Log st = n_log (rt_core r)"
    "ws_HardState st = current (rt_core r)" "ws_CommitIndex st = n_commitIndex (rt_core r)"
    "ws_SnapshotIndex st = n_logBaseIndex (rt_core r)"
    by (auto simp: wal_ok_def hard_current_def hard_durable_def current_def log_ok_def walLastIndex_def)
qed

lemma fresh_history:
  assumes "openRaftRuntime u v cfg peers [] emptyDir = Some (Inr r0)" "admissible r0 es" "sum_list (map event_cost es) < 2 ^ 63"
  shows "\<exists>r st. runEvents r0 es = Some r \<and> settled u r st \<and> ws_SnapshotIndex st = 0 \<and> ws_Identity st = walIdentityOf cfg \<and>
    (\<forall>e\<in>set (ws_Log st). e_Type e \<le> EntryDelete)"
proof -
  from fresh_runtime [OF assms(1)] obtain st0 where f: "settled u r0 st0" "ws_SnapshotIndex st0 = 0"
    "unat (w_segment (rt_wal r0)) \<le> 3" "ws_Identity st0 = walIdentityOf cfg" "ws_Log st0 = []" by blast
  have "unat (w_segment (rt_wal r0)) + sum_list (map event_cost es) < 2 ^ 64" using f(3) assms(3) by simp
  from runEvents_settles [OF f(1) assms(2) this] obtain r st where
    "runEvents r0 es = Some r" "settled u r st" "stays st0 st" by blast
  with f(2,4,5) show ?thesis by (auto simp: stays_def)
qed

text \<open>C35. The persistence loop of \<^verbatim>\<open>raftRuntime.step\<close> always ends, and without a storage error. A Node that
  starts on an empty data directory gets through every sequence of events whose entries, votes and names fit a
  record, and then the write-ahead log's handle holds the Term and vote, commit index
  and last log index of the core. Events that install or compact a Snapshot are excluded.\<close>

theorem persistence_loop_ends:
  assumes "openRaftRuntime u v cfg peers [] emptyDir = Some (Inr r0)" and "admissible r0 es"
    and "sum_list (map event_cost es) < 2 ^ 63"
  shows "\<exists>r. runEvents r0 es = Some r \<and>
    w_hardState (rt_wal r) = \<lparr>hs_Term = n_term (rt_core r), hs_VotedFor = n_votedFor (rt_core r)\<rparr> \<and>
    w_commitIndex (rt_wal r) = n_commitIndex (rt_core r) \<and> w_lastLogIndex (rt_wal r) = n_lastLogIndex (rt_core r)"
  using fresh_history [OF assms] settled_mirrors by (auto simp: current_def)

text \<open>C36. A restart loses nothing, as long as no Snapshot was taken or received. Whenever a Node that started on an empty
  data directory and went through events other than the installation or compaction of a Snapshot stops
  between two of them, even if the process died in the middle of writing one more record, \<^verbatim>\<open>openRaftRuntime\<close>
  on its files yields a core with the same Term, vote, log and commit index, and the write-ahead log in the same
  state. With Snapshots this is not so: see the properties on compaction and on received Snapshots.\<close>

theorem restart_loses_nothing:
  assumes "openRaftRuntime u v cfg peers [] emptyDir = Some (Inr r0)" and "admissible r0 es"
    and "sum_list (map event_cost es) < 2 ^ 63" and "runEvents r0 es = Some r" and "tornTail bs"
  shows "\<exists>r'. openRaftRuntime u v cfg peers (withTail bs (w_segments (rt_wal r))) emptyDir = Some (Inr r') \<and>
    n_term (rt_core r') = n_term (rt_core r) \<and> n_votedFor (rt_core r') = n_votedFor (rt_core r) \<and>
    n_log (rt_core r') = n_log (rt_core r) \<and> n_commitIndex (rt_core r') = n_commitIndex (rt_core r) \<and>
    w_hardState (rt_wal r') = w_hardState (rt_wal r) \<and> w_commitIndex (rt_wal r') = w_commitIndex (rt_wal r) \<and>
    w_lastLogIndex (rt_wal r') = w_lastLogIndex (rt_wal r)"
proof -
  from fresh_history [OF assms(1-3)] assms(4) obtain st where st: "settled u r st" "ws_SnapshotIndex st = 0"
    "ws_Identity st = walIdentityOf cfg" "\<forall>e\<in>set (ws_Log st). e_Type e \<le> EntryDelete" by auto
  note m = settled_mirrors [OF st(1)]
  have ok: "wal_ok u (rt_wal r) st" and wf: "log_ok (rt_core r)" using st(1) by (auto simp: settled_def wf_node_def)
  have c: "consecutive 1 (ws_Log st)" using wf m(4,7) st(2) by (simp add: log_ok_def)
  have "w_identity (rt_wal r) = walIdentityOf cfg" using ok st(3) by (simp add: wal_ok_def)
  with open_wal_ok [OF ok _ assms(5), of "int defaultSegmentSize"] obtain w' where
    w': "Open u (withTail bs (w_segments (rt_wal r))) (walIdentityOf cfg) = Inr (w', st)" "wal_ok u w' st"
    by (auto simp: Open_def defaultSegmentSize_def segmentHeaderSize_def segmentMagic_def frameHeaderSize_def)
  from openRaftRuntime_settled [OF w' st(2) c st(4), of v peers] obtain r' where r':
    "openRaftRuntime u v cfg peers (withTail bs (w_segments (rt_wal r))) emptyDir = Some (Inr r')" "settled u r' st"
    "n_log (rt_core r') = ws_Log st" "n_term (rt_core r') = hs_Term (ws_HardState st)"
    "n_votedFor (rt_core r') = hs_VotedFor (ws_HardState st)" "n_commitIndex (rt_core r') = ws_CommitIndex st" by blast
  have "w_lastLogIndex (rt_wal r') = w_lastLogIndex (rt_wal r)" using ok r'(2) by (simp add: settled_def wal_ok_def)
  with r' m settled_mirrors [OF r'(2)] show ?thesis by (auto simp: current_def)
qed

text \<open>A short life of a follower: it votes, takes an entry of its Leader and learns that it is committed.\<close>

definition sample_append :: "LogEntry list \<Rightarrow> u64 \<Rightarrow> u64 \<Rightarrow> Event" where
  "sample_append es prev lc = EvAppendEntries \<lparr>ae_From = ''n1'', ae_Term = 3, ae_RequestID = 1, ae_PrevLogIndex = prev,
     ae_PrevLogTerm = 3, ae_Entries = es, ae_LeaderCommit = lc, ae_ReadID = 0\<rparr>"

definition sample_events :: "Event list" where
  "sample_events =
     [EvVoteRequest \<lparr>vq_From = ''n1'', vq_Term = 3, vq_LastLogIndex = 0, vq_LastLogTerm = 0\<rparr>,
      sample_append [sample_entry 1 3] 0 0, sample_append [] 1 1]"

lemma sample_events_admissible: "admissible r sample_events"
  by (simp add: sample_events_def sample_append_def sample_entry_def request_ok_def consecutive_Cons storable_def
      entry_fits_def maxRecordSize_def split: option.split sum.split)

lemma sample_runtime_opens:
  "\<exists>r. openRaftRuntime (\<lambda>_. None) (\<lambda>_. None) sample_config [''n1'', ''n3''] [] emptyDir = Some (Inr r)"
proof -
  obtain w where o: "Open (\<lambda>_. None) [] (walIdentityOf sample_config) = Inr (w, emptyState (walIdentityOf sample_config))"
    "wal_ok (\<lambda>_. None) w (emptyState (walIdentityOf sample_config))" using sample_wal_opens by blast
  have "ws_SnapshotIndex (emptyState (walIdentityOf sample_config)) = 0" "ws_Log (emptyState (walIdentityOf sample_config)) = []"
    by (simp_all add: emptyState_def)
  from openRaftRuntime_settled [OF o this(1)] this(2) show ?thesis by force
qed

theorem persistence_loop_ends_witness:
  "\<exists>r0 r. openRaftRuntime (\<lambda>_. None) (\<lambda>_. None) sample_config [''n1'', ''n3''] [] emptyDir = Some (Inr r0) \<and>
     runEvents r0 sample_events = Some r \<and> w_commitIndex (rt_wal r) = n_commitIndex (rt_core r)"
proof -
  obtain r0 where o: "openRaftRuntime (\<lambda>_. None) (\<lambda>_. None) sample_config [''n1'', ''n3''] [] emptyDir = Some (Inr r0)"
    using sample_runtime_opens by blast
  have "sum_list (map event_cost sample_events) < 2 ^ 63" by (simp add: sample_events_def sample_append_def)
  from persistence_loop_ends [OF o sample_events_admissible this] o show ?thesis by blast
qed

theorem restart_loses_nothing_witness:
  "\<exists>r0 r r'. openRaftRuntime (\<lambda>_. None) (\<lambda>_. None) sample_config [''n1'', ''n3''] [] emptyDir = Some (Inr r0) \<and>
     runEvents r0 sample_events = Some r \<and>
     openRaftRuntime (\<lambda>_. None) (\<lambda>_. None) sample_config [''n1'', ''n3''] (withTail [] (w_segments (rt_wal r))) emptyDir =
       Some (Inr r') \<and> n_votedFor (rt_core r') = n_votedFor (rt_core r)"
proof -
  obtain r0 where o: "openRaftRuntime (\<lambda>_. None) (\<lambda>_. None) sample_config [''n1'', ''n3''] [] emptyDir = Some (Inr r0)"
    using sample_runtime_opens by blast
  have c: "sum_list (map event_cost sample_events) < 2 ^ 63" by (simp add: sample_events_def sample_append_def)
  from fresh_history [OF o sample_events_admissible c] obtain r where r: "runEvents r0 sample_events = Some r" by blast
  from restart_loses_nothing [OF o sample_events_admissible c r tornTail_Nil] o r show ?thesis by blast
qed

end
