(* ===== verification/Node_Api.thy ===== *)
theory Node_Api
  imports Durable_Runtime
begin

text \<open>
  The request handlers of a Node, \<^verbatim>\<open>set.go\<close>, \<^verbatim>\<open>get.go\<close>, \<^verbatim>\<open>delete.go\<close>, \<^verbatim>\<open>validation.go\<close>, the second half
  of \<^verbatim>\<open>session.go\<close>, \<^verbatim>\<open>CreateSnapshot\<close> and \<^verbatim>\<open>GetStatus\<close> in \<^verbatim>\<open>src/internal/node\<close>. A handler reads the published
  state, hands at most one input to the runtime loop and turns the answer into a response or a status
  error. What the two \<^verbatim>\<open>select\<close> statements of a handler saw is an argument; the text of an error is left
  out, its code and details are kept.

  Shown here: what each handler lets through, which proposals the coordinator keeps from Raft, and that every other
  becomes one entry that fits a record of the write-ahead log and a replication batch.
\<close>

subsection \<open>Errors\<close>

datatype ContextError = Canceled | DeadlineExceeded

datatype ApiError =
    InvalidField string \<comment> \<open>\<^verbatim>\<open>InvalidArgument\<close> with the field\<close>
  | LeaderUnknown \<comment> \<open>\<^verbatim>\<open>Unavailable\<close>\<close>
  | LeaderNotConfigured NodeID \<comment> \<open>\<^verbatim>\<open>Unavailable\<close>\<close>
  | NotLeader NodeID string \<comment> \<open>\<^verbatim>\<open>FailedPrecondition\<close> with the Leader and its client address\<close>
  | SessionLimit int \<comment> \<open>\<^verbatim>\<open>ResourceExhausted\<close>\<close>
  | InvalidSessionUnknown SessionID \<comment> \<open>\<^verbatim>\<open>NotFound\<close>\<close>
  | InvalidSessionClosed SessionID \<comment> \<open>\<^verbatim>\<open>FailedPrecondition\<close>\<close>
  | SessionExists \<comment> \<open>\<^verbatim>\<open>AlreadyExists\<close>\<close>
  | StaleSequence u64 u64 \<comment> \<open>\<^verbatim>\<open>FailedPrecondition\<close> with the received and the last sequence\<close>
  | OutOfOrderSequence u64 u64 \<comment> \<open>\<^verbatim>\<open>FailedPrecondition\<close> with the received and the next sequence\<close>
  | KeyNotFound string \<comment> \<open>\<^verbatim>\<open>NotFound\<close>\<close>
  | NoEntropy \<comment> \<open>\<^verbatim>\<open>Internal\<close>\<close>
  | NodeStopping \<comment> \<open>\<^verbatim>\<open>Unavailable\<close>: the input was not taken\<close>
  | NodeStopped \<comment> \<open>\<^verbatim>\<open>Unavailable\<close>: no answer came\<close>
  | ContextEnded ContextError

subsection \<open>Validation\<close>

definition maxKeyBytes :: nat where
  "maxKeyBytes = 1024"

definition maxValueBytes :: nat where
  "maxValueBytes = 2 ^ 20"

definition validateKey :: "string \<Rightarrow> ApiError option" where
  "validateKey key =
     (if key = '''' then Some (InvalidField ''key'')
      else if \<not> ValidString key then Some (InvalidField ''key'')
      else if length key > maxKeyBytes then Some (InvalidField ''key'')
      else None)"

definition validateMutation :: "byte list \<Rightarrow> u64 \<Rightarrow> string \<Rightarrow> ApiError option" where
  "validateMutation sessionID sequence key =
     (if length sessionID \<noteq> 16 then Some (InvalidField ''session_id'')
      else if sequence = 0 then Some (InvalidField ''sequence'')
      else validateKey key)"

subsection \<open>The state the handlers see\<close>

record ApiNode =
  an_config :: Config
  an_ready :: bool
  an_raftState :: State
  an_nextProposal :: u64
  an_nextRead :: u64

definition emptyResult :: proposalResult where
  "emptyResult = \<lparr>res_sessionID = zeroSessionID, res_failure = sessionSucceeded, res_sequence = 0, res_wantSequence = 0,
     res_leaderID = '''', res_rejected = False, res_existed = False\<rparr>"

definition rejectIfNotLeader :: "ApiNode \<Rightarrow> proposalResult option" where
  "rejectIfNotLeader n =
     (if st_Role (an_raftState n) = Leader then None
      else Some (emptyResult\<lparr>res_leaderID := st_LeaderID (an_raftState n), res_rejected := True\<rparr>))"

text \<open>The first half of \<^verbatim>\<open>proposalError\<close>: where a refused Client is sent.\<close>

definition leaderError :: "ApiNode \<Rightarrow> NodeID \<Rightarrow> ApiError" where
  "leaderError n leaderID =
     (if leaderID = '''' then LeaderUnknown
      else (case map_of (cfg_Members (an_config n)) leaderID of
              None \<Rightarrow> LeaderNotConfigured leaderID
            | Some leader \<Rightarrow> NotLeader leaderID (mb_ClientAddress leader)))"

definition proposalError :: "ApiNode \<Rightarrow> proposalResult \<Rightarrow> ApiError option" where
  "proposalError n result =
     (if res_rejected result then Some (leaderError n (res_leaderID result))
      else (case res_failure result of
              sessionSucceeded \<Rightarrow> None
            | sessionLimitReached \<Rightarrow> Some (SessionLimit (cfg_ActiveSessionLimit (an_config n)))
            | sessionUnknown \<Rightarrow> Some (InvalidSessionUnknown (res_sessionID result))
            | sessionClosed \<Rightarrow> Some (InvalidSessionClosed (res_sessionID result))
            | sessionAlreadyExists \<Rightarrow> Some SessionExists
            | sessionStaleSequence \<Rightarrow> Some (StaleSequence (res_sequence result) (res_wantSequence result))
            | sessionOutOfOrderSequence \<Rightarrow> Some (OutOfOrderSequence (res_sequence result) (res_wantSequence result))))"

subsection \<open>Handing a request to the loop\<close>

text \<open>What the two \<^verbatim>\<open>select\<close> statements saw: the loop took the input and answered, or the Node stopped or
  the request context ended before or after the input was taken.\<close>

datatype 'r Wait =
    Answered 'r | StoppedBefore | EndedBefore ContextError | StoppedWaiting | EndedWaiting ContextError

text \<open>Whether the loop has the input.\<close>

fun taken_by_loop :: "'r Wait \<Rightarrow> bool" where
  "taken_by_loop StoppedBefore = False"
| "taken_by_loop (EndedBefore _) = False"
| "taken_by_loop _ = True"

fun awaited :: "'r Wait \<Rightarrow> ApiError + 'r" where
  "awaited (Answered r) = Inr r"
| "awaited StoppedBefore = Inl NodeStopping"
| "awaited (EndedBefore err) = Inl (ContextEnded err)"
| "awaited StoppedWaiting = Inl NodeStopped"
| "awaited (EndedWaiting err) = Inl (ContextEnded err)"

text \<open>\<^verbatim>\<open>propose\<close>: the event offered to the loop and the answer of the handler.\<close>

definition propose :: "proposalResult Wait \<Rightarrow> Event \<Rightarrow> Event option \<times> (ApiError + proposalResult)" where
  "propose wait event = (if taken_by_loop wait then Some event else None, awaited wait)"

text \<open>The outcome of a mutation: the error of the wait, or that of the result.\<close>

definition finish :: "ApiNode \<Rightarrow> ApiError + proposalResult \<Rightarrow> ApiError + proposalResult" where
  "finish n r = (case r of
     Inl err \<Rightarrow> Inl err
   | Inr result \<Rightarrow> (case proposalError n result of Some err \<Rightarrow> Inl err | None \<Rightarrow> Inr result))"

subsection \<open>The handlers\<close>

text \<open>A handler returns the Node's counters, the input it handed over and its response.\<close>

record SetRequest =
  sr_SessionId :: "byte list"
  sr_Sequence :: u64
  sr_Key :: string
  sr_Value :: "byte list"

record DeleteRequest =
  dr_SessionId :: "byte list"
  dr_Sequence :: u64
  dr_Key :: string

definition api_Set :: "ApiNode \<Rightarrow> SetRequest \<Rightarrow> proposalResult Wait \<Rightarrow> ApiNode \<times> Event option \<times> (ApiError + unit)" where
  "api_Set n request wait =
     (case validateMutation (sr_SessionId request) (sr_Sequence request) (sr_Key request) of
        Some err \<Rightarrow> (n, None, Inl err)
      | None \<Rightarrow>
          if length (sr_Value request) > maxValueBytes then (n, None, Inl (InvalidField ''value''))
          else (case rejectIfNotLeader n of
                  Some result \<Rightarrow> (n, None, Inl (leaderError n (res_leaderID result)))
                | None \<Rightarrow>
                    let n = n\<lparr>an_nextProposal := an_nextProposal n + 1\<rparr>;
                        (event, r) = propose wait (EvProposeSet
                          \<lparr>pset_ProposalID = an_nextProposal n, pset_SessionID = copySession (sr_SessionId request),
                           pset_Sequence = sr_Sequence request, pset_Key = sr_Key request, pset_Value = sr_Value request\<rparr>)
                    in (n, event, map_sum id (\<lambda>_. ()) (finish n r))))"

definition api_Delete :: "ApiNode \<Rightarrow> DeleteRequest \<Rightarrow> proposalResult Wait \<Rightarrow> ApiNode \<times> Event option \<times> (ApiError + bool)" where
  "api_Delete n request wait =
     (case validateMutation (dr_SessionId request) (dr_Sequence request) (dr_Key request) of
        Some err \<Rightarrow> (n, None, Inl err)
      | None \<Rightarrow>
          (case rejectIfNotLeader n of
             Some result \<Rightarrow> (n, None, Inl (leaderError n (res_leaderID result)))
           | None \<Rightarrow>
               let n = n\<lparr>an_nextProposal := an_nextProposal n + 1\<rparr>;
                   (event, r) = propose wait (EvProposeDelete
                     \<lparr>pdel_ProposalID = an_nextProposal n, pdel_SessionID = copySession (dr_SessionId request),
                      pdel_Sequence = dr_Sequence request, pdel_Key = dr_Key request\<rparr>)
               in (n, event, map_sum id res_existed (finish n r))))"

definition api_proposeSession :: "ApiNode \<Rightarrow> EntryType \<Rightarrow> SessionID \<Rightarrow> proposalResult Wait \<Rightarrow>
    ApiNode \<times> Event option \<times> (ApiError + proposalResult)" where
  "api_proposeSession n entryType sessionID wait =
     (let n = n\<lparr>an_nextProposal := an_nextProposal n + 1\<rparr>;
          (event, r) = propose wait (EvProposeSession
            \<lparr>ps_ProposalID = an_nextProposal n, ps_Type = entryType, ps_SessionID = sessionID\<rparr>)
      in (n, event, finish n r))"

text \<open>\<open>entropy\<close> are the sixteen bytes \<^verbatim>\<open>crypto/rand\<close> delivers, or nothing when it fails.\<close>

definition api_OpenSession :: "ApiNode \<Rightarrow> byte list option \<Rightarrow> proposalResult Wait \<Rightarrow>
    ApiNode \<times> Event option \<times> (ApiError + SessionID)" where
  "api_OpenSession n entropy wait =
     (case rejectIfNotLeader n of
        Some result \<Rightarrow> (n, None, Inl (leaderError n (res_leaderID result)))
      | None \<Rightarrow>
          (case entropy of
             None \<Rightarrow> (n, None, Inl NoEntropy)
           | Some bytes \<Rightarrow>
               let (n, event, r) = api_proposeSession n EntryOpenSession (copySession bytes) wait
               in (n, event, map_sum id res_sessionID r)))"

definition api_CloseSession :: "ApiNode \<Rightarrow> byte list \<Rightarrow> proposalResult Wait \<Rightarrow> ApiNode \<times> Event option \<times> (ApiError + unit)" where
  "api_CloseSession n sessionId wait =
     (if length sessionId \<noteq> 16 then (n, None, Inl (InvalidField ''session_id''))
      else (case rejectIfNotLeader n of
              Some result \<Rightarrow> (n, None, Inl (leaderError n (res_leaderID result)))
            | None \<Rightarrow>
                let (n, event, r) = api_proposeSession n EntryCloseSession (copySession sessionId) wait
                in (n, event, map_sum id (\<lambda>_. ()) r)))"

definition api_Get :: "ApiNode \<Rightarrow> string \<Rightarrow> readResult Wait \<Rightarrow> ApiNode \<times> ReadID option \<times> (ApiError + byte list)" where
  "api_Get n key wait =
     (case validateKey key of
        Some err \<Rightarrow> (n, None, Inl err)
      | None \<Rightarrow>
          (case rejectIfNotLeader n of
             Some result \<Rightarrow> (n, None, Inl (leaderError n (res_leaderID result)))
           | None \<Rightarrow>
               let n = n\<lparr>an_nextRead := an_nextRead n + 1\<rparr>;
                   offered = (if taken_by_loop wait then Some (an_nextRead n) else None)
               in case awaited wait of
                    Inl err \<Rightarrow> (n, offered, Inl err)
                  | Inr result \<Rightarrow>
                      if rd_rejected result
                      then (n, offered, Inl (leaderError n (rd_leaderID result)))
                      else if \<not> rd_found result then (n, offered, Inl (KeyNotFound key))
                      else (n, offered, Inr (rd_value result))))"

text \<open>\<^verbatim>\<open>CreateSnapshot\<close>: the answer of the loop is nothing on success.\<close>

definition api_CreateSnapshot :: "'e option Wait \<Rightarrow> ApiError + 'e option" where
  "api_CreateSnapshot wait = awaited wait"

text \<open>The status of a Node; the enumerations are those of the protocol definition.\<close>

datatype RaftRole = RAFT_ROLE_FOLLOWER | RAFT_ROLE_PRE_CANDIDATE | RAFT_ROLE_CANDIDATE | RAFT_ROLE_LEADER

datatype NodeState = NODE_STATE_STARTING | NODE_STATE_READY

fun encodeRole :: "Role \<Rightarrow> RaftRole" where
  "encodeRole Follower = RAFT_ROLE_FOLLOWER"
| "encodeRole PreCandidate = RAFT_ROLE_PRE_CANDIDATE"
| "encodeRole Candidate = RAFT_ROLE_CANDIDATE"
| "encodeRole Leader = RAFT_ROLE_LEADER"

record GetStatusResponse =
  gs_ClusterId :: string
  gs_NodeId :: string
  gs_State :: NodeState
  gs_PeerAddress :: string
  gs_ClientAddress :: string
  gs_Role :: RaftRole
  gs_LeaderId :: string
  gs_Term :: u64
  gs_LastLogIndex :: u64
  gs_CommitIndex :: u64
  gs_LastApplied :: u64
  gs_SnapshotIndex :: u64

definition api_GetStatus :: "ApiNode \<Rightarrow> GetStatusResponse" where
  "api_GetStatus n =
     (let local = LocalMember (an_config n); raftState = an_raftState n in
      \<lparr>gs_ClusterId = cfg_ClusterID (an_config n), gs_NodeId = nc_ID (cfg_Node (an_config n)),
       gs_State = (if an_ready n then NODE_STATE_READY else NODE_STATE_STARTING),
       gs_PeerAddress = mb_PeerAddress local, gs_ClientAddress = mb_ClientAddress local,
       gs_Role = encodeRole (st_Role raftState), gs_LeaderId = st_LeaderID raftState, gs_Term = st_Term raftState,
       gs_LastLogIndex = st_LastLogIndex raftState, gs_CommitIndex = st_CommitIndex raftState,
       gs_LastApplied = st_LastApplied raftState, gs_SnapshotIndex = st_SnapshotIndex raftState\<rparr>)"

text \<open>\<^verbatim>\<open>New\<close>: a Node that has not opened its files.\<close>

definition api_New :: "Config \<Rightarrow> ApiNode" where
  "api_New cfg = \<lparr>an_config = cfg, an_ready = False,
     an_raftState = \<lparr>st_ID = nc_ID (cfg_Node cfg), st_Role = Follower, st_Term = 0, st_VotedFor = '''', st_LeaderID = '''',
       st_LastLogIndex = 0, st_LastLogTerm = 0, st_CommitIndex = 0, st_LastApplied = 0, st_LastAppliedTerm = 0,
       st_SnapshotIndex = 0, st_ReadReady = False\<rparr>,
     an_nextProposal = 0, an_nextRead = 0\<rparr>"

subsection \<open>What the handlers let through\<close>

lemma validateKey_None: "validateKey key = None \<longleftrightarrow> key \<noteq> '''' \<and> ValidString key \<and> length key \<le> maxKeyBytes"
  by (auto simp: validateKey_def)

lemma validateMutation_None:
  "validateMutation sid q key = None \<longleftrightarrow> length sid = 16 \<and> q \<noteq> 0 \<and> key \<noteq> '''' \<and> ValidString key \<and> length key \<le> maxKeyBytes"
  by (auto simp: validateMutation_def validateKey_None)

lemma copySession_16: "length bs = 16 \<Longrightarrow> copySession bs = bs"
  by (simp add: copySession_def zeroSessionID_def)

lemma rejectIfNotLeader_None: "rejectIfNotLeader n = None \<longleftrightarrow> st_Role (an_raftState n) = Leader"
  by (simp add: rejectIfNotLeader_def)

text \<open>An event some request handler hands to the loop; \<^verbatim>\<open>crypto/rand\<close> fills the sixteen bytes it is given.\<close>

definition handed_over :: "ApiNode \<Rightarrow> Event \<Rightarrow> bool" where
  "handed_over n e \<longleftrightarrow>
     (\<exists>rq w n' r. api_Set n rq w = (n', Some e, r)) \<or> (\<exists>rq w n' r. api_Delete n rq w = (n', Some e, r)) \<or>
     (\<exists>bs w n' r. length bs = 16 \<and> api_OpenSession n (Some bs) w = (n', Some e, r)) \<or>
     (\<exists>sid w n' r. api_CloseSession n sid w = (n', Some e, r))"

lemma propose_event: "propose w e = (Some e', r) \<Longrightarrow> e' = e"
  by (simp add: propose_def split: if_splits)

lemma api_Set_event:
  assumes "api_Set n rq w = (n', Some e, r)"
  shows "\<exists>p. e = EvProposeSet p \<and> st_Role (an_raftState n) = Leader \<and> length (pset_SessionID p) = 16 \<and> pset_Sequence p \<noteq> 0 \<and>
    length (pset_Key p) \<le> maxKeyBytes \<and> length (pset_Value p) \<le> maxValueBytes"
  using assms
  by (auto simp: api_Set_def validateMutation_None rejectIfNotLeader_None copySession_16 Let_def split: option.splits if_splits prod.splits
      dest!: propose_event)

lemma api_Delete_event:
  assumes "api_Delete n rq w = (n', Some e, r)"
  shows "\<exists>p. e = EvProposeDelete p \<and> st_Role (an_raftState n) = Leader \<and> length (pdel_SessionID p) = 16 \<and> pdel_Sequence p \<noteq> 0 \<and>
    length (pdel_Key p) \<le> maxKeyBytes"
  using assms
  by (auto simp: api_Delete_def validateMutation_None rejectIfNotLeader_None copySession_16 Let_def split: option.splits if_splits prod.splits
      dest!: propose_event)

lemma api_session_event:
  assumes "api_OpenSession n (Some bs) w = (n', Some e, r) \<and> length bs = 16 \<or> api_CloseSession n sid w = (n', Some e, r1)"
  shows "\<exists>p. e = EvProposeSession p \<and> st_Role (an_raftState n) = Leader \<and> length (ps_SessionID p) = 16 \<and>
    (ps_Type p = EntryOpenSession \<or> ps_Type p = EntryCloseSession)"
  using assms
  by (auto simp: api_OpenSession_def api_CloseSession_def api_proposeSession_def rejectIfNotLeader_None copySession_16 Let_def
      split: option.splits if_splits prod.splits dest!: propose_event)

lemma proposeEntry_appends:
  "\<exists>m' as. proposeEntry m pid entry = Some (m', as) \<and> n_log m' = n_log m @ [entry]"
  by (simp add: proposeEntry_def appendEntries_def persistLog_def Let_def)

lemma appends_one:
  assumes "R" "event_fits m e" "Step m e = proposeEntry m pid x" "storable x" "e_Index x = n_lastLogIndex m + 1"
    "e_Term x = n_term m" "entryBytes x \<le> maxAppendEntriesBytes"
  shows "R \<and> event_fits m e \<and> (\<exists>m' as entry. Step m e = Some (m', as) \<and> n_log m' = n_log m @ [entry] \<and> storable entry \<and>
      e_Index entry = n_lastLogIndex m + 1 \<and> e_Term entry = n_term m \<and> entryBytes entry \<le> maxAppendEntriesBytes)"
  using proposeEntry_appends [of m pid x] assms by auto

lemma handed_over_appends:
  assumes "handed_over n e" and "n_role m = Leader"
  shows "st_Role (an_raftState n) = Leader \<and> event_fits m e \<and>
    (\<exists>m' as entry. Step m e = Some (m', as) \<and> n_log m' = n_log m @ [entry] \<and> storable entry \<and>
      e_Index entry = n_lastLogIndex m + 1 \<and> e_Term entry = n_term m \<and> entryBytes entry \<le> maxAppendEntriesBytes)"
proof -
  note sizes = maxKeyBytes_def maxValueBytes_def maxRecordSize_def maxAppendEntriesBytes_def entryBytes_def
    storable_def entry_fits_def
  from assms(1) consider (Set) rq w n' r where "api_Set n rq w = (n', Some e, r)"
    | (Delete) rq w n' r where "api_Delete n rq w = (n', Some e, r)"
    | (Session) bs w n' r sid r1 where "api_OpenSession n (Some bs) w = (n', Some e, r) \<and> length bs = 16 \<or>
        api_CloseSession n sid w = (n', Some e, r1)"
    unfolding handed_over_def by blast
  then show ?thesis
  proof cases
    case Set
    from api_Set_event [OF this] obtain p where p: "e = EvProposeSet p" "st_Role (an_raftState n) = Leader"
      "length (pset_SessionID p) = 16" "length (pset_Key p) \<le> maxKeyBytes" "length (pset_Value p) \<le> maxValueBytes" by blast
    show ?thesis
      by (rule appends_one [where pid = "pset_ProposalID p"]) (use p assms(2) in \<open>auto simp: proposeSet_def sizes\<close>)
  next
    case Delete
    from api_Delete_event [OF this] obtain p where p: "e = EvProposeDelete p" "st_Role (an_raftState n) = Leader"
      "length (pdel_SessionID p) = 16" "length (pdel_Key p) \<le> maxKeyBytes" by blast
    show ?thesis
      by (rule appends_one [where pid = "pdel_ProposalID p"]) (use p assms(2) in \<open>auto simp: proposeDelete_def sizes\<close>)
  next
    case Session
    from api_session_event [OF this] obtain p where p: "e = EvProposeSession p" "st_Role (an_raftState n) = Leader"
      "length (ps_SessionID p) = 16" "ps_Type p = EntryOpenSession \<or> ps_Type p = EntryCloseSession" by blast
    show ?thesis
      by (rule appends_one [where pid = "ps_ProposalID p"]) (use p assms(2) in \<open>auto simp: proposeSession_def sizes\<close>)
  qed
qed

text \<open>When the coordinator keeps a proposal from Raft: a mutation with the same Sequence is in flight, or the session
  machine already has the answer.\<close>

definition settled_already :: "commandCoordinator \<Rightarrow> Event \<Rightarrow> bool" where
  "settled_already c e \<longleftrightarrow>
     (\<exists>sid q. proposedMutation e = Some (sid, q) \<and>
        ((\<exists>f. cc_inFlightMutations c sid = Some f \<and> if_sequence f = q) \<or> \<not> snd (evaluateMutation (cc_state c) sid q)))"

lemma beginProposal_cases:
  assumes "beginProposal c p = (c', sent, out)"
  shows "out = (if settled_already c (pi_event p) then None else Some (pi_event p)) \<and>
    (\<not> settled_already c (pi_event p) \<longrightarrow> c' = c \<and> sent = [])"
  using assms
  by (auto simp: beginProposal_def settled_already_def Let_def split: option.splits prod.splits if_splits)

text \<open>C37. Whatever a Client sends, what reaches the log can be stored and shipped. When a request handler hands a
  proposal to the loop of a Leader, the coordinator decides first. A mutation that is in flight or whose answer is
  known, because it is a repetition, stale, ahead of its turn or of an unknown or closed session, does not reach Raft:
  the iteration leaves the core and its files as they are and at most answers the request. Every other proposal
  is stepped, and the core appends exactly one entry, with the next index and the current Term, a session identity of
  sixteen bytes and a known kind, that fits a record of the write-ahead log and a replication batch. A Node that does not
  know itself to be the Leader hands nothing over.\<close>

theorem accepted_requests_storable:
  assumes "handed_over n (pi_event p)" and "n_role (rt_core (ls_runtime ls)) = Leader"
    and "c = pruneCanceled (env_ended env) (ls_commands ls)" and "m = rt_core (ls_runtime ls)"
  shows "st_Role (an_raftState n) = Leader \<and>
    (if settled_already c (pi_event p)
     then \<exists>c' sent. iteration env cfg (Arrived (ProposalInput p)) ls = Some (ls\<lparr>ls_commands := c'\<rparr>, map Answer sent, None)
     else iteration env cfg (Arrived (ProposalInput p)) ls =
         processed (processEvent env cfg (Some (ProposalInput p)) (pi_event p) (ls\<lparr>ls_commands := c\<rparr>)) \<and>
       event_fits m (pi_event p) \<and>
       (\<exists>m' as entry. Step m (pi_event p) = Some (m', as) \<and> n_log m' = n_log m @ [entry] \<and> storable entry \<and>
          e_Index entry = n_lastLogIndex m + 1 \<and> e_Term entry = n_term m \<and> entryBytes entry \<le> maxAppendEntriesBytes))"
proof -
  obtain c' sent out where b: "beginProposal c p = (c', sent, out)" by (metis prod_cases3)
  note h = handed_over_appends [OF assms(1,2), folded assms(4)]
  show ?thesis
  proof (cases "settled_already c (pi_event p)")
    case True
    with beginProposal_cases [OF b] b have "iteration env cfg (Arrived (ProposalInput p)) ls =
        Some (ls\<lparr>ls_commands := c'\<rparr>, map Answer sent, None)"
      by (simp add: iteration_def Let_def assms(3))
    with True h show ?thesis by auto
  next
    case False
    with beginProposal_cases [OF b] b have "iteration env cfg (Arrived (ProposalInput p)) ls =
        processed (processEvent env cfg (Some (ProposalInput p)) (pi_event p) (ls\<lparr>ls_commands := c\<rparr>))"
      by (simp add: iteration_def Let_def assms(3))
    with False h show ?thesis by simp
  qed
qed

definition sample_api :: ApiNode where
  "sample_api = (api_New sample_config)\<lparr>an_raftState := (an_raftState (api_New sample_config))\<lparr>st_Role := Leader\<rparr>\<rparr>"

text \<open>The loop of a Leader without Sessions.\<close>

definition sample_loop :: loopState where
  "sample_loop = \<lparr>ls_runtime = \<lparr>rt_core = sample_leader, rt_wal = freshHandle [] (walIdentityOf sample_config) 0,
       rt_recoveredSnapshot = None\<rparr>, ls_commands = newCommandCoordinator 4, ls_transport = newPeerTransport sample_config,
     ls_dir = emptyDir, ls_published = an_raftState sample_api, ls_captured = None, ls_completion = None,
     ls_snapshotRunning = False, ls_snapshotAutomatic = False, ls_snapshotWaiters = [], ls_lastSnapshotIndex = 0,
     ls_incoming = None, ls_heartbeat = True, ls_quorum = True\<rparr>"

theorem accepted_requests_storable_witness:
  "\<exists>e m' as entry. handed_over sample_api e \<and> \<not> settled_already (newCommandCoordinator 4) e \<and>
     Step sample_leader e = Some (m', as) \<and> n_log m' = n_log sample_leader @ [entry]"
proof -
  have "(case api_OpenSession sample_api (Some (replicate 16 7)) StoppedWaiting of (_, e, _) \<Rightarrow>
      e \<noteq> None \<and> proposedMutation (the e) = None)" by code_simp
  then obtain n' e r where o: "api_OpenSession sample_api (Some (replicate 16 7)) StoppedWaiting = (n', Some e, r)"
    "proposedMutation e = None"
    by (cases "api_OpenSession sample_api (Some (replicate 16 7)) StoppedWaiting") auto
  have "\<exists>bs w n' r. length bs = 16 \<and> api_OpenSession sample_api (Some bs) w = (n', Some e, r)"
    by (rule exI [of _ "replicate 16 7"]) (use o(1) in auto)
  then have h: "handed_over sample_api e" unfolding handed_over_def by blast
  have s: "\<not> settled_already c e" for c using o(2) by (simp add: settled_already_def)
  have l: "n_role (rt_core (ls_runtime sample_loop)) = Leader" by code_simp
  from accepted_requests_storable [of sample_api "\<lparr>pi_event = e, pi_result = 1, pi_ctx = 1\<rparr>" sample_loop _ received_env, OF _ l refl refl, of sample_config]
    h s show ?thesis by (auto simp: sample_loop_def)
qed

end
