(* ===== verification/Client_Library.thy ===== *)
theory Client_Library
  imports Node_Api
begin

text \<open>
  The Client library \<^verbatim>\<open>src/client/client.go\<close> and the checks of the command line tool,
  \<^verbatim>\<open>src/internal/cli/cli.go\<close>. The retry loop of \<^verbatim>\<open>withLeader\<close> takes what happens outside the process as
  arguments that depend on the attempt: whether a connection can be made and closed, what a call returns,
  whether the context has ended, and the random jitter. Its results are the addresses it contacted, the
  delays it slept and the outcome. The parsing of flags by the \<^verbatim>\<open>flag\<close> package and the JSON
  encoding of what is printed are left out.

  Shown here: the loop makes at most 128 calls and sleeps within the configured bounds, and it finds the
  Leader when the other Nodes are down or point to it.
\<close>

subsection \<open>Status errors\<close>

datatype StatusCode =
    CodeInvalidArgument | CodeUnavailable | CodeFailedPrecondition | CodeResourceExhausted | CodeNotFound
  | CodeAlreadyExists | CodeInternal | CodeCanceled | CodeDeadlineExceeded | CodeUnknown

datatype Detail = NotLeaderDetail NodeID string | OtherDetail

record RpcError =
  re_code :: StatusCode
  re_details :: "Detail list"

definition rpcError :: "StatusCode \<Rightarrow> Detail list \<Rightarrow> RpcError" where
  "rpcError c ds = \<lparr>re_code = c, re_details = ds\<rparr>"

text \<open>How the errors of the request handlers arrive.\<close>

fun statusOf :: "ApiError \<Rightarrow> RpcError" where
  "statusOf (InvalidField _) = rpcError CodeInvalidArgument [OtherDetail]"
| "statusOf LeaderUnknown = rpcError CodeUnavailable []"
| "statusOf (LeaderNotConfigured _) = rpcError CodeUnavailable []"
| "statusOf (NotLeader l a) = rpcError CodeFailedPrecondition [NotLeaderDetail l a]"
| "statusOf (SessionLimit _) = rpcError CodeResourceExhausted []"
| "statusOf (InvalidSessionUnknown _) = rpcError CodeNotFound [OtherDetail]"
| "statusOf (InvalidSessionClosed _) = rpcError CodeFailedPrecondition [OtherDetail]"
| "statusOf SessionExists = rpcError CodeAlreadyExists []"
| "statusOf (StaleSequence _ _) = rpcError CodeFailedPrecondition [OtherDetail]"
| "statusOf (OutOfOrderSequence _ _) = rpcError CodeFailedPrecondition [OtherDetail]"
| "statusOf (KeyNotFound _) = rpcError CodeNotFound [OtherDetail]"
| "statusOf NoEntropy = rpcError CodeInternal []"
| "statusOf NodeStopping = rpcError CodeUnavailable []"
| "statusOf NodeStopped = rpcError CodeUnavailable []"
| "statusOf (ContextEnded Canceled) = rpcError CodeCanceled []"
| "statusOf (ContextEnded DeadlineExceeded) = rpcError CodeDeadlineExceeded []"

fun hintIn :: "Detail list \<Rightarrow> string option" where
  "hintIn [] = None"
| "hintIn (NotLeaderDetail _ address # ds) = (if address \<noteq> '''' then Some address else hintIn ds)"
| "hintIn (OtherDetail # ds) = hintIn ds"

definition leaderHint :: "RpcError \<Rightarrow> string option" where
  "leaderHint err = hintIn (re_details err)"

subsection \<open>The retry loop\<close>

definition maxAttempts :: nat where
  "maxAttempts = 128"

text \<open>Durations in nanoseconds.\<close>

definition initialBackoff :: int where
  "initialBackoff = 25 * 1000000"

definition maximumBackoff :: int where
  "maximumBackoff = 200 * 1000000"

datatype ClientError =
    NoAddress | DialFailed string | CloseFailed string | CallFailed RpcError | ContextOver ContextError | NoStableLeader

record 'r Surroundings =
  su_dial :: "nat \<Rightarrow> string \<Rightarrow> bool"
  su_call :: "nat \<Rightarrow> string \<Rightarrow> RpcError + 'r"
  su_close :: "nat \<Rightarrow> string \<Rightarrow> bool"
  su_random :: "nat \<Rightarrow> int \<Rightarrow> int" \<comment> \<open>\<^verbatim>\<open>rand.Int64N\<close>\<close>
  su_ended :: "nat \<Rightarrow> ContextError option" \<comment> \<open>the context ends before the timer of this attempt\<close>

type_synonym 'r Journey = "string list \<times> int list \<times> (ClientError + 'r)"

definition visit :: "string \<Rightarrow> 'r Journey \<Rightarrow> 'r Journey" where
  "visit address j = (case j of (contacted, slept, r) \<Rightarrow> (address # contacted, slept, r))"

definition sleep :: "int \<Rightarrow> 'r Journey \<Rightarrow> 'r Journey" where
  "sleep delay j = (case j of (contacted, slept, r) \<Rightarrow> (contacted, delay # slept, r))"

text \<open>The loop with \<open>left\<close> attempts to go.\<close>

fun withLeader_loop :: "string list \<Rightarrow> 'r Surroundings \<Rightarrow> nat \<Rightarrow> nat \<Rightarrow> string \<Rightarrow> int \<Rightarrow> 'r Journey" where
  "withLeader_loop addresses su 0 configuredIndex address backoff = ([], [], Inl NoStableLeader)"
| "withLeader_loop addresses su (Suc left) configuredIndex address backoff =
     (let attempt = maxAttempts - left in
      if \<not> su_dial su attempt address then ([], [], Inl (DialFailed address))
      else visit address
        (case su_call su attempt address of
           Inr r \<Rightarrow> ([], [], if su_close su attempt address then Inr r else Inl (CloseFailed address))
         | Inl err \<Rightarrow>
             (case leaderHint err of
                Some hint \<Rightarrow> withLeader_loop addresses su left configuredIndex hint backoff
              | None \<Rightarrow>
                  if re_code err \<noteq> CodeUnavailable then ([], [], Inl (CallFailed err))
                  else
                    let configuredIndex = (configuredIndex + 1) mod length addresses;
                        address = addresses ! configuredIndex;
                        jitter = su_random su attempt (backoff div 2 + 1)
                    in case su_ended su attempt of
                         Some e \<Rightarrow> ([], [], Inl (ContextOver e))
                       | None \<Rightarrow> sleep (backoff div 2 + jitter)
                           (withLeader_loop addresses su left configuredIndex address (min (backoff * 2) maximumBackoff)))))"

definition withLeader :: "string list \<Rightarrow> 'r Surroundings \<Rightarrow> 'r Journey" where
  "withLeader addresses su =
     (if addresses = [] then ([], [], Inl NoAddress)
      else withLeader_loop addresses su maxAttempts 0 (addresses ! 0) initialBackoff)"

text \<open>What \<^verbatim>\<open>OpenSession\<close> makes of a response: an identity of another length is an error without a status,
  which \<^verbatim>\<open>status.Code\<close> reports as unknown.\<close>

definition openedSession :: "RpcError + byte list \<Rightarrow> RpcError + SessionID" where
  "openedSession r = (case r of
     Inl err \<Rightarrow> Inl err
   | Inr sessionId \<Rightarrow> if length sessionId \<noteq> 16 then Inl (rpcError CodeUnknown []) else Inr sessionId)"

text \<open>The service a connection gives access to, and the five methods of the Client. Each hands the retry
  loop a closure that makes one typed call.\<close>

record Service =
  sv_OpenSession :: "RpcError + byte list"
  sv_CloseSession :: "byte list \<Rightarrow> RpcError + unit"
  sv_Set :: "SetRequest \<Rightarrow> RpcError + unit"
  sv_Delete :: "DeleteRequest \<Rightarrow> RpcError + bool"
  sv_Get :: "string \<Rightarrow> RpcError + byte list"

definition calling :: "Service Surroundings \<Rightarrow> (Service \<Rightarrow> RpcError + 'r) \<Rightarrow> 'r Surroundings" where
  "calling su call = \<lparr>su_dial = su_dial su,
     su_call = (\<lambda>k a. case su_call su k a of Inl err \<Rightarrow> Inl err | Inr service \<Rightarrow> call service),
     su_close = su_close su, su_random = su_random su, su_ended = su_ended su\<rparr>"

definition client_OpenSession :: "string list \<Rightarrow> Service Surroundings \<Rightarrow> SessionID Journey" where
  "client_OpenSession addresses su = withLeader addresses (calling su (\<lambda>service. openedSession (sv_OpenSession service)))"

definition client_CloseSession :: "string list \<Rightarrow> Service Surroundings \<Rightarrow> SessionID \<Rightarrow> unit Journey" where
  "client_CloseSession addresses su sessionID = withLeader addresses (calling su (\<lambda>service. sv_CloseSession service sessionID))"

definition client_Set :: "string list \<Rightarrow> Service Surroundings \<Rightarrow> SessionID \<Rightarrow> u64 \<Rightarrow> string \<Rightarrow> byte list \<Rightarrow> unit Journey" where
  "client_Set addresses su sessionID sequence key val = withLeader addresses (calling su (\<lambda>service. sv_Set service
     \<lparr>sr_SessionId = sessionID, sr_Sequence = sequence, sr_Key = key, sr_Value = val\<rparr>))"

definition client_Delete :: "string list \<Rightarrow> Service Surroundings \<Rightarrow> SessionID \<Rightarrow> u64 \<Rightarrow> string \<Rightarrow> bool Journey" where
  "client_Delete addresses su sessionID sequence key = withLeader addresses (calling su (\<lambda>service. sv_Delete service
     \<lparr>dr_SessionId = sessionID, dr_Sequence = sequence, dr_Key = key\<rparr>))"

definition client_Get :: "string list \<Rightarrow> Service Surroundings \<Rightarrow> string \<Rightarrow> (byte list) Journey" where
  "client_Get addresses su key = withLeader addresses (calling su (\<lambda>service. sv_Get service key))"

subsection \<open>The command line\<close>

fun hexDigit :: "nat \<Rightarrow> char" where
  "hexDigit d = (if d < 10 then char_of (48 + d) else char_of (87 + d))"

definition hexEncode :: "byte list \<Rightarrow> string" where
  "hexEncode bs = concat (map (\<lambda>b. [hexDigit (unat b div 16), hexDigit (unat b mod 16)]) bs)"

definition hexValue :: "char \<Rightarrow> nat option" where
  "hexValue c =
     (let k = of_char c :: nat in
      if 48 \<le> k \<and> k \<le> 57 then Some (k - 48)
      else if 97 \<le> k \<and> k \<le> 102 then Some (k - 87)
      else if 65 \<le> k \<and> k \<le> 70 then Some (k - 55) else None)"

fun hexDecode :: "string \<Rightarrow> byte list option" where
  "hexDecode [] = Some []"
| "hexDecode [_] = None"
| "hexDecode (a # b # rest) =
     (case (hexValue a, hexValue b, hexDecode rest) of
        (Some x, Some y, Some bs) \<Rightarrow> Some (of_nat (16 * x + y) # bs) | _ \<Rightarrow> None)"

text \<open>\<^verbatim>\<open>strconv.ParseUint(s, 10, 64)\<close>.\<close>

definition decimalValue :: "string \<Rightarrow> nat" where
  "decimalValue s = foldl (\<lambda>v c. 10 * v + (of_char c - 48)) 0 s"

definition isDigit :: "char \<Rightarrow> bool" where
  "isDigit c \<longleftrightarrow> 48 \<le> (of_char c :: nat) \<and> (of_char c :: nat) \<le> 57"

definition parseUint :: "string \<Rightarrow> u64 option" where
  "parseUint s = (if s \<noteq> [] \<and> list_all isDigit s \<and> decimalValue s < 2 ^ 64 then Some (of_nat (decimalValue s)) else None)"

datatype CliError = usage | sessionUsage | badSessionID | badSequence

datatype Command =
    cmdStatus | cmdOpen | cmdClose string SessionID | cmdSet SessionID u64 string "byte list" | cmdGet string
  | cmdDelete SessionID u64 string

definition parseSessionID :: "string \<Rightarrow> CliError + SessionID" where
  "parseSessionID encoded = (case hexDecode encoded of
     Some bs \<Rightarrow> if length bs = 16 then Inr bs else Inl badSessionID | None \<Rightarrow> Inl badSessionID)"

definition parseSequence :: "string \<Rightarrow> CliError + u64" where
  "parseSequence s = (case parseUint s of
     Some q \<Rightarrow> if q = 0 then Inl badSequence else Inr q | None \<Rightarrow> Inl badSequence)"

definition runDelete :: "string list \<Rightarrow> CliError + Command" where
  "runDelete args = (case args of
     [sid, seq, key] \<Rightarrow> andThen (parseSessionID sid) (\<lambda>s. andThen (parseSequence seq) (\<lambda>q. Inr (cmdDelete s q key)))
   | _ \<Rightarrow> Inl usage)"

definition runGet :: "string list \<Rightarrow> CliError + Command" where
  "runGet args = (case args of [key] \<Rightarrow> Inr (cmdGet key) | _ \<Rightarrow> Inl usage)"

definition runSet :: "string list \<Rightarrow> CliError + Command" where
  "runSet args = (case args of
     [sid, seq, key, val] \<Rightarrow>
       andThen (parseSessionID sid) (\<lambda>s. andThen (parseSequence seq) (\<lambda>q. Inr (cmdSet s q key (bytes_of val))))
   | _ \<Rightarrow> Inl usage)"

definition runSession :: "string list \<Rightarrow> CliError + Command" where
  "runSession args =
     (if args = [''open''] then Inr cmdOpen
      else (case args of
              [c, sid] \<Rightarrow> if c = ''close'' then andThen (parseSessionID sid) (\<lambda>s. Inr (cmdClose sid s)) else Inl sessionUsage
            | _ \<Rightarrow> Inl sessionUsage))"

text \<open>\<^verbatim>\<open>Run\<close> after the flags: which command the arguments are.\<close>

definition cli_Run :: "string list \<Rightarrow> CliError + Command" where
  "cli_Run args = (case args of
     [] \<Rightarrow> Inl usage
   | c # rest \<Rightarrow>
       if c = ''session'' then runSession rest
       else if c = ''set'' then runSet rest
       else if c = ''get'' then runGet rest
       else if c = ''delete'' then runDelete rest
       else if rest \<noteq> [] \<or> c \<noteq> ''status'' then Inl usage
       else Inr cmdStatus)"

text \<open>What a command prints, and the call that produces it. Every call goes to the one address given on
  the command line.\<close>

datatype Printed =
    printedStatus GetStatusResponse | printedSession string | printedClosed string | printedStored string u64
  | printedValue string "byte list" | printedDeleted string u64 bool

definition outcome :: "'r Journey \<Rightarrow> ClientError + 'r" where
  "outcome j = snd (snd j)"

definition execute :: "(ClientError + GetStatusResponse) \<Rightarrow> Service Surroundings \<Rightarrow> string \<Rightarrow> Command \<Rightarrow> ClientError + Printed" where
  "execute status su address cmd = (case cmd of
     cmdStatus \<Rightarrow> map_sum id printedStatus status
   | cmdOpen \<Rightarrow> map_sum id (\<lambda>s. printedSession (hexEncode s)) (outcome (client_OpenSession [address] su))
   | cmdClose text s \<Rightarrow> map_sum id (\<lambda>_. printedClosed text) (outcome (client_CloseSession [address] su s))
   | cmdSet s q key val \<Rightarrow> map_sum id (\<lambda>_. printedStored key q) (outcome (client_Set [address] su s q key val))
   | cmdGet key \<Rightarrow> map_sum id (printedValue key) (outcome (client_Get [address] su key))
   | cmdDelete s q key \<Rightarrow> map_sum id (printedDeleted key q) (outcome (client_Delete [address] su s q key)))"

subsection \<open>The command line reads back what it prints\<close>

lemma hexValue_digit:
  assumes "d < 16"
  shows "hexValue (hexDigit d) = Some d"
proof -
  have "\<forall>d < 16. hexValue (hexDigit d) = Some d" by code_simp
  with assms show ?thesis by blast
qed

lemma hexDecode_encode: "hexDecode (hexEncode bs) = Some bs"
proof (induction bs)
  case (Cons b bs)
  have "unat b < 2 ^ LENGTH(8)" by (rule unsigned_less)
  then have "unat b div 16 < 16" by simp
  with Cons show ?case by (simp add: hexEncode_def hexValue_digit del: hexDigit.simps)
qed (simp add: hexEncode_def)

lemma parseSessionID_printed: "length bs = 16 \<Longrightarrow> parseSessionID (hexEncode bs) = Inr bs"
  by (simp add: parseSessionID_def hexDecode_encode)

subsection \<open>Bounds of the retry loop\<close>

definition random_ok :: "'r Surroundings \<Rightarrow> bool" where
  "random_ok su \<longleftrightarrow> (\<forall>k n. 0 < n \<longrightarrow> 0 \<le> su_random su k n \<and> su_random su k n < n)"

lemma withLeader_loop_bounds:
  assumes "withLeader_loop addresses su left i a b = (contacted, slept, r)" "random_ok su"
    "initialBackoff \<le> b" "b \<le> maximumBackoff"
  shows "length contacted \<le> left \<and> length slept \<le> left \<and> (\<forall>d\<in>set slept. initialBackoff div 2 \<le> d \<and> d \<le> maximumBackoff)"
  using assms
proof (induction left arbitrary: i a b contacted slept)
  case (Suc left)
  have b: "initialBackoff \<le> min (b * 2) maximumBackoff" "min (b * 2) maximumBackoff \<le> maximumBackoff"
    using Suc.prems(3,4) by (auto simp: initialBackoff_def maximumBackoff_def)
  let ?j = "su_random su (maxAttempts - left) (b div 2 + 1)"
  have "0 < b div 2 + 1" using Suc.prems(3) by (simp add: initialBackoff_def)
  then have "0 \<le> ?j" "?j < b div 2 + 1" using Suc.prems(2) unfolding random_ok_def by blast+
  then have d: "initialBackoff div 2 \<le> b div 2 + ?j" "b div 2 + ?j \<le> maximumBackoff"
    using Suc.prems(3,4) by (auto simp: initialBackoff_def maximumBackoff_def)
  note i1 = Suc.IH [OF _ Suc.prems(2-4)] and i2 = Suc.IH [OF _ Suc.prems(2) b]
  show ?case
    using Suc.prems(1) d
    by (auto simp: Let_def visit_def sleep_def split: if_splits sum.splits option.splits prod.splits dest!: i1 i2)
qed simp

subsection \<open>Finding the Leader\<close>

text \<open>A Node that refuses a Client either names the configured Leader or is worth another try later.\<close>

lemma refused_points_to_leader:
  assumes "\<forall>m\<in>set (cfg_Members (an_config n)). mb_ClientAddress (snd m) \<noteq> ''''"
  shows "leaderHint (statusOf (leaderError n l)) = map_option mb_ClientAddress (if l = '''' then None else map_of (cfg_Members (an_config n)) l) \<and>
    (leaderHint (statusOf (leaderError n l)) = None \<longrightarrow> re_code (statusOf (leaderError n l)) = CodeUnavailable)"
  using assms
  by (auto simp: leaderError_def leaderHint_def rpcError_def split: option.splits dest!: map_of_SomeD)

definition helpful :: "'r Surroundings \<Rightarrow> string list \<Rightarrow> string \<Rightarrow> 'r \<Rightarrow> bool" where
  "helpful su addresses leader v \<longleftrightarrow>
     (\<forall>k a. su_dial su k a) \<and> (\<forall>k. su_close su k leader) \<and> (\<forall>k. su_ended su k = None) \<and> (\<forall>k. su_call su k leader = Inr v) \<and>
     (\<forall>k a. a \<in> set addresses \<and> a \<noteq> leader \<longrightarrow>
       (\<exists>err. su_call su k a = Inl err \<and>
          (leaderHint err = Some leader \<or> leaderHint err = None \<and> re_code err = CodeUnavailable)))"

lemma withLeader_loop_finds:
  assumes su: "helpful su addresses leader v" and p: "p < length addresses" "addresses ! p = leader"
    and i: "i \<le> p" "p - i < left"
  shows "\<exists>contacted slept. withLeader_loop addresses su left i (addresses ! i) b = (contacted, slept, Inr v) \<and>
    length contacted \<le> p - i + 1"
  using i
proof (induction left arbitrary: i b)
  case (Suc left)
  have dial: "su_dial su k a" "su_close su k leader" "su_ended su k = None" "su_call su k leader = Inr v" for k a
    using su by (auto simp: helpful_def)
  show ?case
  proof (cases "addresses ! i = leader")
    case True
    then show ?thesis by (simp add: Let_def dial visit_def)
  next
    case False
    with Suc.prems p(2) have lt: "i < p" using le_neq_implies_less by blast
    then have "addresses ! i \<in> set addresses" using p(1) by simp
    with False su obtain err where err: "su_call su (maxAttempts - left) (addresses ! i) = Inl err"
      "leaderHint err = Some leader \<or> leaderHint err = None \<and> re_code err = CodeUnavailable"
      unfolding helpful_def by blast
    from err(2) show ?thesis
    proof
      assume h: "leaderHint err = Some leader"
      obtain left' where "left = Suc left'" using Suc.prems(2) lt by (cases left) auto
      then have "withLeader_loop addresses su left i leader b = ([leader], [], Inr v)"
        by (simp add: Let_def dial visit_def)
      with err(1) h lt show ?thesis by (simp add: Let_def dial visit_def)
    next
      assume h: "leaderHint err = None \<and> re_code err = CodeUnavailable"
      have m: "(i + 1) mod length addresses = Suc i" using lt p(1) by simp
      have "Suc i \<le> p" "p - Suc i < left" using lt Suc.prems(2) by auto
      from Suc.IH [OF this, of "min (b * 2) maximumBackoff"] lt show ?thesis
        using err(1) h m by (auto simp: Let_def dial visit_def sleep_def)
    qed
  qed
qed simp

text \<open>C38. The Client finds the Leader. If the Leader is among the configured addresses and answers, and every
  other configured Node either cannot be reached or points to the Leader, then \<^verbatim>\<open>withLeader\<close> returns the Leader's
  answer. It contacts no more Nodes than are configured up to the Leader, and every pause it makes is between
  12.5 and 200 milliseconds long.\<close>

theorem client_finds_leader:
  assumes "p < length addresses" and "addresses ! p = leader" and "p < 128" and "helpful su addresses leader v"
    and "random_ok su"
  shows "\<exists>contacted slept. withLeader addresses su = (contacted, slept, Inr v) \<and> length contacted \<le> p + 1 \<and>
    (\<forall>d\<in>set slept. 12500000 \<le> d \<and> d \<le> 200000000)"
proof -
  have "p - 0 < maxAttempts" using assms(3) by (simp add: maxAttempts_def)
  from withLeader_loop_finds [OF assms(4,1,2) _ this, of initialBackoff] obtain contacted slept where
    c: "withLeader_loop addresses su maxAttempts 0 (addresses ! 0) initialBackoff = (contacted, slept, Inr v)"
    "length contacted \<le> p + 1" by auto
  from withLeader_loop_bounds [OF c(1) assms(5)] c assms(1) show ?thesis
    by (auto simp: withLeader_def initialBackoff_def maximumBackoff_def)
qed

text \<open>Three Nodes of which the first does not know the Leader and the second points to the third.\<close>

definition sample_surroundings :: "unit Surroundings" where
  "sample_surroundings = \<lparr>su_dial = (\<lambda>_ _. True),
     su_call = (\<lambda>_ a. if a = ''h:6'' then Inr ()
        else Inl (statusOf (leaderError (api_New sample_config) (if a = ''h:2'' then '''' else ''n3'')))),
     su_close = (\<lambda>_ _. True), su_random = (\<lambda>_ n. n div 2), su_ended = (\<lambda>_. None)\<rparr>"

theorem client_finds_leader_witness:
  "\<exists>contacted slept. withLeader [''h:2'', ''h:4'', ''h:6''] sample_surroundings = (contacted, slept, Inr ()) \<and> length contacted \<le> 3"
proof -
  have "helpful sample_surroundings [''h:2'', ''h:4'', ''h:6''] ''h:6'' ()"
    by (auto simp: helpful_def sample_surroundings_def leaderError_def leaderHint_def rpcError_def api_New_def sample_config_def)
  moreover have "random_ok sample_surroundings" by (auto simp: random_ok_def sample_surroundings_def)
  ultimately show ?thesis
    using client_finds_leader [of 2 "[''h:2'', ''h:4'', ''h:6'']" "''h:6''" sample_surroundings "()"] by auto
qed

end
