(* ===== verification/Answers.thy ===== *)
theory Answers
  imports Durable_Runtime
begin

text \<open>
  Every request is answered once: the composition of the consensus core, the persistence step, the command
  coordinator and the runtime loop. The core emits one verdict per proposal and none from a completion
  (\<open>muted\<close>, handler by handler), the persistence step passes it on, the coordinator turns it into a waiting
  request or an answer, and every later action, a lost leadership included, moves a waiting request to an answer.
  \<open>settles\<close> is the balance of one piece of the loop; \<open>runLoop\<close> is the loop over a list of choices.
\<close>

subsection \<open>Verdicts of the core\<close>

fun verdict :: "Action \<Rightarrow> bool" where
  "verdict (ProposalAccepted _ _) = True"
| "verdict (ProposalRejected _ _) = True"
| "verdict _ = False"

definition silent :: "Action list \<Rightarrow> bool" where
  "silent as \<longleftrightarrow> (\<forall>a\<in>set as. \<not> verdict a)"

text \<open>No verdict waits for a completion.\<close>

definition muted :: "Node \<Rightarrow> bool" where
  "muted n \<longleftrightarrow> (\<forall>pid p. n_pendingHardState n pid = Some p \<longrightarrow> silent (ph_after p)) \<and>
     (\<forall>pid p. n_pendingCommit n pid = Some p \<longrightarrow> silent (pc_after p))"

definition hushed :: "(Node \<times> Action list) option \<Rightarrow> bool" where
  "hushed r \<longleftrightarrow> (\<forall>n as. r = Some (n, as) \<longrightarrow> muted n \<and> silent as)"

lemma silent_simps [simp]: "silent []" "silent (a # as) \<longleftrightarrow> \<not> verdict a \<and> silent as" "silent (as @ bs) \<longleftrightarrow> silent as \<and> silent bs"
  by (auto simp: silent_def)

lemma hushed_simps [simp]: "hushed None" "hushed (Some (n, as)) \<longleftrightarrow> muted n \<and> silent as"
  by (auto simp: hushed_def)

lemma hushed_bind: "(\<And>x. r = Some x \<Longrightarrow> hushed (f x)) \<Longrightarrow> hushed (do { x \<leftarrow> r; f x })"
  by (cases r) auto

lemma hushed_bind_pair: "hushed r \<Longrightarrow> (\<And>n as. muted n \<Longrightarrow> silent as \<Longrightarrow> hushed (f (n, as))) \<Longrightarrow> hushed (do { x \<leftarrow> r; f x })"
  by (cases r; cases "the r") simp_all

lemma muted_frame [simp]:
  "muted (n\<lparr>n_id := x0\<rparr>) = muted n"
  "muted (n\<lparr>n_peers := x1\<rparr>) = muted n"
  "muted (n\<lparr>n_role := x2\<rparr>) = muted n"
  "muted (n\<lparr>n_term := x3\<rparr>) = muted n"
  "muted (n\<lparr>n_votedFor := x4\<rparr>) = muted n"
  "muted (n\<lparr>n_leaderID := x5\<rparr>) = muted n"
  "muted (n\<lparr>n_lastLogIndex := x6\<rparr>) = muted n"
  "muted (n\<lparr>n_lastLogTerm := x7\<rparr>) = muted n"
  "muted (n\<lparr>n_durableLogIndex := x8\<rparr>) = muted n"
  "muted (n\<lparr>n_logBaseIndex := x9\<rparr>) = muted n"
  "muted (n\<lparr>n_logBaseTerm := x10\<rparr>) = muted n"
  "muted (n\<lparr>n_log := x11\<rparr>) = muted n"
  "muted (n\<lparr>n_commitIndex := x12\<rparr>) = muted n"
  "muted (n\<lparr>n_lastApplied := x13\<rparr>) = muted n"
  "muted (n\<lparr>n_readReady := x14\<rparr>) = muted n"
  "muted (n\<lparr>n_votes := x15\<rparr>) = muted n"
  "muted (n\<lparr>n_preVotes := x16\<rparr>) = muted n"
  "muted (n\<lparr>n_activePeers := x17\<rparr>) = muted n"
  "muted (n\<lparr>n_matchIndex := x18\<rparr>) = muted n"
  "muted (n\<lparr>n_nextIndex := x19\<rparr>) = muted n"
  "muted (n\<lparr>n_appendInFlight := x20\<rparr>) = muted n"
  "muted (n\<lparr>n_snapshotInFlight := x21\<rparr>) = muted n"
  "muted (n\<lparr>n_nextRequestID := x22\<rparr>) = muted n"
  "muted (n\<lparr>n_pendingReads := x23\<rparr>) = muted n"
  "muted (n\<lparr>n_recentLeaderContact := x24\<rparr>) = muted n"
  "muted (n\<lparr>n_durableTerm := x25\<rparr>) = muted n"
  "muted (n\<lparr>n_durableVotedFor := x26\<rparr>) = muted n"
  "muted (n\<lparr>n_nextHardStatePersistence := x27\<rparr>) = muted n"
  "muted (n\<lparr>n_nextLogPersistence := x28\<rparr>) = muted n"
  "muted (n\<lparr>n_pendingLog := x29\<rparr>) = muted n"
  "muted (n\<lparr>n_durableCommitIndex := x30\<rparr>) = muted n"
  "muted (n\<lparr>n_nextCommitPersistence := x31\<rparr>) = muted n"
  by (simp_all add: muted_def)

lemma persistHardState_muted: "muted n \<Longrightarrow> silent after \<Longrightarrow> muted (fst (persistHardState n after)) \<and> silent (snd (persistHardState n after))"
  by (auto simp: persistHardState_def Let_def muted_def)

lemma persistCommit_muted: "muted n \<Longrightarrow> silent after \<Longrightarrow> muted (fst (persistCommit n after)) \<and> silent (snd (persistCommit n after))"
  by (auto simp: persistCommit_def Let_def muted_def)

lemma persistLog_muted: "muted n \<Longrightarrow> muted (fst (persistLog n es p)) \<and> silent (snd (persistLog n es p))"
  by (auto simp: persistLog_def Let_def muted_def)

lemma becomeFollower_muted [simp]: "muted (becomeFollower n t l) = muted n"
  by (auto simp: becomeFollower_def Let_def muted_def)

lemma acceptLeader_muted [simp]: "muted (acceptLeader n t l) = muted n"
  by (auto simp: acceptLeader_def Let_def muted_def becomeFollower_def)

lemma completeReads_loop_hushed: "muted n \<Longrightarrow> hushed (completeReads_loop ids n)"
proof (induction ids arbitrary: n)
  case (Cons i ids)
  have "muted (n\<lparr>n_pendingReads := ps\<rparr>) = muted n" for ps by (simp add: muted_def)
  with Cons show ?case
    by (auto split: option.splits intro!: hushed_bind_pair)
qed simp

lemma completeReads_hushed: "muted n \<Longrightarrow> hushed (completeReads n)"
  by (simp add: completeReads_def completeReads_loop_hushed)

lemma applyLoop_hushed: "muted n \<Longrightarrow> hushed (applyLoop index n)"
proof (induction index n rule: applyLoop.induct)
  case (1 index n)
  have m: "muted (n\<lparr>n_lastApplied := i, n_readReady := b\<rparr>)" for i b
    using "1.prems" by (simp add: muted_def)
  show ?case
  proof (cases "n_lastApplied n < index")
    case True
    have "hushed (applyLoop index (n\<lparr>n_lastApplied := n_lastApplied n + 1,
        n_readReady := n_readReady n \<or> (n_role n = Leader \<and> \<not> n_readReady n \<and> e_Type e = EntryNoOp \<and> e_Term e = n_term n)\<rparr>))"
      if "go_index (n_log n) (n_lastApplied n + 1 - n_logBaseIndex n - 1) = Some e" for e
      using "1.IH" [OF True that refl] m by blast
    with True show ?thesis
      unfolding applyLoop.simps [of index n] Let_def
      by (cases "go_index (n_log n) (n_lastApplied n + 1 - n_logBaseIndex n - 1)")
         (simp_all add: hushed_bind_pair)
  qed (use "1.prems" in \<open>simp add: applyLoop.simps [of index n]\<close>)
qed

lemma applyThrough_hushed: "muted n \<Longrightarrow> hushed (applyThrough n index)"
  unfolding applyThrough_def by (auto intro!: completeReads_hushed hushed_bind_pair [OF applyLoop_hushed] hushed_bind_pair [OF completeReads_hushed])

lemma sendAppendEntriesTo_hushed: "muted n \<Longrightarrow> hushed (sendAppendEntriesTo n peer readID)"
  by (auto simp: sendAppendEntriesTo_def Let_def muted_def intro!: hushed_bind)

lemma for_each_hushed:
  assumes "\<And>x n. muted n \<Longrightarrow> hushed (f x n)"
  shows "muted n \<Longrightarrow> hushed (for_each f xs n)"
proof (induction xs arbitrary: n)
  case (Cons x xs)
  then show ?case using assms by (auto intro!: hushed_bind_pair)
qed simp

lemma sendAppendEntries_hushed: "muted n \<Longrightarrow> hushed (sendAppendEntries n readID)"
  unfolding sendAppendEntries_def by (intro for_each_hushed sendAppendEntriesTo_hushed)

lemma advanceFollowerCommit_hushed: "muted n \<Longrightarrow> silent after \<Longrightarrow> hushed (advanceFollowerCommit n c after)"
proof -
  assume m: "muted n" and s: "silent after"
  have "muted (n\<lparr>n_commitIndex := i\<rparr>)" for i using m by (simp add: muted_def)
  then have "hushed (Some (persistCommit (n\<lparr>n_commitIndex := i\<rparr>) after))" for i
    using persistCommit_muted s by (metis hushed_simps(2) prod.collapse)
  then show ?thesis
    unfolding advanceFollowerCommit_def Let_def
    using hushed_bind_pair [OF applyThrough_hushed [OF m]] s by simp
qed

lemma hushed_pair: "muted (fst p) \<Longrightarrow> silent (snd p) \<Longrightarrow> hushed (Some p)"
  by (cases p) simp

lemma sends_silent [simp]: "silent (appendEntriesResponse n to rid b m ct ci read)" "silent (voteResponse n to b)"
  "silent (snapshotResponse n request b off inst)"
  by (simp_all add: appendEntriesResponse_def voteResponse_def snapshotResponse_def)

lemma silent_map: "(\<And>x. \<not> verdict (f x)) \<Longrightarrow> silent (map f xs)"
  by (simp add: silent_def)

lemma truncateLog_muted: "truncateLog n i = Some n' \<Longrightarrow> muted n' = muted n"
  by (auto simp: truncateLog_def Let_def Option.bind_eq_Some_conv split: if_splits)

lemma appendEntries_muted: "appendEntries n es = Some n' \<Longrightarrow> muted n' = muted n"
  by (auto simp: appendEntries_def Let_def Option.bind_eq_Some_conv split: if_splits)

lemma advanceLeaderCommit_muted: "advanceLeaderCommit n = Some (n', b) \<Longrightarrow> muted n' = muted n"
  by (auto simp: advanceLeaderCommit_def Option.bind_eq_Some_conv split: option.splits)

lemma recordAppendResponse_muted: "recordAppendResponse n r = Some n' \<Longrightarrow> muted n' = muted n"
  by (auto simp: recordAppendResponse_def Let_def Option.bind_eq_Some_conv split: if_splits)

lemma compactLog_muted: "compactLog n i t = Some n' \<Longrightarrow> muted n' = muted n"
  by (auto simp: compactLog_def Let_def Option.bind_eq_Some_conv split: if_splits)

lemma installSnapshotLog_muted: "installSnapshotLog n r = Some n' \<Longrightarrow> muted n' = muted n"
  unfolding installSnapshotLog_def Let_def Option.bind_eq_Some_conv by (elim exE conjE) (auto split: if_splits)

lemma afterTermChange_hushed: "muted n \<Longrightarrow> silent as \<Longrightarrow> hushed (Some (afterTermChange b n as))"
  by (auto simp: afterTermChange_def intro!: hushed_pair dest: persistHardState_muted)

lemma startElection_hushed: "muted n \<Longrightarrow> hushed (Some (startElection n))"
  unfolding startElection_def Let_def
  by (intro hushed_pair; intro persistHardState_muted [THEN conjunct1] persistHardState_muted [THEN conjunct2])
     (simp_all add: silent_map)

lemma startPreVote_hushed: "muted n \<Longrightarrow> hushed (Some (startPreVote n))"
  using startElection_hushed [of "n\<lparr>n_recentLeaderContact := False, n_leaderID := '''', n_role := PreCandidate, n_preVotes := {n_id n}\<rparr>"]
  by (cases "startElection (n\<lparr>n_recentLeaderContact := False, n_leaderID := '''', n_role := PreCandidate, n_preVotes := {n_id n}\<rparr>)")
     (simp add: startPreVote_def Let_def silent_map)

lemma persistHardState_hushed: "muted n \<Longrightarrow> silent as \<Longrightarrow> hushed (Some (persistHardState n as))"
  by (simp add: hushed_pair persistHardState_muted)

lemma handleVoteRequest_hushed: "muted n \<Longrightarrow> hushed (Some (handleVoteRequest n r))"
  unfolding handleVoteRequest_def Let_def by (simp add: persistHardState_hushed)

lemma persist_follower_hushed: "muted n \<Longrightarrow> hushed (Some (persistHardState (becomeFollower n t l) []))"
  by (intro hushed_pair) (simp_all add: persistHardState_muted)

lemma handlePreVoteResponse_hushed: "muted n \<Longrightarrow> hushed (Some (handlePreVoteResponse n r))"
  using persist_follower_hushed startElection_hushed
  by (simp add: handlePreVoteResponse_def Let_def)

lemma proposed_entry_hushed:
  assumes "muted n" "appendEntries n [entry] = Some n1"
  shows "muted (fst (persistLog n1 es p))" "silent (snd (persistLog n1 es p))"
  using persistLog_muted [of n1 es p] appendEntries_muted [OF assms(2)] assms(1) by simp_all

lemma handleVoteResponse_hushed: "muted n \<Longrightarrow> hushed (handleVoteResponse n r)"
  using persist_follower_hushed unfolding handleVoteResponse_def Let_def
  by (auto simp: split_beta persistLog_muted appendEntries_muted intro!: hushed_bind)

lemma heartbeatRound_hushed: "muted n \<Longrightarrow> hushed (heartbeatRound n)"
  by (auto simp: heartbeatRound_def intro!: hushed_bind_pair [OF sendAppendEntries_hushed])

lemma confirmRead_hushed: "muted n \<Longrightarrow> hushed (confirmRead n rid)"
  by (auto simp: confirmRead_def intro!: sendAppendEntries_hushed)

lemma acceptedAppend_hushed: "muted n \<Longrightarrow> hushed (acceptedAppend n r)"
  unfolding hushed_def
proof (intro allI impI)
  fix n' as assume m: "muted n" and a: "acceptedAppend n r = Some (n', as)"
  from a show "muted n' \<and> silent as"
  proof (cases rule: acceptedAppendE)
    case (append es tf n1 n2)
    then have "muted n2" using m truncateLog_muted appendEntries_muted by (auto split: if_splits)
    with append(6) show ?thesis using persistLog_muted by (metis fst_conv snd_conv)
  next
    case (commit tf)
    then show ?thesis using advanceFollowerCommit_hushed [OF m sends_silent(1)] unfolding hushed_def by blast
  qed (use m in simp_all)
qed

lemma handleAppendEntries_hushed: "muted n \<Longrightarrow> hushed (handleAppendEntries n r)"
  unfolding handleAppendEntries_accept
  by (auto intro!: hushed_bind_pair [OF acceptedAppend_hushed] afterTermChange_hushed)

lemma replicateAfterResponse_hushed: "muted n \<Longrightarrow> hushed (replicateAfterResponse n r p b)"
  unfolding replicateAfterResponse_def Let_def
  by (auto simp del: hushed_simps(2) simp: hushed_simps(2) [of _ "[]"] persistCommit_muted
      intro!: hushed_bind_pair [OF sendAppendEntries_hushed] sendAppendEntriesTo_hushed hushed_pair)

lemma acknowledgeRead_hushed: "muted n \<Longrightarrow> hushed (acknowledgeRead n r)"
  unfolding acknowledgeRead_def Let_def by (auto split: option.splits intro!: completeReads_hushed)

lemma handleAppendEntriesResponse_hushed:
  assumes "muted n" shows "hushed (handleAppendEntriesResponse n r)"
proof -
  have A: "hushed (do { (n, actions) \<leftarrow> replicateAfterResponse m r p b; (n, as) \<leftarrow> acknowledgeRead n r; Some (n, actions @ as) })"
    if "muted m" for m p b
    using that by (intro hushed_bind_pair [OF replicateAfterResponse_hushed]) (auto intro: hushed_bind_pair [OF acknowledgeRead_hushed])
  have B: "hushed (do { (n, advanced) \<leftarrow> advanceLeaderCommit m; (n, actions) \<leftarrow> replicateAfterResponse n r p advanced;
      (n, as) \<leftarrow> acknowledgeRead n r; Some (n, actions @ as) })" if "muted m" for m p
  proof (rule hushed_bind)
    fix x assume x: "advanceLeaderCommit m = Some x"
    obtain m' b where "x = (m', b)" by (cases x)
    with x that A [of m' p b] advanceLeaderCommit_muted [of m m' b]
    show "hushed (case x of (n, advanced) \<Rightarrow> do { (n, actions) \<leftarrow> replicateAfterResponse n r p advanced;
        (n, as) \<leftarrow> acknowledgeRead n r; Some (n, actions @ as) })" by simp
  qed
  have "hushed (do { n \<leftarrow> recordAppendResponse n r; (n, advanced) \<leftarrow> advanceLeaderCommit n;
      (n, actions) \<leftarrow> replicateAfterResponse n r p advanced; (n, as) \<leftarrow> acknowledgeRead n r; Some (n, actions @ as) })" for p
    by (rule hushed_bind, rule B) (simp add: recordAppendResponse_muted assms)
  then show ?thesis
    unfolding handleAppendEntriesResponse_def Let_def using assms persist_follower_hushed by simp
qed

lemma handleInstallSnapshot_hushed: "muted n \<Longrightarrow> hushed (handleInstallSnapshot n r)"
  unfolding handleInstallSnapshot_def Let_def
  by (auto simp: installSnapshotLog_muted intro!: hushed_bind afterTermChange_hushed)

lemma handleInstallSnapshotResponse_hushed: "muted n \<Longrightarrow> hushed (handleInstallSnapshotResponse n r)"
  unfolding handleInstallSnapshotResponse_def Let_def
  using persist_follower_hushed by (auto intro!: sendAppendEntriesTo_hushed)

lemma hardStatePersisted_hushed: "muted n \<Longrightarrow> hushed (Some (hardStatePersisted n pid))"
  by (auto simp: hardStatePersisted_def Let_def muted_def map_delete_def split: option.splits)

lemma logEntriesPersisted_hushed: "muted n \<Longrightarrow> hushed (logEntriesPersisted n pid)"
  unfolding logEntriesPersisted_def Let_def
  by (auto split: option.splits logPersistencePurpose.splits intro!: sendAppendEntries_hushed advanceFollowerCommit_hushed)

lemma commitIndexPersisted_hushed:
  assumes "muted n" shows "hushed (commitIndexPersisted n pid)"
proof (cases "n_pendingCommit n pid")
  case (Some p)
  have "muted (n\<lparr>n_pendingCommit := map_delete (n_pendingCommit n) pid\<rparr>)" "silent (pc_after p)"
    using assms Some by (auto simp: muted_def map_delete_def)
  with Some show ?thesis
    unfolding commitIndexPersisted_def Let_def by (simp add: hushed_bind_pair [OF applyThrough_hushed])
qed (use assms in \<open>simp add: commitIndexPersisted_def\<close>)

subsection \<open>One verdict per proposal\<close>

definition verdicts :: "Action list \<Rightarrow> nat" where
  "verdicts as = length (filter verdict as)"

lemma verdicts_simps [simp]: "verdicts [] = 0" "verdicts (a # as) = (if verdict a then 1 else 0) + verdicts as"
  "verdicts (as @ bs) = verdicts as + verdicts bs"
  by (simp_all add: verdicts_def)

lemma silent_verdicts: "silent as \<longleftrightarrow> verdicts as = 0"
  by (auto simp: silent_def verdicts_def filter_empty_conv)

fun proposes :: "Event \<Rightarrow> bool" where
  "proposes (EvProposeSession p) = True"
| "proposes (EvProposeSet p) = True"
| "proposes (EvProposeDelete p) = True"
| "proposes _ = False"

text \<open>The proposals the request handlers make.\<close>

fun proposal_ok :: "Event \<Rightarrow> bool" where
  "proposal_ok (EvProposeSession p) \<longleftrightarrow> ps_Type p = EntryOpenSession \<or> ps_Type p = EntryCloseSession"
| "proposal_ok e \<longleftrightarrow> proposes e"

lemma proposeEntry_verdict:
  assumes "muted n" "proposeEntry n i entry = Some (n', as)"
  shows "muted n' \<and> verdicts as = 1"
proof -
  obtain n1 where n1: "appendEntries n [entry] = Some n1" using assms(2) by (auto simp: proposeEntry_def Option.bind_eq_Some_conv)
  show ?thesis
    using assms(2) proposed_entry_hushed [OF assms(1) n1] by (auto simp: proposeEntry_def n1 split_beta silent_verdicts)
qed

lemma Step_proposes:
  assumes "muted n" "proposes e" "Step n e = Some (n', as)"
  shows "muted n' \<and> verdicts as \<le> 1 \<and> (proposal_ok e \<longrightarrow> verdicts as = 1)"
  using assms proposeEntry_verdict [OF assms(1)]
  by (cases e) (auto simp: proposeSession_def proposeSet_def proposeDelete_def split: if_splits)

lemma checkQuorum_hushed: "muted n \<Longrightarrow> hushed (Some (checkQuorum n))"
  by (simp add: checkQuorum_def)

lemma handleAppendEntriesFailed_hushed: "muted n \<Longrightarrow> muted (handleAppendEntriesFailed n to rid)"
  by (simp add: handleAppendEntriesFailed_def Let_def)

lemmas handlers_hushed = startPreVote_hushed heartbeatRound_hushed checkQuorum_hushed hardStatePersisted_hushed
  logEntriesPersisted_hushed commitIndexPersisted_hushed applyThrough_hushed confirmRead_hushed handlePreVoteResponse_hushed
  handleVoteRequest_hushed handleVoteResponse_hushed handleAppendEntries_hushed handleAppendEntriesResponse_hushed
  handleInstallSnapshot_hushed handleInstallSnapshotResponse_hushed handleAppendEntriesFailed_hushed

lemma snapshotCompacted_hushed: "muted n \<Longrightarrow> hushed (map_option (\<lambda>n. (n, [])) (compactLog n i t))"
  using compactLog_muted [of n i t] by (cases "compactLog n i t") auto

lemma handlePreVoteRequest_hushed: "muted n \<Longrightarrow> hushed (Some (handlePreVoteRequest n r))"
  by (simp add: handlePreVoteRequest_def)

lemma Step_hushed: "muted n \<Longrightarrow> \<not> proposes e \<Longrightarrow> hushed (Step n e)"
  by (cases e) (simp_all add: handlers_hushed snapshotCompacted_hushed handlePreVoteRequest_hushed)

lemma Step_verdicts:
  assumes "muted n" "Step n e = Some (n', as)"
  shows "muted n' \<and> verdicts as \<le> (if proposes e then 1 else 0) \<and> (proposal_ok e \<longrightarrow> verdicts as = 1)"
proof (cases "proposes e")
  case False
  then have "\<not> proposal_ok e" by (cases e) auto
  with Step_hushed [OF assms(1) False] assms(2) False show ?thesis by (simp add: silent_verdicts)
qed (use Step_proposes [OF assms(1) _ assms(2)] in simp)

lemma persistAction_silent: "persistAction a w = Some (w', err, e) \<Longrightarrow> \<not> verdict a \<and> \<not> proposes e"
  by (cases a) (auto split: prod.splits)

subsection \<open>The persistence step\<close>

definition counted :: "raftRuntime \<Rightarrow> nat \<Rightarrow> raftRuntime \<times> (WalError + Action list) \<Rightarrow> bool" where
  "counted r k x \<longleftrightarrow> (muted (rt_core r) \<longrightarrow>
     muted (rt_core (fst x)) \<and> (\<forall>out. snd x = Inr out \<longrightarrow> verdicts out = k))"

lemma stepLoop_counted:
  "stepLoop r pending emitted = Some x \<Longrightarrow> counted r (verdicts emitted + verdicts pending) x"
proof (erule stepLoop.raw_induct [where P = "\<lambda>r pending emitted x. counted r (verdicts emitted + verdicts pending) x", rotated], goal_cases)
  case (1 f r pending emitted x)
  show ?case
  proof (cases pending)
    case Nil
    with 1(2) show ?thesis by (auto simp: counted_def)
  next
    case (Cons a rest)
    show ?thesis
    proof (cases "persistAction a (rt_wal r)")
      case None
      with 1(2) Cons have "f r rest (emitted @ [a]) = Some x" by simp
      from 1(1) [OF this] Cons show ?thesis by (simp add: add_ac)
    next
      case (Some p)
      obtain w err e where p: "p = (w, err, e)" by (cases p)
      note a = persistAction_silent [OF Some [unfolded p]]
      show ?thesis
      proof (cases err)
        case None
        obtain core as where s: "Step (rt_core r) e = Some (core, as)"
          using 1(2) Cons Some p None by (auto split: option.splits)
        have "f (r\<lparr>rt_core := core, rt_wal := w\<rparr>) (rest @ as) emitted = Some x"
          using 1(2) Cons Some p None s by simp
        from 1(1) [OF this] Step_verdicts [OF _ s] a Cons show ?thesis by (auto simp: counted_def)
      qed (use 1(2) Cons Some p in \<open>auto simp: counted_def\<close>)
    qed
  qed
qed

lemma runtime_step_verdicts:
  assumes "runtime_step r e = Some (r', result)" "muted (rt_core r)"
  shows "muted (rt_core r')" and "result = Inr out \<Longrightarrow> verdicts out \<le> (if proposes e then 1 else 0)"
    and "result = Inr out \<Longrightarrow> proposal_ok e \<Longrightarrow> verdicts out = 1"
proof -
  obtain core as where s: "Step (rt_core r) e = Some (core, as)" "stepLoop (r\<lparr>rt_core := core\<rparr>) as [] = Some (r', result)"
    using assms(1) by (auto simp: runtime_step_def split: option.splits)
  from stepLoop_counted [OF s(2)] Step_verdicts [OF assms(2) s(1)]
  show "muted (rt_core r')" "result = Inr out \<Longrightarrow> verdicts out \<le> (if proposes e then 1 else 0)"
    "result = Inr out \<Longrightarrow> proposal_ok e \<Longrightarrow> verdicts out = 1"
    by (auto simp: counted_def)
qed

subsection \<open>One iteration\<close>

text \<open>The request that a verdict of the core settles.\<close>

definition due :: "runtimeInput option \<Rightarrow> Channel multiset" where
  "due cur = (case cur of Some (ProposalInput p) \<Rightarrow> {#pi_result p#} | _ \<Rightarrow> {#})"

lemma taken_due: "taken a cur = (if verdict a then due cur else {#})"
  by (cases a; cases cur; cases "the cur") (auto simp: due_def)

definition readIDs :: "commandCoordinator \<Rightarrow> ReadID set" where
  "readIDs c = fst ` set (cc_pendingReads c)"

lemma handle_readIDs: "handle c a cur = Some (c', sent, b) \<Longrightarrow> readIDs c' \<subseteq> readIDs c"
  by (cases a) (auto simp: readIDs_def handleApply_def await_def Let_def AList.delete_eq split: option.splits runtimeInput.splits prod.splits if_splits)

text \<open>What a piece of the loop may do to the waiting requests: answer them, and take over those in \<open>new\<close>.\<close>

definition conserves :: "loopState \<Rightarrow> Channel multiset \<Rightarrow> loopState \<Rightarrow> Reply list \<Rightarrow> bool" where
  "conserves ls new ls' sent \<longleftrightarrow> coordinator_ok (ls_commands ls') \<and> muted (rt_core (ls_runtime ls')) \<and>
     readIDs (ls_commands ls') \<subseteq> readIDs (ls_commands ls) \<and> ls_snapshotWaiters ls' = ls_snapshotWaiters ls \<and>
     waiting (ls_commands ls') + answered sent = waiting (ls_commands ls) + new"

lemma sendAction_keeps:
  assumes "sendAction env a ls = Some (ls', err)" "muted (rt_core (ls_runtime ls))"
  shows "ls_commands ls' = ls_commands ls \<and> ls_snapshotWaiters ls' = ls_snapshotWaiters ls \<and> muted (rt_core (ls_runtime ls'))"
  using assms runtime_step_verdicts(1)
  by (auto simp: sendAction_def Let_def split: prod.splits option.splits if_splits sum.splits)

lemma timerAction_keeps [simp]: "ls_commands (timerAction a ls) = ls_commands ls"
  "ls_snapshotWaiters (timerAction a ls) = ls_snapshotWaiters ls" "ls_runtime (timerAction a ls) = ls_runtime ls"
  by (cases a; simp)+

lemma conserves_trans:
  "conserves ls new ls' sent \<Longrightarrow> conserves ls' new' ls'' sent' \<Longrightarrow> conserves ls (new + new') ls'' (sent @ sent')"
  unfolding conserves_def by (auto simp: ac_simps)

lemma runActions_conserves:
  assumes "runActions env cur as ls = Some (ls', sent, err)" "coordinator_ok (ls_commands ls)" "muted (rt_core (ls_runtime ls))"
  shows "\<exists>new. conserves ls new ls' sent \<and> new \<subseteq># repeat_mset (verdicts as) (due cur) \<and>
    (err = None \<longrightarrow> new = repeat_mset (verdicts as) (due cur))"
  using assms
proof (induction as arbitrary: ls ls' sent)
  case Nil
  then show ?case by (auto simp: conserves_def)
next
  case (Cons a as)
  obtain c1 sent1 handled where h: "handle (ls_commands ls) a cur = Some (c1, sent1, handled)"
    using Cons.prems(1) by (auto split: option.splits)
  let ?l1 = "ls\<lparr>ls_commands := c1\<rparr>"
  let ?r = "if \<not> handled \<and> isSend a then sendAction env a ?l1 else Some (if handled then ?l1 else timerAction a ?l1, None)"
  obtain l2 err2 where s: "?r = Some (l2, err2)" using Cons.prems(1) h by (auto simp: Let_def split: option.splits)
  have k: "ls_commands l2 = c1" "ls_snapshotWaiters l2 = ls_snapshotWaiters ls" "muted (rt_core (ls_runtime l2))"
    using s sendAction_keeps [of env a ?l1 l2 err2] Cons.prems(3) by (auto split: if_splits)
  have c: "conserves ls (if verdict a then due cur else {#}) l2 sent1"
    using handle_conserves [OF h Cons.prems(2)] handle_readIDs [OF h] k by (simp add: conserves_def taken_due)
  show ?case
  proof (cases err2)
    case (Some e)
    then have "ls' = l2" "sent = sent1" "err = Some e" using Cons.prems(1) h s by (auto simp: Let_def)
    with c show ?thesis by (intro exI [of _ "if verdict a then due cur else {#}"]) auto
  next
    case None
    obtain sent2 where rest: "runActions env cur as l2 = Some (ls', sent2, err)" "sent = sent1 @ sent2"
      using Cons.prems(1) h s None by (auto simp: Let_def)
    obtain new where new: "conserves l2 new ls' sent2" "new \<subseteq># repeat_mset (verdicts as) (due cur)"
      "err = None \<longrightarrow> new = repeat_mset (verdicts as) (due cur)"
      using Cons.IH [OF rest(1)] k c by (auto simp: conserves_def)
    show ?thesis
      using conserves_trans [OF c new(1)] new(2,3) rest(2)
      by (intro exI [of _ "(if verdict a then due cur else {#}) + new"]) auto
  qed
qed

lemma startSnapshot_keeps:
  assumes "startSnapshot cfg waiter auto ls = Some ls'"
  shows "ls_commands ls' = ls_commands ls" "ls_runtime ls' = ls_runtime ls"
    "ls_snapshotWaiters ls' = ls_snapshotWaiters ls @ (case waiter of None \<Rightarrow> [] | Some ch \<Rightarrow> [ch])"
  using assms by (auto simp: startSnapshot_def Let_def split: option.splits if_splits)

lemma afterActions_conserves:
  assumes "afterActions cfg wasLeader ls = Some (ls', lost)" "coordinator_ok (ls_commands ls)" "muted (rt_core (ls_runtime ls))"
  shows "conserves ls {#} ls' lost"
proof -
  obtain state where st: "StateOf (rt_core (ls_runtime ls)) = Some state"
    using assms(1) by (auto simp: afterActions_def split: option.splits)
  obtain c sent where c: "(if wasLeader \<and> st_Role state \<noteq> Leader then lostLeadership (ls_commands ls) (st_LeaderID state)
      else (ls_commands ls, [])) = (c, sent)" by fastforce
  have ok: "coordinator_ok c" "waiting c + answered sent = waiting (ls_commands ls)" "readIDs c \<subseteq> readIDs (ls_commands ls)"
    using c assms(2) lostLeadership_conserves [of "ls_commands ls" "st_LeaderID state" c sent]
    by (auto simp: readIDs_def lostLeadership_def split: if_splits)
  have "lost = sent \<and> ls_commands ls' = c \<and> ls_runtime ls' = ls_runtime ls \<and> ls_snapshotWaiters ls' = ls_snapshotWaiters ls"
    using assms(1) startSnapshot_keeps [of cfg None True _ ls']
    by (auto simp: afterActions_def st c Let_def split: if_splits)
  with ok assms(3) show ?thesis by (simp add: conserves_def)
qed

lemma installReceived_conserves:
  assumes "installReceived env cfg state ls = (ls', err)" "coordinator_ok (ls_commands ls)" "muted (rt_core (ls_runtime ls))"
  shows "conserves ls {#} ls' []"
  using assms
  by (auto simp: installReceived_def conserves_def Let_def coordinator_restore_def coordinator_ok_def waiting_def readIDs_def
      split: prod.splits sum.splits option.splits)

lemma conserves_incoming: "conserves (ls\<lparr>ls_incoming := x\<rparr>) new ls' sent = conserves ls new ls' sent"
  "conserves ls new (ls'\<lparr>ls_incoming := x\<rparr>) sent = conserves ls new ls' sent"
  by (simp_all add: conserves_def)

lemma receiveSnapshot_conserves:
  assumes "receiveSnapshot env cfg request ls = (ls', r)" and c: "coordinator_ok (ls_commands ls)" "muted (rt_core (ls_runtime ls))"
  shows "conserves ls {#} ls' []"
proof -
  have self: "conserves ls {#} (ls\<lparr>ls_incoming := x\<rparr>) []" "conserves ls {#} ls []" for x using c by (simp_all add: conserves_def)
  have inst: "conserves ls {#} l []" if "installReceived env cfg state (ls\<lparr>ls_incoming := x\<rparr>) = (l, err)" for state x l err
    using installReceived_conserves [OF that] c by (simp add: conserves_incoming)
  show ?thesis
    using assms(1) self inst unfolding receiveSnapshot_def Let_def
    by (auto simp: conserves_incoming split: if_splits option.splits prod.splits)
qed

text \<open>The part of an iteration after the event for the core is known.\<close>

lemma coreEvent_conserves:
  assumes p: "(case runtime_step (ls_runtime ls) e of
        None \<Rightarrow> None
      | Some (r, Inl err) \<Rightarrow> Some (ls\<lparr>ls_runtime := r\<rparr>, [], Some (persistenceFailed err))
      | Some (r, Inr actions) \<Rightarrow>
          (case runActions env cur actions (ls\<lparr>ls_runtime := r\<rparr>) of
             None \<Rightarrow> None
           | Some (ls, sent, Some err) \<Rightarrow> Some (ls, sent, Some err)
           | Some (ls, sent, None) \<Rightarrow> map_option (\<lambda>(ls, lost). (ls, sent @ lost, None)) (afterActions cfg wasLeader ls))) =
      Some (ls', sent, err)"
    and c: "coordinator_ok (ls_commands ls)" "muted (rt_core (ls_runtime ls))"
  shows "\<exists>new. conserves ls new ls' sent \<and> new \<subseteq># (if proposes e then due cur else {#}) \<and>
    (err = None \<and> proposal_ok e \<longrightarrow> new = due cur)"
proof -
  obtain r result where r: "runtime_step (ls_runtime ls) e = Some (r, result)" using p by (auto split: option.splits)
  note v = runtime_step_verdicts [OF r c(2)]
  let ?l1 = "ls\<lparr>ls_runtime := r\<rparr>"
  have c1: "conserves ls {#} ?l1 []" using c v(1) by (simp add: conserves_def)
  show ?thesis
  proof (cases result)
    case (Inl e')
    with p r c1 show ?thesis by auto
  next
    case (Inr actions)
    obtain l2 sent2 err2 where a: "runActions env cur actions ?l1 = Some (l2, sent2, err2)"
      using p r Inr by (auto split: option.splits)
    from runActions_conserves [OF a] c v(1) obtain new where new: "conserves ?l1 new l2 sent2"
      "new \<subseteq># repeat_mset (verdicts actions) (due cur)" "err2 = None \<longrightarrow> new = repeat_mset (verdicts actions) (due cur)"
      by auto
    have c2: "conserves ls new l2 sent2" using conserves_trans [OF c1 new(1)] by simp
    have n2: "new \<subseteq># (if proposes e then due cur else {#})" "err2 = None \<and> proposal_ok e \<longrightarrow> new = due cur"
      using new(2,3) v(2,3) [OF Inr] by (cases "verdicts actions"; auto split: if_splits)+
    show ?thesis
    proof (cases err2)
      case (Some e')
      with p r Inr a c2 n2 show ?thesis by auto
    next
      case None
      then obtain lost where "afterActions cfg wasLeader l2 = Some (ls', lost)" "sent = sent2 @ lost" "err = None"
        using p r Inr a by auto
      with conserves_trans [OF c2 afterActions_conserves] c2 n2 None show ?thesis
        by (intro exI [of _ new]) (auto simp: conserves_def)
    qed
  qed
qed

lemma processEvent_conserves:
  assumes p: "processEvent env cfg cur event ls = Some (ls', sent, err)"
    and c: "coordinator_ok (ls_commands ls)" "muted (rt_core (ls_runtime ls))"
  shows "\<exists>new. conserves ls new ls' sent \<and> new \<subseteq># (if proposes event then due cur else {#}) \<and>
    (err = None \<and> proposal_ok event \<longrightarrow> new = due cur)"
proof -
  obtain l0 ev where l0: "(case event of EvInstallSnapshot request \<Rightarrow>
      (case receiveSnapshot env cfg request ls of (ls, Inl err) \<Rightarrow> (ls, Inl err) | (ls, Inr request) \<Rightarrow> (ls, Inr (EvInstallSnapshot request)))
      | _ \<Rightarrow> (ls, Inr event)) = (l0, ev)" by fastforce
  have c0: "conserves ls {#} l0 []"
    using l0 c receiveSnapshot_conserves [OF _ c, of env cfg]
    by (cases event) (auto simp: conserves_def split: prod.splits sum.splits)
  have same: "proposes e = proposes event \<and> proposal_ok e = proposal_ok event" if "ev = Inr e" for e
    using l0 that by (cases event) (auto split: prod.splits sum.splits)
  show ?thesis
  proof (cases ev)
    case (Inl e)
    then have "ls' = l0" "sent = []" "err = Some e" using p l0 by (auto simp: processEvent_def Let_def)
    with c0 show ?thesis by auto
  next
    case (Inr e)
    note p' = p [unfolded processEvent_def Let_def l0 prod.case Inr sum.case]
    from coreEvent_conserves [OF p'] c0 obtain new where
      "conserves l0 new ls' sent" "new \<subseteq># (if proposes e then due cur else {#})"
      "err = None \<and> proposal_ok e \<longrightarrow> new = due cur" by (auto simp: conserves_def)
    with conserves_trans [OF c0] same [OF Inr] show ?thesis by (intro exI [of _ new]) auto
  qed
qed

subsection \<open>A run of the loop\<close>

fun outChannel :: "Output \<Rightarrow> Channel" where
  "outChannel (Answer reply) = replyChannel reply"
| "outChannel (SnapshotAnswer ch _) = ch"

text \<open>The requests that wait, those that were answered, and those that arrive.\<close>

definition unanswered :: "loopState \<Rightarrow> Channel multiset" where
  "unanswered ls = waiting (ls_commands ls) + mset (ls_snapshotWaiters ls)"

definition answeredBy :: "Output list \<Rightarrow> Channel multiset" where
  "answeredBy out = mset (map outChannel out)"

fun arriving :: "Selected \<Rightarrow> Channel multiset" where
  "arriving (Arrived (ProposalInput p)) = {#pi_result p#}"
| "arriving (Arrived (ReadInput r)) = {#ri_result r#}"
| "arriving (Arrived (snapshotInput ch)) = {#ch#}"
| "arriving _ = {#}"

fun arrivingRead :: "Selected \<Rightarrow> ReadID list" where
  "arrivingRead (Arrived (ReadInput r)) = [ri_readID r]"
| "arrivingRead _ = []"

text \<open>Nothing but an error of the loop or the end of a request's context drops a request.\<close>

fun orderly :: "Environment \<Rightarrow> Selected \<Rightarrow> bool" where
  "orderly env (Arrived (ProposalInput p)) \<longleftrightarrow> env_ended env = {} \<and> proposal_ok (pi_event p)"
| "orderly env _ \<longleftrightarrow> env_ended env = {}"

lemma answeredBy_simps [simp]: "answeredBy [] = {#}" "answeredBy (out @ out') = answeredBy out + answeredBy out'"
  "answeredBy (map Answer sent) = answered sent"
  by (simp_all add: answeredBy_def answered_def comp_def)

definition loop_ok :: "loopState \<Rightarrow> bool" where
  "loop_ok ls \<longleftrightarrow> coordinator_ok (ls_commands ls) \<and> muted (rt_core (ls_runtime ls))"

definition settles :: "bool \<Rightarrow> loopState \<Rightarrow> Channel multiset \<Rightarrow> ReadID set \<Rightarrow> loopState \<Rightarrow> Output list \<Rightarrow> bool" where
  "settles exact ls new ids ls' out \<longleftrightarrow> loop_ok ls' \<and> readIDs (ls_commands ls') \<subseteq> readIDs (ls_commands ls) \<union> ids \<and>
     unanswered ls' + answeredBy out \<subseteq># unanswered ls + new \<and>
     (exact \<longrightarrow> unanswered ls' + answeredBy out = unanswered ls + new)"

lemma conserves_settles:
  "conserves ls new ls' sent \<Longrightarrow> new \<subseteq># new' \<Longrightarrow> (exact \<Longrightarrow> new = new') \<Longrightarrow> settles exact ls new' {} ls' (map Answer sent)"
  by (auto simp: conserves_def settles_def loop_ok_def unanswered_def add_ac)

lemma processed_settles:
  assumes "processed (processEvent env cfg cur event ls) = Some (ls', out, err)" "loop_ok ls"
  shows "settles (err = None \<and> (proposal_ok event \<or> due cur = {#})) ls (if proposes event then due cur else {#}) {} ls' out"
proof -
  obtain sent where p: "processEvent env cfg cur event ls = Some (ls', sent, err)" "out = map Answer sent"
    using assms(1) by (auto simp: processed_def)
  obtain new where new: "conserves ls new ls' sent" "new \<subseteq># (if proposes event then due cur else {#})"
    "err = None \<and> proposal_ok event \<longrightarrow> new = due cur"
    using processEvent_conserves [OF p(1)] assms(2) by (auto simp: loop_ok_def)
  have "proposal_ok event \<Longrightarrow> proposes event" by (cases event) auto
  with new show ?thesis unfolding p(2) by (intro conserves_settles [OF new(1,2)]) auto
qed

text \<open>The pruning at the beginning of an iteration.\<close>

lemma prune_settles:
  assumes "loop_ok ls"
  shows "settles (env_ended env = {}) ls {#} {} (ls\<lparr>ls_commands := pruneCanceled (env_ended env) (ls_commands ls)\<rparr>) []"
proof -
  let ?c = "ls_commands ls"
  have "waiting (pruneCanceled {} ?c) = waiting ?c"
  proof -
    have "mset (concat (map (\<lambda>(_, ps). map pp_result ps) (filter (\<lambda>(_, ps). ps \<noteq> []) al))) =
        mset (concat (map (\<lambda>(_, ps). map pp_result ps) al))" for al :: "(u64 \<times> pendingProposal list) list"
      by (induction al) auto
    then show ?thesis by (simp add: waiting_def pruneCanceled_def case_prod_unfold filter_True)
  qed
  moreover have "readIDs (pruneCanceled (env_ended env) ?c) \<subseteq> readIDs ?c" by (auto simp: readIDs_def pruneCanceled_def)
  ultimately show ?thesis
    using assms pruneCanceled_drops [of ?c "env_ended env"]
    by (auto simp: settles_def loop_ok_def unanswered_def intro: subset_mset.add_right_mono)
qed

lemma ledger_chain:
  fixes a b c :: "'a multiset"
  shows "b + o1 \<subseteq># a + n1 \<Longrightarrow> c + o2 \<subseteq># b + n2 \<Longrightarrow> c + (o1 + o2) \<subseteq># a + (n1 + n2)"
    and "b + o1 = a + n1 \<Longrightarrow> c + o2 = b + n2 \<Longrightarrow> c + (o1 + o2) = a + (n1 + n2)"
proof -
  assume s: "b + o1 \<subseteq># a + n1" "c + o2 \<subseteq># b + n2"
  have "c + (o1 + o2) = (c + o2) + o1" by (simp add: add_ac)
  also have "\<dots> \<subseteq># (b + n2) + o1" using s(2) by (rule subset_mset.add_right_mono)
  also have "(b + n2) + o1 = (b + o1) + n2" by (simp add: add_ac)
  also have "\<dots> \<subseteq># (a + n1) + n2" using s(1) by (rule subset_mset.add_right_mono)
  finally show "c + (o1 + o2) \<subseteq># a + (n1 + n2)" by (simp add: add_ac)
next
  assume s: "b + o1 = a + n1" "c + o2 = b + n2"
  have "c + (o1 + o2) = (b + o1) + n2" using s(2) by (simp add: add_ac)
  then show "c + (o1 + o2) = a + (n1 + n2)" using s(1) by (simp add: add_ac)
qed

lemma settles_trans:
  assumes "settles e ls new ids ls' out" "settles e' ls' new' ids' ls'' out'"
  shows "settles (e \<and> e') ls (new + new') (ids \<union> ids') ls'' (out @ out')"
  using assms ledger_chain [of "unanswered ls'" "answeredBy out" "unanswered ls" new "unanswered ls''" "answeredBy out'" new']
  by (simp add: settles_def) blast

lemma settles_weaken:
  "settles e ls new ids ls' out \<Longrightarrow> (e' \<Longrightarrow> e \<and> new = new') \<Longrightarrow> new \<subseteq># new' \<Longrightarrow> ids \<subseteq> ids' \<Longrightarrow> settles e' ls new' ids' ls' out"
  unfolding settles_def by (auto intro: subset_mset.order_trans [OF _ subset_mset.add_left_mono])

lemma runtime_step_event_settles:
  "runtime_step (ls_runtime ls) e = Some (r, result) \<Longrightarrow> loop_ok ls \<Longrightarrow> loop_ok (ls\<lparr>ls_runtime := r\<rparr>)"
  using runtime_step_verdicts(1) by (auto simp: loop_ok_def)

lemma completeSnapshot_settles:
  assumes "completeSnapshot completion ls = Some (ls', out, err)" "loop_ok ls"
  shows "settles True ls {#} {} ls' out"
proof -
  let ?l = "fst (finishSnapshot completion (ls\<lparr>ls_completion := None\<rparr>))"
  have f: "loop_ok ?l" "ls_commands ?l = ls_commands ls" "ls_snapshotWaiters ?l = []"
    "answeredBy (snd (finishSnapshot completion (ls\<lparr>ls_completion := None\<rparr>))) = mset (ls_snapshotWaiters ls)"
    using assms(2) by (auto simp: finishSnapshot_def loop_ok_def answeredBy_def comp_def)
  have "loop_ok ls' \<and> ls_commands ls' = ls_commands ls \<and> ls_snapshotWaiters ls' = [] \<and>
      out = snd (finishSnapshot completion (ls\<lparr>ls_completion := None\<rparr>))"
    using assms(1) f runtime_step_event_settles [OF _ f(1)]
    by (auto simp: completeSnapshot_def Let_def publish_def loop_ok_def split_beta split: if_splits option.splits sum.splits)
  with f show ?thesis by (simp add: settles_def unanswered_def)
qed

lemma proposal_settles:
  assumes "beginProposal (ls_commands ls) p = (c, sent, event)" "loop_ok ls"
    and "(case event of None \<Rightarrow> Some (ls\<lparr>ls_commands := c\<rparr>, map Answer sent, None)
       | Some event \<Rightarrow> processed (processEvent env cfg (Some (ProposalInput p)) event (ls\<lparr>ls_commands := c\<rparr>))) = Some (ls', out, err)"
  shows "settles (err = None \<and> proposal_ok (pi_event p)) ls {#pi_result p#} {} ls' out"
proof -
  have ids: "readIDs c = readIDs (ls_commands ls)"
    using assms(1) by (auto simp: beginProposal_def readIDs_def await_def Let_def split: option.splits prod.splits if_splits)
  have ok: "coordinator_ok (ls_commands ls)" "muted (rt_core (ls_runtime ls))" using assms(2) by (simp_all add: loop_ok_def)
  note b = beginProposal_conserves [OF assms(1) ok(1)]
  show ?thesis
  proof (cases event)
    case None
    then have l: "ls' = ls\<lparr>ls_commands := c\<rparr>" "out = map Answer sent" using assms(3) by auto
    have "unanswered ls' + answeredBy out = (waiting c + answered sent) + mset (ls_snapshotWaiters ls)"
      by (simp add: l unanswered_def add_ac)
    also have "\<dots> = unanswered ls + {#pi_result p#}" unfolding b(2) by (simp add: None unanswered_def)
    finally show ?thesis using b(1) ok(2) by (simp add: settles_def loop_ok_def l(1) ids)
  next
    case (Some e)
    have same: "c = ls_commands ls" "sent = []" "e = pi_event p"
      using assms(1) Some by (auto simp: beginProposal_def Let_def split: option.splits prod.splits if_splits)
    have "processed (processEvent env cfg (Some (ProposalInput p)) e ls) = Some (ls', out, err)" using assms(3) Some same by simp
    from processed_settles [OF this assms(2)] show ?thesis
      by (rule settles_weaken) (auto simp: due_def same, cases "pi_event p", auto)
  qed
qed

lemma read_settles:
  assumes "beginRead (ls_commands ls) r = (c, event)" "loop_ok ls" "ri_readID r \<notin> readIDs (ls_commands ls)"
    and p: "processed (processEvent env cfg (Some (ReadInput r)) event (ls\<lparr>ls_commands := c\<rparr>)) = Some (ls', out, err)"
  shows "settles (err = None) ls {#ri_result r#} {ri_readID r} ls' out"
proof -
  have e: "\<not> proposes event" using assms(1) by (auto simp: beginRead_def)
  have ids: "readIDs c = insert (ri_readID r) (readIDs (ls_commands ls))"
    using assms(1) by (clarsimp simp: readIDs_def beginRead_def dom_update)
  have b: "settles True ls {#ri_result r#} {ri_readID r} (ls\<lparr>ls_commands := c\<rparr>) []"
    using beginRead_conserves [OF assms(1)] assms(2,3) by (simp add: settles_def loop_ok_def unanswered_def ids readIDs_def [symmetric])
  then have "loop_ok (ls\<lparr>ls_commands := c\<rparr>)" by (simp add: settles_def)
  from settles_trans [OF b processed_settles [OF p this]] e show ?thesis by (simp add: due_def)
qed

lemma event_settles:
  assumes "processed (processEvent env cfg cur event ls) = Some (ls', out, err)" "loop_ok ls" "due cur = {#}"
  shows "settles (err = None \<and> e) ls {#} {} ls' out"
  by (rule settles_weaken [OF processed_settles [OF assms(1,2)]]) (simp_all add: assms(3))

text \<open>An iteration after the pruning.\<close>

lemma selected_settles:
  assumes it: "iteration env cfg sel ls = Some (ls', out, err)"
    and l: "l = ls\<lparr>ls_commands := pruneCanceled (env_ended env) (ls_commands ls)\<rparr>" and ok: "loop_ok l"
    and fresh: "set (arrivingRead sel) \<inter> readIDs (ls_commands l) = {}"
  shows "settles (err = None \<and> orderly env sel) l (arriving sel) (set (arrivingRead sel)) ls' out"
proof (cases sel)
  case SnapshotFinished
  then have "settles True l {#} {} ls' out"
    using it ok completeSnapshot_settles [OF _ ok]
    by (cases "ls_completion l") (simp_all add: iteration_def Let_def l [symmetric], simp add: settles_def)
  with SnapshotFinished show ?thesis by (simp add: settles_weaken)
next
  case (Arrived input)
  show ?thesis
  proof (cases input)
    case (raftEventInput e)
    then have "processed (processEvent env cfg (Some input) e l) = Some (ls', out, err)"
      using it Arrived by (simp add: iteration_def Let_def l)
    from event_settles [OF this ok] Arrived raftEventInput show ?thesis by (simp add: due_def)
  next
    case (ProposalInput p)
    obtain c sent event where b: "beginProposal (ls_commands l) p = (c, sent, event)" by (metis prod_cases3)
    have "settles (err = None \<and> proposal_ok (pi_event p)) l {#pi_result p#} {} ls' out"
      by (rule proposal_settles [OF b ok])
         (use it Arrived ProposalInput b in \<open>simp add: iteration_def Let_def l split: option.splits\<close>)
    with Arrived ProposalInput show ?thesis by (simp add: settles_weaken)
  next
    case (ReadInput r)
    obtain c event where b: "beginRead (ls_commands l) r = (c, event)" by fastforce
    have "settles (err = None) l {#ri_result r#} {ri_readID r} ls' out"
      by (rule read_settles [OF b ok])
         (use it Arrived ReadInput b fresh in \<open>simp_all add: iteration_def Let_def l\<close>)
    with Arrived ReadInput show ?thesis by (simp add: settles_weaken)
  next
    case (snapshotInput ch)
    then have "startSnapshot cfg (Some ch) False l = Some ls'" "out = []"
      using it Arrived by (auto simp: iteration_def Let_def l)
    with Arrived snapshotInput ok startSnapshot_keeps [of cfg "Some ch" False l ls'] show ?thesis
      by (simp add: settles_def loop_ok_def unanswered_def)
  qed
qed (use it event_settles [OF _ ok, of env cfg None _ ls' out err] in
      \<open>simp_all add: iteration_def Let_def l [symmetric] due_def\<close>)

lemma iteration_settles:
  assumes it: "iteration env cfg sel ls = Some (ls', out, err)" and ok: "loop_ok ls"
    and fresh: "set (arrivingRead sel) \<inter> readIDs (ls_commands ls) = {}"
  shows "settles (err = None \<and> orderly env sel) ls (arriving sel) (set (arrivingRead sel)) ls' out"
proof -
  let ?l = "ls\<lparr>ls_commands := pruneCanceled (env_ended env) (ls_commands ls)\<rparr>"
  note pr = prune_settles [OF ok, of env]
  have ok': "loop_ok ?l" and ids: "readIDs (ls_commands ?l) \<subseteq> readIDs (ls_commands ls)" using pr by (simp_all add: settles_def)
  have "settles (err = None \<and> orderly env sel) ?l (arriving sel) (set (arrivingRead sel)) ls' out"
    by (rule selected_settles [OF it refl ok']) (use fresh ids in auto)
  note t = settles_trans [OF pr this]
  have "orderly env sel \<Longrightarrow> env_ended env = {}" by (cases "(env, sel)" rule: orderly.cases) auto
  then show ?thesis by (intro settles_weaken [OF t [unfolded append_Nil]]) auto
qed

text \<open>The loop of \<^verbatim>\<open>runRaft\<close>: the Snapshot goroutine may finish its work between two iterations; an error ends the
  loop.\<close>

datatype LoopChoice = Work Environment | Turn Environment Selected

fun runLoop :: "Config \<Rightarrow> LoopChoice list \<Rightarrow> loopState \<Rightarrow> (loopState \<times> Output list \<times> LoopError option) option" where
  "runLoop cfg [] ls = Some (ls, [], None)"
| "runLoop cfg (Work env # rest) ls = runLoop cfg rest (snapshotWorker env ls)"
| "runLoop cfg (Turn env sel # rest) ls =
     (case iteration env cfg sel ls of
        None \<Rightarrow> None
      | Some (ls, out, Some err) \<Rightarrow> Some (ls, out, Some err)
      | Some (ls, out, None) \<Rightarrow> map_option (\<lambda>(ls, rest, err). (ls, out @ rest, err)) (runLoop cfg rest ls))"

fun requests :: "LoopChoice list \<Rightarrow> Channel multiset" where
  "requests [] = {#}"
| "requests (Work env # rest) = requests rest"
| "requests (Turn env sel # rest) = arriving sel + requests rest"

fun readRequests :: "LoopChoice list \<Rightarrow> ReadID list" where
  "readRequests [] = []"
| "readRequests (Work env # rest) = readRequests rest"
| "readRequests (Turn env sel # rest) = arrivingRead sel @ readRequests rest"

fun orderlyRun :: "LoopChoice list \<Rightarrow> bool" where
  "orderlyRun [] \<longleftrightarrow> True"
| "orderlyRun (Work env # rest) \<longleftrightarrow> orderlyRun rest"
| "orderlyRun (Turn env sel # rest) \<longleftrightarrow> orderly env sel \<and> orderlyRun rest"

lemma snapshotWorker_settles: "loop_ok ls \<Longrightarrow> settles True ls {#} {} (snapshotWorker env ls) []"
  by (auto simp: snapshotWorker_def Let_def settles_def loop_ok_def unanswered_def split: option.splits prod.splits)

lemma runLoop_settles:
  assumes "runLoop cfg cs ls = Some (ls', out, err)" "loop_ok ls" "distinct (readRequests cs)"
    "set (readRequests cs) \<inter> readIDs (ls_commands ls) = {}"
  shows "settles (err = None \<and> orderlyRun cs) ls (requests cs) (set (readRequests cs)) ls' out"
  using assms
proof (induction cfg cs ls arbitrary: out rule: runLoop.induct)
  case (1 cfg ls)
  then show ?case by (auto simp: settles_def)
next
  case (2 cfg env rest ls)
  note w = snapshotWorker_settles [OF 2(3), of env]
  have "readIDs (ls_commands (snapshotWorker env ls)) \<subseteq> readIDs (ls_commands ls)" "loop_ok (snapshotWorker env ls)"
    using w by (simp_all add: settles_def)
  with 2 have "settles (err = None \<and> orderlyRun rest) (snapshotWorker env ls) (requests rest) (set (readRequests rest)) ls' out"
    by (intro "2.IH") auto
  from settles_trans [OF w this] show ?case by simp
next
  case (3 cfg env sel rest ls)
  obtain l1 out1 err1 where it: "iteration env cfg sel ls = Some (l1, out1, err1)" using 3(2) by (auto split: option.splits)
  have s: "settles (err1 = None \<and> orderly env sel) ls (arriving sel) (set (arrivingRead sel)) l1 out1"
    by (rule iteration_settles [OF it 3(3)]) (use 3(5) in auto)
  show ?case
  proof (cases err1)
    case (Some e)
    then have l: "ls' = l1" "out = out1" "err = Some e" using 3(2) it by auto
    show ?thesis unfolding l by (rule settles_weaken [OF s]) auto
  next
    case None
    obtain out2 where r: "runLoop cfg rest l1 = Some (ls', out2, err)" "out = out1 @ out2"
      using 3(2) it None by auto
    have "loop_ok l1" "readIDs (ls_commands l1) \<subseteq> readIDs (ls_commands ls) \<union> set (arrivingRead sel)"
      using s by (simp_all add: settles_def)
    then have "settles (err = None \<and> orderlyRun rest) l1 (requests rest) (set (readRequests rest)) ls' out2"
      using 3(4,5) by (intro "3.IH" [OF it refl refl None r(1)]) auto
    from settles_trans [OF s this] show ?thesis unfolding r(2) by (rule settles_weaken) (use None in auto)
  qed
qed

lemma NewNode_muted: "NewNodeFromRecoveredState nid peers st = Some n \<Longrightarrow> muted n"
  unfolding NewNodeFromRecoveredState_def Let_def muted_def Option.bind_eq_Some_conv
  by (elim exE conjE) (auto split: if_splits)

lemma openRaftRuntime_muted:
  assumes "openRaftRuntime u v cfg peers segments dir = Some (Inr rt)" shows "muted (rt_core rt)"
proof -
  obtain nid st where "NewNodeFromRecoveredState nid peers st = Some (rt_core rt)"
    using assms by (auto simp: openRaftRuntime_def Let_def split: option.splits sum.splits prod.splits)
  then show ?thesis by (rule NewNode_muted)
qed

lemma recover_keeps:
  "recover c as = Some (c', b) \<Longrightarrow> cc_pending c' = cc_pending c \<and> cc_pendingReads c' = cc_pendingReads c"
  by (induction c as rule: recover.induct) (auto split: option.splits)

lemma startLoop_ok:
  assumes "startLoop cfg rt dir = Some (Inr ls)" "muted (rt_core rt)"
  shows "loop_ok ls \<and> unanswered ls = {#} \<and> readIDs (ls_commands ls) = {}"
proof -
  let ?c = "fst (coordinator_restore (newCommandCoordinator (cfg_ActiveSessionLimit cfg)) (rt_recoveredSnapshot rt))"
  obtain r recovery where r: "runtime_step rt RecoverCommitted = Some (r, Inr recovery)" "recover ?c recovery = Some (ls_commands ls, True)"
    "ls_runtime ls = r" "ls_snapshotWaiters ls = []"
    using assms(1) by (auto simp: startLoop_def Let_def split_beta split: option.splits sum.splits if_splits bool.splits)
  have "cc_pending ?c = []" "cc_pendingReads ?c = []"
    by (simp_all add: coordinator_restore_def newCommandCoordinator_def split_beta)
  with recover_keeps [OF r(2)] r runtime_step_verdicts(1) [OF r(1) assms(2)] show ?thesis
    by (simp add: loop_ok_def unanswered_def waiting_def coordinator_ok_def readIDs_def)
qed


text \<open>A new Node, which is a follower, turns two requests away.\<close>

definition sample_choices :: "LoopChoice list" where
  "sample_choices =
     [Turn received_env (Arrived (ProposalInput \<lparr>pi_event = EvProposeSession \<lparr>ps_ProposalID = 1, ps_Type = EntryOpenSession,
        ps_SessionID = replicate 16 7\<rparr>, pi_result = 10, pi_ctx = 5\<rparr>)),
      Turn received_env (Arrived (ReadInput \<lparr>ri_readID = 1, ri_result = 11, ri_ctx = 2, ri_key = ''k''\<rparr>))]"

definition sample_follower :: Node where
  "sample_follower = the (NewNodeFromRecoveredState ''n2'' [''n1'', ''n3''] \<lparr>rs_HardState = \<lparr>hs_Term = 0, hs_VotedFor = ''''\<rparr>,
     rs_Log = [], rs_CommitIndex = 0, rs_SnapshotIndex = 0, rs_SnapshotTerm = 0\<rparr>)"

lemma sample_follower_fields:
  "n_role sample_follower = Follower" "n_lastApplied sample_follower = 0" "n_durableCommitIndex sample_follower = 0"
  "n_pendingReads sample_follower = []" "n_leaderID sample_follower = ''''"
  by (simp_all add: sample_follower_def NewNodeFromRecoveredState_def)

lemma sample_follower_opens:
  "\<exists>w. openRaftRuntime (\<lambda>_. None) (\<lambda>_. None) sample_config [''n1'', ''n3''] [] emptyDir =
     Some (Inr \<lparr>rt_core = sample_follower, rt_wal = w, rt_recoveredSnapshot = None\<rparr>)"
proof -
  obtain w where o: "Open (\<lambda>_. None) [] (walIdentityOf sample_config) = Inr (w, emptyState (walIdentityOf sample_config))"
    using sample_wal_opens by blast
  have "nc_ID (cfg_Node sample_config) = ''n2''" by (simp add: sample_config_def)
  with o show ?thesis
    by (intro exI [of _ w]) (simp add: openRaftRuntime_def LoadNewest_empty emptyState_def sample_follower_def NewNodeFromRecoveredState_def)
qed

lemma sample_follower_steps:
  assumes "rt_core r = sample_follower"
  shows "runtime_step r RecoverCommitted = Some (r, Inr [])"
    "runtime_step r (EvProposeSession p) = Some (r, Inr [ProposalRejected (ps_ProposalID p) ''''])"
    "runtime_step r (ConfirmRead i) = Some (r, Inr [ReadRejected i ''''])"
proof -
  have r: "r\<lparr>rt_core := sample_follower\<rparr> = r" using assms by simp
  show "runtime_step r RecoverCommitted = Some (r, Inr [])"
    "runtime_step r (EvProposeSession p) = Some (r, Inr [ProposalRejected (ps_ProposalID p) ''''])"
    "runtime_step r (ConfirmRead i) = Some (r, Inr [ReadRejected i ''''])"
    by (simp_all add: runtime_step_def assms r stepLoop.simps applyThrough_def completeReads_def proposeSession_def confirmRead_def
        sample_follower_fields)
qed

lemma sample_follower_state: "\<exists>st. StateOf sample_follower = Some st \<and> st_Role st = Follower \<and> st_LastApplied st = 0"
  by (simp add: StateOf_def sample_follower_fields)

lemma sample_follower_rejects:
  assumes c: "rt_core (ls_runtime ls) = sample_follower"
  shows "\<exists>ls' res. iteration received_env cfg (Arrived (ProposalInput \<lparr>pi_event = EvProposeSession p, pi_result = ch, pi_ctx = x\<rparr>)) ls =
      Some (ls', [Answer (ProposalReply ch res)], None) \<and> rt_core (ls_runtime ls') = sample_follower"
    and "\<exists>ls' res. iteration received_env cfg (Arrived (ReadInput \<lparr>ri_readID = i, ri_result = ch, ri_ctx = x, ri_key = k\<rparr>)) ls =
      Some (ls', [Answer (ReadReply ch res)], None) \<and> rt_core (ls_runtime ls') = sample_follower"
proof -
  obtain st where st: "StateOf sample_follower = Some st" "st_Role st = Follower" "st_LastApplied st = 0"
    using sample_follower_state by blast
  note steps = sample_follower_steps [OF c]
  note defs = iteration_def Let_def beginProposal_def beginRead_def processEvent_def processed_def steps c sample_follower_fields
    afterActions_def st
  show "\<exists>ls' res. iteration received_env cfg (Arrived (ProposalInput \<lparr>pi_event = EvProposeSession p, pi_result = ch, pi_ctx = x\<rparr>)) ls =
      Some (ls', [Answer (ProposalReply ch res)], None) \<and> rt_core (ls_runtime ls') = sample_follower"
    by (simp add: defs update_conv')
  show "\<exists>ls' res. iteration received_env cfg (Arrived (ReadInput \<lparr>ri_readID = i, ri_result = ch, ri_ctx = x, ri_key = k\<rparr>)) ls =
      Some (ls', [Answer (ReadReply ch res)], None) \<and> rt_core (ls_runtime ls') = sample_follower"
    by (simp add: defs update_conv')
qed

lemma sample_loop_runs:
  assumes "rt_core (ls_runtime ls0) = sample_follower"
  shows "\<exists>ls out. runLoop sample_config sample_choices ls0 = Some (ls, out, None) \<and> answeredBy out = {#10, 11#}"
proof -
  let ?p = "\<lparr>ps_ProposalID = 1, ps_Type = EntryOpenSession, ps_SessionID = replicate 16 7\<rparr>"
  from sample_follower_rejects(1) [OF assms, of sample_config ?p 10 5] obtain l1 r1 where
    l1: "iteration received_env sample_config (Arrived (ProposalInput \<lparr>pi_event = EvProposeSession ?p, pi_result = 10, pi_ctx = 5\<rparr>)) ls0 =
      Some (l1, [Answer (ProposalReply 10 r1)], None)" "rt_core (ls_runtime l1) = sample_follower" by blast
  from sample_follower_rejects(2) [OF l1(2), of sample_config 1 11 2 "''k''"] obtain l2 r2 where
    l2: "iteration received_env sample_config (Arrived (ReadInput \<lparr>ri_readID = 1, ri_result = 11, ri_ctx = 2, ri_key = ''k''\<rparr>)) l1 =
      Some (l2, [Answer (ReadReply 11 r2)], None)" by blast
  show ?thesis unfolding sample_choices_def by (simp add: l1 l2 answeredBy_def del: One_nat_def)
qed

lemma sample_loop_starts:
  "\<exists>ls0. startLoop sample_config \<lparr>rt_core = sample_follower, rt_wal = w, rt_recoveredSnapshot = None\<rparr> emptyDir = Some (Inr ls0) \<and>
     rt_core (ls_runtime ls0) = sample_follower"
  using sample_follower_state
  by (auto simp: startLoop_def coordinator_restore_def machine_restore_def sample_follower_steps Let_def)


end
