(* ===== verification/Simulation.thy ===== *)
theory Simulation
  imports Election_Safety Raft_Properties Sessions
begin

text \<open>
  The seeded fault simulation, \<^verbatim>\<open>src/internal/simulation/randomized.go\<close>: three consensus cores, a queue of
  timers, messages, completions and client calls, and a scheduler that delays, drops, duplicates and
  reorders what is in the queue, cuts connections, and crashes and restarts Nodes. The random source is an
  argument, a function of the number of draws made so far and of the bound. The maps over the three Nodes
  are functions, the maps the code iterates over are association lists. A panic of a core is \<open>None\<close>. The
  texts of trace events and errors and the JSON file of a trace are left out.
\<close>

subsection \<open>State\<close>

datatype queuedKind = queuedTimer | queuedMessage | queuedPersistence | queuedClient

record queuedEvent =
  q_kind :: queuedKind
  q_from :: NodeID
  q_to :: NodeID
  q_event :: Event
  q_persistence :: "Action option"
  q_availableAt :: nat

record durableNode =
  d_hard :: HardState
  d_log :: "LogEntry list"
  d_commit :: u64

record modelSession =
  mss_closed :: bool
  mss_lastSequence :: u64
  mss_deleteResult :: bool

record modelState =
  mo_applied :: u64
  mo_values :: "(string \<times> byte list) list"
  mo_sessions :: "(SessionID \<times> modelSession) list"

record FaultCoverage =
  fc_MessageDelay :: bool
  fc_MessageDrop :: bool
  fc_MessageDuplicate :: bool
  fc_MessageReorder :: bool
  fc_Asymmetric :: bool
  fc_Crash :: bool
  fc_Restart :: bool
  fc_PersistenceDelay :: bool

record TraceEvent =
  te_Sequence :: nat
  te_Kind :: string
  te_Node :: NodeID

datatype SimError =
    orderedApplication | onceOnlyApplication | committedPrefixAgreement | electionSafety | monotonicProgress
  | leaderCompleteness | unequalState | durabilityLost | noLeaderElected | outOfEvents | noProgress | notBlocked
  | stepsNotPositive

type_synonym Random = "nat \<Rightarrow> nat \<Rightarrow> nat" \<comment> \<open>\<^verbatim>\<open>Intn\<close>: the draw's number and its bound\<close>

record randomCluster =
  rc_draws :: nat
  rc_nodes :: "NodeID \<Rightarrow> Node"
  rc_alive :: "NodeID \<Rightarrow> bool"
  rc_connected :: "NodeID \<Rightarrow> NodeID \<Rightarrow> bool"
  rc_durable :: "NodeID \<Rightarrow> durableNode"
  rc_models :: "NodeID \<Rightarrow> modelState"
  rc_queue :: "queuedEvent list"
  rc_trace :: "TraceEvent list"
  rc_faults :: FaultCoverage
  rc_leaders :: "(u64 \<times> NodeID) list"
  rc_committed :: "(u64 \<times> LogEntry) list"
  rc_lastState :: "NodeID \<rightharpoonup> State"
  rc_incarnation :: "NodeID \<Rightarrow> u64"
  rc_appliedSeen :: "NodeID \<Rightarrow> u64 \<Rightarrow> u64"
  rc_invariantErr :: "SimError option"
  rc_step :: nat

definition newModelState :: modelState where
  "newModelState = \<lparr>mo_applied = 0, mo_values = [], mo_sessions = []\<rparr>"

definition noFaults :: FaultCoverage where
  "noFaults = \<lparr>fc_MessageDelay = False, fc_MessageDrop = False, fc_MessageDuplicate = False, fc_MessageReorder = False,
     fc_Asymmetric = False, fc_Crash = False, fc_Restart = False, fc_PersistenceDelay = False\<rparr>"

definition newRandomCluster :: randomCluster where
  "newRandomCluster =
     \<lparr>rc_draws = 0, rc_nodes = init_node threeNodeIDs, rc_alive = (\<lambda>nid. nid \<in> set threeNodeIDs),
      rc_connected = (\<lambda>nid peer. nid \<in> set threeNodeIDs \<and> peer \<in> set threeNodeIDs \<and> peer \<noteq> nid),
      rc_durable = (\<lambda>_. \<lparr>d_hard = \<lparr>hs_Term = 0, hs_VotedFor = ''''\<rparr>, d_log = [], d_commit = 0\<rparr>),
      rc_models = (\<lambda>_. newModelState), rc_queue = [], rc_trace = [], rc_faults = noFaults, rc_leaders = [],
      rc_committed = [], rc_lastState = Map.empty, rc_incarnation = (\<lambda>_. 1), rc_appliedSeen = (\<lambda>_ _. 0),
      rc_invariantErr = None, rc_step = 0\<rparr>"

text \<open>A draw, as an index into the three Nodes or into a list of candidates.\<close>

definition draw :: "Random \<Rightarrow> nat \<Rightarrow> randomCluster \<Rightarrow> nat \<times> randomCluster" where
  "draw intn bound c = (intn (rc_draws c) bound, c\<lparr>rc_draws := rc_draws c + 1\<rparr>)"

definition record_event :: "string \<Rightarrow> NodeID \<Rightarrow> randomCluster \<Rightarrow> randomCluster" where
  "record_event kind node c =
     c\<lparr>rc_trace := rc_trace c @ [\<lparr>te_Sequence = length (rc_trace c) + 1, te_Kind = kind, te_Node = node\<rparr>]\<rparr>"

subsection \<open>The queue\<close>

definition enqueue :: "queuedEvent \<Rightarrow> randomCluster \<Rightarrow> randomCluster" where
  "enqueue item c = c\<lparr>rc_queue := rc_queue c @ [item]\<rparr>"

definition enqueueMessage :: "NodeID \<Rightarrow> NodeID \<Rightarrow> Event \<Rightarrow> randomCluster \<Rightarrow> randomCluster" where
  "enqueueMessage from to event = enqueue
     \<lparr>q_kind = queuedMessage, q_from = from, q_to = to, q_event = event, q_persistence = None, q_availableAt = 0\<rparr>"

text \<open>Whether two timer events have the same Go type.\<close>

definition sameTimer :: "Event \<Rightarrow> Event \<Rightarrow> bool" where
  "sameTimer pending event = (case pending of
     ElectionTimeout \<Rightarrow> event = ElectionTimeout
   | HeartbeatTimeout \<Rightarrow> event = HeartbeatTimeout
   | CheckQuorumTimeout \<Rightarrow> event = CheckQuorumTimeout
   | _ \<Rightarrow> False)"

definition enqueueTimer :: "NodeID \<Rightarrow> Event \<Rightarrow> randomCluster \<Rightarrow> randomCluster" where
  "enqueueTimer to event c =
     enqueue \<lparr>q_kind = queuedTimer, q_from = '''', q_to = to, q_event = event, q_persistence = None, q_availableAt = 0\<rparr>
       (c\<lparr>rc_queue := filter (\<lambda>pending. \<not> (q_kind pending = queuedTimer \<and> q_to pending = to \<and>
           sameTimer (q_event pending) event)) (rc_queue c)\<rparr>)"

definition enqueueClient :: "NodeID \<Rightarrow> Event \<Rightarrow> randomCluster \<Rightarrow> randomCluster" where
  "enqueueClient to event = enqueue
     \<lparr>q_kind = queuedClient, q_from = '''', q_to = to, q_event = event, q_persistence = None, q_availableAt = 0\<rparr>"

definition indices :: "queuedKind \<Rightarrow> randomCluster \<Rightarrow> nat list" where
  "indices kind c = filter (\<lambda>i. q_kind (rc_queue c ! i) = kind) [0..<length (rc_queue c)]"

definition remove_item :: "nat \<Rightarrow> randomCluster \<Rightarrow> randomCluster" where
  "remove_item index c = c\<lparr>rc_queue := take index (rc_queue c) @ drop (index + 1) (rc_queue c)\<rparr>"

text \<open>The position of a Node's oldest completion.\<close>

definition firstPersistence :: "queuedEvent list \<Rightarrow> NodeID \<Rightarrow> nat option" where
  "firstPersistence queue nid =
     find (\<lambda>i. q_kind (queue ! i) = queuedPersistence \<and> q_to (queue ! i) = nid) [0..<length queue]"

definition eligibleEvents :: "randomCluster \<Rightarrow> nat list" where
  "eligibleEvents c =
     filter (\<lambda>i. \<not> q_availableAt (rc_queue c ! i) > rc_step c \<and>
         (case firstPersistence (rc_queue c) (q_to (rc_queue c ! i)) of None \<Rightarrow> True | Some p \<Rightarrow> p = i))
       [0..<length (rc_queue c)]"

definition healthyEvent :: "nat list \<Rightarrow> randomCluster \<Rightarrow> nat" where
  "healthyEvent eligible c =
     (case concat (map (\<lambda>preferred. filter (\<lambda>i. q_kind (rc_queue c ! i) = preferred) eligible)
             [queuedPersistence, queuedMessage, queuedClient, queuedTimer]) of
        i # _ \<Rightarrow> i | [] \<Rightarrow> hd eligible)"

subsection \<open>Storage\<close>

text \<open>The loop of \<^verbatim>\<open>sort.Search\<close>.\<close>

function searchLoop :: "(nat \<Rightarrow> bool) \<Rightarrow> nat \<Rightarrow> nat \<Rightarrow> nat" where
  "searchLoop f i j =
     (if i < j then (let h = (i + j) div 2 in if \<not> f h then searchLoop f (h + 1) j else searchLoop f i h) else i)"
  by pat_completeness auto
termination by (relation "measure (\<lambda>(f, i, j). j - i)") (auto simp: Let_def)

declare searchLoop.simps [simp del]

definition sortSearch :: "nat \<Rightarrow> (nat \<Rightarrow> bool) \<Rightarrow> nat" where
  "sortSearch n f = searchLoop f 0 n"

definition cutAt :: "u64 \<Rightarrow> LogEntry list \<Rightarrow> LogEntry list" where
  "cutAt index log = take (sortSearch (length log) (\<lambda>i. e_Index (log ! i) \<ge> index)) log"

fun persistenceCompletion :: "Action \<Rightarrow> Event option" where
  "persistenceCompletion (PersistHardState pid _ _) = Some (HardStatePersisted pid)"
| "persistenceCompletion (PersistLogEntries pid _ _) = Some (LogEntriesPersisted pid)"
| "persistenceCompletion (PersistCommitIndex pid _) = Some (CommitIndexPersisted pid)"
| "persistenceCompletion _ = None"

definition storeEntry :: "LogEntry \<Rightarrow> LogEntry list \<Rightarrow> LogEntry list" where
  "storeEntry entry log =
     (if log \<noteq> [] \<and> e_Index (last log) \<ge> e_Index entry then cutAt (e_Index entry) log else log) @ [entry]"

fun stored :: "Action \<Rightarrow> durableNode \<Rightarrow> durableNode" where
  "stored (PersistHardState _ trm votedFor) d = d\<lparr>d_hard := \<lparr>hs_Term = trm, hs_VotedFor = votedFor\<rparr>\<rparr>"
| "stored (PersistLogEntries _ truncateFrom entries) d =
     (let log = (if truncateFrom > 0 then cutAt truncateFrom (d_log d) else d_log d)
      in d\<lparr>d_log := fold storeEntry entries log\<rparr>)"
| "stored (PersistCommitIndex _ commitIndex) d = d\<lparr>d_commit := commitIndex\<rparr>"
| "stored _ d = d"

definition completePersistence :: "queuedEvent \<Rightarrow> randomCluster \<Rightarrow> randomCluster" where
  "completePersistence item c =
     (case q_persistence item of
        None \<Rightarrow> c
      | Some action \<Rightarrow> c\<lparr>rc_durable := (rc_durable c)(q_to item := stored action (rc_durable c (q_to item)))\<rparr>)"

subsection \<open>The reference state machine\<close>

definition modelState_apply :: "LogEntry \<Rightarrow> modelState \<Rightarrow> modelState" where
  "modelState_apply entry m =
     (if e_Type entry = EntryOpenSession
      then (case map_of (mo_sessions m) (e_SessionID entry) of
              Some _ \<Rightarrow> m
            | None \<Rightarrow> m\<lparr>mo_sessions := AList.update (e_SessionID entry)
                \<lparr>mss_closed = False, mss_lastSequence = 0, mss_deleteResult = False\<rparr> (mo_sessions m)\<rparr>)
      else if e_Type entry = EntryCloseSession
      then (case map_of (mo_sessions m) (e_SessionID entry) of
              None \<Rightarrow> m
            | Some session \<Rightarrow>
                if \<not> mss_closed session
                then m\<lparr>mo_sessions := AList.update (e_SessionID entry) (session\<lparr>mss_closed := True\<rparr>) (mo_sessions m)\<rparr> else m)
      else if e_Type entry = EntrySet \<or> e_Type entry = EntryDelete
      then (case map_of (mo_sessions m) (e_SessionID entry) of
              None \<Rightarrow> m
            | Some session \<Rightarrow>
                if mss_closed session \<or> e_Sequence entry \<noteq> mss_lastSequence session + 1 then m
                else
                  let (vals, deleted) =
                        (if e_Type entry = EntrySet then (AList.update (e_Key entry) (e_Value entry) (mo_values m), False)
                         else (AList.delete (e_Key entry) (mo_values m), map_of (mo_values m) (e_Key entry) \<noteq> None))
                  in m\<lparr>mo_values := vals, mo_sessions := AList.update (e_SessionID entry)
                       (session\<lparr>mss_lastSequence := e_Sequence entry, mss_deleteResult := deleted\<rparr>) (mo_sessions m)\<rparr>)
      else m)"

definition apply_sim :: "NodeID \<Rightarrow> LogEntry \<Rightarrow> randomCluster \<Rightarrow> randomCluster" where
  "apply_sim nid entry c =
     (let m = rc_models c nid in
      if e_Index entry \<noteq> mo_applied m + 1 then c\<lparr>rc_invariantErr := Some orderedApplication\<rparr>
      else
        let incarnation = rc_incarnation c nid in
        if rc_appliedSeen c nid (e_Index entry) = incarnation then c\<lparr>rc_invariantErr := Some onceOnlyApplication\<rparr>
        else
          let c = c\<lparr>rc_appliedSeen := (rc_appliedSeen c)(nid := (rc_appliedSeen c nid)(e_Index entry := incarnation)),
                    rc_models := (rc_models c)(nid := modelState_apply entry (m\<lparr>mo_applied := e_Index entry\<rparr>))\<rparr>
          in case map_of (rc_committed c) (e_Index entry) of
               Some existing \<Rightarrow>
                 if existing \<noteq> entry then c\<lparr>rc_invariantErr := Some committedPrefixAgreement\<rparr>
                 else c\<lparr>rc_committed := AList.update (e_Index entry) entry (rc_committed c)\<rparr>
             | None \<Rightarrow> c\<lparr>rc_committed := AList.update (e_Index entry) entry (rc_committed c)\<rparr>)"

subsection \<open>Running events\<close>

fun consumeAction :: "NodeID \<Rightarrow> Action \<Rightarrow> randomCluster \<Rightarrow> randomCluster" where
  "consumeAction nid (SendPreVoteRequest to r) c = enqueueMessage nid to (EvPreVoteRequest r) c"
| "consumeAction nid (SendPreVoteResponse to r) c = enqueueMessage nid to (EvPreVoteResponse r) c"
| "consumeAction nid (SendVoteRequest to r) c = enqueueMessage nid to (EvVoteRequest r) c"
| "consumeAction nid (SendVoteResponse to r) c = enqueueMessage nid to (EvVoteResponse r) c"
| "consumeAction nid (SendAppendEntries to r) c = enqueueMessage nid to (EvAppendEntries r) c"
| "consumeAction nid (SendAppendEntriesResponse to r) c = enqueueMessage nid to (EvAppendEntriesResponse r) c"
| "consumeAction nid ResetElectionTimer c = enqueueTimer nid ElectionTimeout c"
| "consumeAction nid ResetHeartbeatTimer c = enqueueTimer nid HeartbeatTimeout c"
| "consumeAction nid ResetCheckQuorumTimer c = enqueueTimer nid CheckQuorumTimeout c"
| "consumeAction nid (ApplyEntry entry) c = apply_sim nid entry c"
| "consumeAction nid (BecameLeader trm) c =
     (case map_of (rc_leaders c) trm of
        Some prior \<Rightarrow> if prior \<noteq> '''' \<and> prior \<noteq> nid then c else c\<lparr>rc_leaders := AList.update trm nid (rc_leaders c)\<rparr>
      | None \<Rightarrow> c\<lparr>rc_leaders := AList.update trm nid (rc_leaders c)\<rparr>)"
| "consumeAction nid action c =
     (case persistenceCompletion action of
        None \<Rightarrow> c
      | Some completion \<Rightarrow> enqueue \<lparr>q_kind = queuedPersistence, q_from = '''', q_to = nid, q_event = completion,
          q_persistence = Some action, q_availableAt = 0\<rparr> c)"

definition consumeActions :: "NodeID \<Rightarrow> Action list \<Rightarrow> randomCluster \<Rightarrow> randomCluster" where
  "consumeActions nid actions c = fold (consumeAction nid) actions c"

definition stepNode :: "NodeID \<Rightarrow> Event \<Rightarrow> randomCluster \<Rightarrow> randomCluster option" where
  "stepNode nid event c =
     map_option (\<lambda>(node, actions). consumeActions nid actions (c\<lparr>rc_nodes := (rc_nodes c)(nid := node)\<rparr>))
       (Step (rc_nodes c nid) event)"

definition kindName :: "queuedKind \<Rightarrow> string" where
  "kindName kind = (case kind of queuedTimer \<Rightarrow> ''timer'' | queuedMessage \<Rightarrow> ''message'' | queuedClient \<Rightarrow> ''client'' | _ \<Rightarrow> ''event'')"

text \<open>Removing and delivering the event at a position: the second half of \<^verbatim>\<open>runOne\<close>.\<close>

definition runItem :: "nat \<Rightarrow> randomCluster \<Rightarrow> randomCluster option" where
  "runItem selected c =
     (let item = rc_queue c ! selected;
          c = (remove_item selected c)\<lparr>rc_step := rc_step c + 1\<rparr> in
      if \<not> rc_alive c (q_to item) then Some (record_event ''discard'' (q_to item) c)
      else if q_kind item = queuedMessage \<and> \<not> rc_connected c (q_from item) (q_to item)
      then Some (record_event ''message-drop'' (q_to item) (c\<lparr>rc_faults := (rc_faults c)\<lparr>fc_MessageDrop := True\<rparr>\<rparr>))
      else
        let c = (if q_kind item = queuedPersistence
                 then record_event ''persistence'' (q_to item) (completePersistence item c)
                 else record_event (kindName (q_kind item)) (q_to item) c)
        in stepNode (q_to item) (q_event item) c)"

definition runOne :: "Random \<Rightarrow> bool \<Rightarrow> randomCluster \<Rightarrow> (bool \<times> randomCluster) option" where
  "runOne intn randomChoice c =
     (let eligible = eligibleEvents c in
      if eligible = [] then Some (rc_queue c \<noteq> [], c\<lparr>rc_step := rc_step c + 1\<rparr>)
      else
        let (selected, c) =
              (if randomChoice then (let (k, c) = draw intn (length eligible) c in (eligible ! k, c))
               else (healthyEvent eligible c, c))
        in map_option (Pair True) (runItem selected c))"

definition leader_sim :: "randomCluster \<Rightarrow> NodeID" where
  "leader_sim c =
     (case find (\<lambda>nid. rc_alive c nid \<and> n_role (rc_nodes c nid) = Leader) threeNodeIDs of
        Some nid \<Rightarrow> nid | None \<Rightarrow> '''')"

definition crash :: "NodeID \<Rightarrow> randomCluster \<Rightarrow> randomCluster" where
  "crash nid c = record_event ''crash'' nid
     (c\<lparr>rc_alive := (rc_alive c)(nid := False),
        rc_queue := filter (\<lambda>item. \<not> (q_to item = nid \<and> q_kind item \<noteq> queuedMessage)) (rc_queue c),
        rc_faults := (rc_faults c)\<lparr>fc_Crash := True\<rparr>\<rparr>)"

definition restart :: "NodeID \<Rightarrow> randomCluster \<Rightarrow> randomCluster option" where
  "restart nid c =
     do {
       let durable = rc_durable c nid;
       node \<leftarrow> NewNodeFromRecoveredState nid (peers_of threeNodeIDs nid)
         \<lparr>rs_HardState = d_hard durable, rs_Log = d_log durable, rs_CommitIndex = d_commit durable,
          rs_SnapshotIndex = 0, rs_SnapshotTerm = 0\<rparr>;
       let c = c\<lparr>rc_nodes := (rc_nodes c)(nid := node), rc_alive := (rc_alive c)(nid := True),
                 rc_incarnation := (rc_incarnation c)(nid := rc_incarnation c nid + 1),
                 rc_models := (rc_models c)(nid := newModelState), rc_lastState := (rc_lastState c)(nid := None)\<rparr>;
       c \<leftarrow> stepNode nid RecoverCommitted c;
       let c = enqueueTimer nid ElectionTimeout c;
       Some (record_event ''restart'' nid (c\<lparr>rc_faults := (rc_faults c)\<lparr>fc_Restart := True\<rparr>\<rparr>)) }"

subsection \<open>The invariants the simulation checks\<close>

text \<open>Whether two maps hold the same entries.\<close>

definition sameMap :: "('k \<times> 'v) list \<Rightarrow> ('k \<times> 'v) list \<Rightarrow> bool" where
  "sameMap l r \<longleftrightarrow> list_all (\<lambda>(k, _). map_of l k = map_of r k) (l @ r)"

definition equalModel :: "modelState \<Rightarrow> modelState \<Rightarrow> bool" where
  "equalModel l r \<longleftrightarrow> mo_applied l = mo_applied r \<and> sameMap (mo_values l) (mo_values r) \<and> sameMap (mo_sessions l) (mo_sessions r)"

text \<open>Entry \<open>index\<close> of a stored log, counted from one.\<close>

definition storedAt :: "randomCluster \<Rightarrow> NodeID \<Rightarrow> u64 \<Rightarrow> LogEntry option" where
  "storedAt c nid index =
     (if index = 0 \<or> unat index > length (d_log (rc_durable c nid)) then None
      else Some (d_log (rc_durable c nid) ! (unat index - 1)))"

definition twoLeaders :: "randomCluster \<Rightarrow> bool" where
  "twoLeaders c \<longleftrightarrow> list_ex (\<lambda>(trm, first). list_ex (\<lambda>nid. rc_alive c nid \<and> n_role (rc_nodes c nid) = Leader \<and>
     n_term (rc_nodes c nid) = trm \<and> nid \<noteq> first) threeNodeIDs) (rc_leaders c)"

text \<open>The checks of one Node; the state seen is remembered for the next time.\<close>

definition checkNode :: "NodeID \<Rightarrow> randomCluster \<Rightarrow> (SimError option \<times> randomCluster) option" where
  "checkNode nid c =
     (if \<not> rc_alive c nid then Some (None, c)
      else do {
        state \<leftarrow> StateOf (rc_nodes c nid);
        if (case rc_lastState c nid of
              Some previous \<Rightarrow> st_Term state < st_Term previous \<or> st_CommitIndex state < st_CommitIndex previous \<or>
                st_LastApplied state < st_LastApplied previous
            | None \<Rightarrow> False)
        then Some (Some monotonicProgress, c)
        else do {
          let c = c\<lparr>rc_lastState := (rc_lastState c)(nid \<mapsto> state)\<rparr>;
          if st_LastApplied state > st_CommitIndex state \<or> st_LastApplied state \<noteq> mo_applied (rc_models c nid)
          then Some (Some orderedApplication, c)
          else if st_Role state = Leader \<and> list_ex (\<lambda>(index, entry). storedAt c nid index \<noteq> Some entry) (rc_committed c)
          then Some (Some leaderCompleteness, c)
          else Some (None, c) } })"

fun checkNodes :: "NodeID list \<Rightarrow> randomCluster \<Rightarrow> (SimError option \<times> randomCluster) option" where
  "checkNodes [] c = Some (None, c)"
| "checkNodes (nid # rest) c =
     (case checkNode nid c of
        None \<Rightarrow> None
      | Some (Some err, c) \<Rightarrow> Some (Some err, c)
      | Some (None, c) \<Rightarrow> checkNodes rest c)"

definition prefixesDiffer :: "randomCluster \<Rightarrow> NodeID \<Rightarrow> NodeID \<Rightarrow> bool" where
  "prefixesDiffer c l r \<longleftrightarrow>
     (let through = min (d_commit (rc_durable c l)) (d_commit (rc_durable c r)) in
      list_ex (\<lambda>index. storedAt c l (of_nat index) = None \<or> storedAt c r (of_nat index) = None \<or>
        storedAt c l (of_nat index) \<noteq> storedAt c r (of_nat index)) [1..<unat through + 1])"

definition checkPair :: "randomCluster \<Rightarrow> NodeID \<times> NodeID \<Rightarrow> SimError option" where
  "checkPair c p = (case p of (l, r) \<Rightarrow>
     if prefixesDiffer c l r then Some committedPrefixAgreement
     else if mo_applied (rc_models c l) = mo_applied (rc_models c r) \<and> \<not> equalModel (rc_models c l) (rc_models c r)
     then Some unequalState else None)"

fun pairsOf :: "NodeID list \<Rightarrow> (NodeID \<times> NodeID) list" where
  "pairsOf [] = []"
| "pairsOf (l # rest) = map (Pair l) rest @ pairsOf rest"

definition copies :: "randomCluster \<Rightarrow> u64 \<Rightarrow> LogEntry \<Rightarrow> nat" where
  "copies c index entry = length (filter (\<lambda>nid. storedAt c nid index = Some entry) threeNodeIDs)"

fun firstError :: "SimError option list \<Rightarrow> SimError option" where
  "firstError [] = None"
| "firstError (None # es) = firstError es"
| "firstError (Some e # es) = Some e"

definition assertInvariants :: "randomCluster \<Rightarrow> (SimError option \<times> randomCluster) option" where
  "assertInvariants c =
     (case rc_invariantErr c of
        Some err \<Rightarrow> Some (Some err, c)
      | None \<Rightarrow>
          if twoLeaders c then Some (Some electionSafety, c)
          else (case checkNodes threeNodeIDs c of
                  None \<Rightarrow> None
                | Some (Some err, c) \<Rightarrow> Some (Some err, c)
                | Some (None, c) \<Rightarrow>
                    (case firstError (map (checkPair c) (pairsOf threeNodeIDs)) of
                       Some err \<Rightarrow> Some (Some err, c)
                     | None \<Rightarrow>
                         if list_ex (\<lambda>(index, entry). copies c index entry < 2) (rc_committed c)
                         then Some (Some durabilityLost, c) else Some (None, c))))"

subsection \<open>The schedule\<close>

text \<open>A part of the schedule ends with an error of the simulation, or goes on.\<close>

type_synonym Outcome = "(SimError option \<times> randomCluster) option"

definition continue :: "Outcome \<Rightarrow> (randomCluster \<Rightarrow> Outcome) \<Rightarrow> Outcome" where
  "continue r f = (case r of None \<Rightarrow> None | Some (Some err, c) \<Rightarrow> Some (Some err, c) | Some (None, c) \<Rightarrow> f c)"

fun drainUntil :: "Random \<Rightarrow> (randomCluster \<Rightarrow> bool) \<Rightarrow> nat \<Rightarrow> randomCluster \<Rightarrow> Outcome" where
  "drainUntil intn isDone 0 c = Some (Some noProgress, c)"
| "drainUntil intn isDone (Suc attempts) c =
     (if isDone c then Some (None, c)
      else (case runOne intn False c of
              None \<Rightarrow> None
            | Some (False, c) \<Rightarrow> Some (Some outOfEvents, c)
            | Some (True, c) \<Rightarrow> continue (assertInvariants c) (drainUntil intn isDone attempts)))"

definition firstSession :: SessionID where
  "firstSession = 1 # replicate 15 0"

definition sessionOpened :: "NodeID \<Rightarrow> randomCluster \<Rightarrow> bool" where
  "sessionOpened leader c \<longleftrightarrow> map_of (mo_sessions (rc_models c leader)) firstSession \<noteq> None"

definition acknowledged :: "NodeID \<Rightarrow> randomCluster \<Rightarrow> bool" where
  "acknowledged leader c \<longleftrightarrow> map_of (mo_values (rc_models c leader)) ''seed'' = Some (bytes_of ''acknowledged'')"

fun bootstrapLoop :: "Random \<Rightarrow> nat \<Rightarrow> randomCluster \<Rightarrow> Outcome" where
  "bootstrapLoop intn 0 c = Some (Some noLeaderElected, c)"
| "bootstrapLoop intn (Suc attempts) c =
     (let leader = leader_sim c in
      if leader \<noteq> '''' \<and> n_readReady (rc_nodes c leader)
      then continue
        (drainUntil intn (sessionOpened leader) 5000
          (enqueueClient leader (EvProposeSession
             \<lparr>ps_ProposalID = 1, ps_Type = EntryOpenSession, ps_SessionID = firstSession\<rparr>) c))
        (\<lambda>c. drainUntil intn (acknowledged leader) 5000
          (enqueueClient leader (EvProposeSet
             \<lparr>pset_ProposalID = 2, pset_SessionID = firstSession, pset_Sequence = 1, pset_Key = ''seed'',
              pset_Value = bytes_of ''acknowledged''\<rparr>) c))
      else (case runOne intn False c of
              None \<Rightarrow> None
            | Some (False, c) \<Rightarrow> Some (Some outOfEvents, c)
            | Some (True, c) \<Rightarrow> continue (assertInvariants c) (bootstrapLoop intn attempts)))"

definition drawNode :: "Random \<Rightarrow> randomCluster \<Rightarrow> NodeID \<times> randomCluster" where
  "drawNode intn c = (let (k, c) = draw intn (length threeNodeIDs) c in (threeNodeIDs ! k, c))"

definition bootstrap :: "Random \<Rightarrow> randomCluster \<Rightarrow> Outcome" where
  "bootstrap intn c =
     (let (nid, c) = drawNode intn c in bootstrapLoop intn 5000 (enqueueTimer nid ElectionTimeout c))"

fun runUntilKind :: "Random \<Rightarrow> queuedKind \<Rightarrow> nat \<Rightarrow> randomCluster \<Rightarrow> Outcome" where
  "runUntilKind intn kind 0 c = Some (None, c)"
| "runUntilKind intn kind (Suc attempts) c =
     (if indices kind c \<noteq> [] then Some (None, c)
      else (case runOne intn False c of
              None \<Rightarrow> None
            | Some (False, c) \<Rightarrow> Some (None, c)
            | Some (True, c) \<Rightarrow> continue (assertInvariants c) (runUntilKind intn kind attempts)))"

fun deliverThroughPartition :: "Random \<Rightarrow> NodeID \<Rightarrow> nat \<Rightarrow> randomCluster \<Rightarrow> Outcome" where
  "deliverThroughPartition intn to 0 c = Some (Some notBlocked, c)"
| "deliverThroughPartition intn to (Suc attempts) c =
     (let seen = length (rc_trace c) in
      case runOne intn False c of
        None \<Rightarrow> None
      | Some (False, c) \<Rightarrow> Some (Some notBlocked, c)
      | Some (True, c) \<Rightarrow> continue (assertInvariants c) (\<lambda>c.
          if list_ex (\<lambda>event. te_Kind event = ''message-drop'' \<and> te_Node event = to) (drop seen (rc_trace c))
          then Some (None, c) else deliverThroughPartition intn to attempts c))"

definition delayItem :: "nat \<Rightarrow> randomCluster \<Rightarrow> randomCluster" where
  "delayItem i c = c\<lparr>rc_queue := (rc_queue c)[i := (rc_queue c ! i)\<lparr>q_availableAt := rc_step c + 4\<rparr>]\<rparr>"

text \<open>The parts of \<^verbatim>\<open>injectFaultFrontier\<close> that change the queue.\<close>

definition delayPersistence :: "randomCluster \<Rightarrow> randomCluster" where
  "delayPersistence c =
     (case indices queuedPersistence c of
        [] \<Rightarrow> c
      | i # _ \<Rightarrow> record_event ''persistence-delay'' (q_to (rc_queue c ! i))
          ((delayItem i c)\<lparr>rc_faults := (rc_faults c)\<lparr>fc_PersistenceDelay := True\<rparr>\<rparr>))"

definition delayAndDuplicate :: "randomCluster \<Rightarrow> randomCluster" where
  "delayAndDuplicate c =
     (case indices queuedMessage c of
        [] \<Rightarrow> c
      | i # _ \<Rightarrow>
          let item = rc_queue c ! i;
              c = record_event ''message-delay'' (q_to item)
                    ((delayItem i c)\<lparr>rc_faults := (rc_faults c)\<lparr>fc_MessageDelay := True\<rparr>\<rparr>);
              c = enqueue item c
          in record_event ''message-duplicate'' (q_to item) (c\<lparr>rc_faults := (rc_faults c)\<lparr>fc_MessageDuplicate := True\<rparr>\<rparr>))"

definition reorderMessages :: "randomCluster \<Rightarrow> randomCluster" where
  "reorderMessages c =
     (case indices queuedMessage c of
        i # j # _ \<Rightarrow> record_event ''message-reorder'' ''''
          (c\<lparr>rc_queue := (rc_queue c)[i := rc_queue c ! j, j := rc_queue c ! i],
             rc_faults := (rc_faults c)\<lparr>fc_MessageReorder := True\<rparr>\<rparr>)
      | _ \<Rightarrow> c)"

definition dropMessage :: "randomCluster \<Rightarrow> randomCluster" where
  "dropMessage c =
     (case indices queuedMessage c of
        [] \<Rightarrow> c
      | i # _ \<Rightarrow> record_event ''message-drop'' (q_to (rc_queue c ! i))
          ((remove_item i c)\<lparr>rc_faults := (rc_faults c)\<lparr>fc_MessageDrop := True\<rparr>\<rparr>))"

definition connect :: "NodeID \<Rightarrow> NodeID \<Rightarrow> bool \<Rightarrow> randomCluster \<Rightarrow> randomCluster" where
  "connect from to up c = c\<lparr>rc_connected := (rc_connected c)(from := (rc_connected c from)(to := up))\<rparr>"

definition crashAndRestart :: "Random \<Rightarrow> NodeID \<Rightarrow> NodeID \<Rightarrow> randomCluster \<Rightarrow> Outcome" where
  "crashAndRestart intn from to c =
     (let (victim, c) = drawNode intn c in
      continue (assertInvariants (crash victim c)) (\<lambda>c.
        case restart victim c of
          None \<Rightarrow> None
        | Some c \<Rightarrow> continue (assertInvariants c) (\<lambda>c.
            assertInvariants (record_event ''heal'' from (connect from to True c)))))"

definition faultFrontier :: "Random \<Rightarrow> NodeID \<Rightarrow> randomCluster \<Rightarrow> Outcome" where
  "faultFrontier intn leader c =
     (let from = leader;
          to = (case find (\<lambda>nid. nid \<noteq> from) threeNodeIDs of Some nid \<Rightarrow> nid | None \<Rightarrow> '''');
          c = dropMessage (reorderMessages (delayAndDuplicate c));
          c = record_event ''partition'' from ((connect from to False c)\<lparr>rc_faults := (rc_faults c)\<lparr>fc_Asymmetric := True\<rparr>\<rparr>)
      in if from = '''' then None \<comment> \<open>no map of connections to assign to\<close>
         else continue (assertInvariants c) (\<lambda>c.
         continue (deliverThroughPartition intn to 100 (enqueueTimer from HeartbeatTimeout c))
           (crashAndRestart intn from to)))"

definition injectFaultFrontier :: "Random \<Rightarrow> randomCluster \<Rightarrow> Outcome" where
  "injectFaultFrontier intn c =
     (let leader = leader_sim c;
          c = enqueueClient leader (EvProposeSet
                \<lparr>pset_ProposalID = 3, pset_SessionID = firstSession, pset_Sequence = 2, pset_Key = ''fault'',
                 pset_Value = bytes_of ''value''\<rparr>) c
      in continue (runUntilKind intn queuedPersistence 100 c) (\<lambda>c.
           let c = delayPersistence c;
               leader = (if leader = '''' then leader_sim c else leader)
           in continue (runUntilKind intn queuedMessage 100 (enqueueTimer leader HeartbeatTimeout c))
                (faultFrontier intn leader)))"

definition enqueueRandomWork :: "Random \<Rightarrow> randomCluster \<Rightarrow> randomCluster" where
  "enqueueRandomWork intn c =
     (let c = (if rc_step c mod 17 = 0 \<and> leader_sim c \<noteq> '''' then enqueueTimer (leader_sim c) HeartbeatTimeout c else c)
      in if rc_step c mod 29 = 0 then (let (nid, c) = drawNode intn c in enqueueTimer nid ElectionTimeout c) else c)"

text \<open>One round of the main loop; \<^verbatim>\<open>runOne\<close> always advances the step counter.\<close>

definition randomRound :: "Random \<Rightarrow> randomCluster \<Rightarrow> Outcome" where
  "randomRound intn c =
     (case runOne intn True (enqueueRandomWork intn c) of
        None \<Rightarrow> None
      | Some (False, c) \<Rightarrow> (let (nid, c) = drawNode intn c in Some (None, enqueueTimer nid ElectionTimeout c))
      | Some (True, c) \<Rightarrow> assertInvariants c)"

lemma enqueueTimer_step [simp]: "rc_step (enqueueTimer nid e c) = rc_step c"
  by (simp add: enqueueTimer_def enqueue_def)

lemma drawNode_step [simp]: "rc_step (snd (drawNode intn c)) = rc_step c"
  by (simp add: drawNode_def draw_def)

lemma enqueueRandomWork_step [simp]: "rc_step (enqueueRandomWork intn c) = rc_step c"
  by (auto simp: enqueueRandomWork_def Let_def split_beta)

lemma consumeAction_step [simp]: "rc_step (consumeAction nid a c) = rc_step c"
  by (cases a) (auto simp: enqueueMessage_def enqueue_def apply_sim_def Let_def split: option.splits)

lemma consumeActions_step [simp]: "rc_step (consumeActions nid as c) = rc_step c"
  unfolding consumeActions_def by (induction as arbitrary: c) simp_all

lemma runOne_step:
  assumes "runOne intn b c = Some (again, c')"
  shows "rc_step c' = Suc (rc_step c)"
  using assms
  by (auto simp: runOne_def runItem_def stepNode_def completePersistence_def record_event_def remove_item_def draw_def Let_def split_beta
      split: if_splits option.splits)

lemma checkNode_step: "checkNode nid c = Some (e, c') \<Longrightarrow> rc_step c' = rc_step c"
  by (auto simp: checkNode_def Let_def bind_eq_Some_conv split: if_splits)

lemma checkNodes_step: "checkNodes ids c = Some (e, c') \<Longrightarrow> rc_step c' = rc_step c"
  by (induction ids arbitrary: c) (fastforce split: option.splits prod.splits dest: checkNode_step)+

lemma assertInvariants_step: "assertInvariants c = Some (e, c') \<Longrightarrow> rc_step c' = rc_step c"
  by (auto simp: assertInvariants_def split: option.splits if_splits prod.splits dest: checkNodes_step)

lemma randomRound_step: "randomRound intn c = Some (e, c') \<Longrightarrow> rc_step c' = Suc (rc_step c)"
  by (auto simp: randomRound_def Let_def split_beta split: option.splits prod.splits bool.splits
      dest!: runOne_step assertInvariants_step)

function randomLoop :: "Random \<Rightarrow> nat \<Rightarrow> randomCluster \<Rightarrow> Outcome" where
  "randomLoop intn steps c =
     (if rc_step c < steps
      then (case randomRound intn c of
              None \<Rightarrow> None
            | Some (Some err, c) \<Rightarrow> Some (Some err, c)
            | Some (None, c) \<Rightarrow> randomLoop intn steps c)
      else Some (None, c))"
  by pat_completeness auto
termination
  by (relation "measure (\<lambda>(intn, steps, c). steps - rc_step c)") (auto dest: randomRound_step)

declare randomLoop.simps [simp del]

text \<open>\<^verbatim>\<open>RunRandomized\<close>: the error it reports, if any, and the cluster with trace and fault coverage.\<close>

definition RunRandomized :: "Random \<Rightarrow> int \<Rightarrow> Outcome" where
  "RunRandomized intn steps =
     (if steps < 1 then Some (Some stepsNotPositive, newRandomCluster)
      else continue (bootstrap intn newRandomCluster) (\<lambda>c.
           continue (injectFaultFrontier intn c) (randomLoop intn (nat steps))))"

end
