(* ===== verification/Simulation_Safety.thy ===== *)
theory Simulation_Safety
  imports Simulation
begin

text \<open>
  What the seeded simulation can and cannot do: every operation of its scheduler is one step of the transition
  system of \<^verbatim>\<open>Raft_Cluster\<close>, or none. The relation \<open>tracks\<close> says which cluster a simulated one stands for;
  \<open>simulates\<close> adds that it is reachable in a bounded number of steps. There is one lemma per operation.
\<close>

subsection \<open>The simulation as a run of the cluster\<close>

text \<open>The hard states queued for a Node, oldest first.\<close>

definition queuedWrites :: "NodeID \<Rightarrow> queuedEvent list \<Rightarrow> (u64 \<times> HardState) list" where
  "queuedWrites i q = hard_writes (List.map_filter
     (\<lambda>x. if q_kind x = queuedPersistence \<and> q_to x = i then q_persistence x else None) q)"

definition item_ok :: "(NodeID \<times> Action) set \<Rightarrow> queuedEvent \<Rightarrow> bool" where
  "item_ok E x \<longleftrightarrow> (case q_kind x of
     queuedMessage \<Rightarrow> (\<exists>i a. (i, a) \<in> E \<and> delivers i a (q_to x) (q_event x))
   | queuedPersistence \<Rightarrow> (\<exists>a. q_persistence x = Some a \<and> persistenceCompletion a = Some (q_event x))
   | _ \<Rightarrow> local_event (q_event x))"

definition tracks :: "randomCluster \<Rightarrow> Cluster \<Rightarrow> bool" where
  "tracks c s \<longleftrightarrow>
     (\<forall>i. rc_alive c i \<longrightarrow> i \<in> set threeNodeIDs \<and> c_node s i = rc_nodes c i \<and> c_queue s i = queuedWrites i (rc_queue c)) \<and>
     (\<forall>i. \<not> rc_alive c i \<longrightarrow> queuedWrites i (rc_queue c) = []) \<and>
     (\<forall>i\<in>set threeNodeIDs. c_disk s i = d_hard (rc_durable c i)) \<and>
     (\<forall>x\<in>set (rc_queue c). item_ok (c_emitted s) x) \<and>
     (\<forall>(t, i)\<in>set (rc_leaders c). (i, BecameLeader t) \<in> c_emitted s)"

lemma queuedWrites_append [simp]: "queuedWrites i (q @ r) = queuedWrites i q @ queuedWrites i r"
  by (simp add: queuedWrites_def map_filter_def)

lemma queuedWrites_Nil [simp]: "queuedWrites i [] = []"
  by (simp add: queuedWrites_def map_filter_def)

lemma hard_writes_Cons: "hard_writes (a # as) = hard_writes [a] @ hard_writes as"
  by (cases a) simp_all

lemma queuedWrites_Cons:
  "queuedWrites i (x # q) = (if q_kind x = queuedPersistence \<and> q_to x = i
     then (case q_persistence x of Some a \<Rightarrow> hard_writes [a] | None \<Rightarrow> []) else []) @ queuedWrites i q"
  by (cases "q_persistence x") (simp_all add: queuedWrites_def List.map_filter_simps hard_writes_Cons [of _ "List.map_filter f q" for f])

lemma queuedWrites_filter:
  "(\<And>x. x \<in> set q \<Longrightarrow> q_kind x = queuedPersistence \<Longrightarrow> q_to x = i \<Longrightarrow> P x) \<Longrightarrow> queuedWrites i (filter P q) = queuedWrites i q"
  by (induction q) (auto simp: queuedWrites_Cons)

lemma item_ok_mono: "item_ok E x \<Longrightarrow> E \<subseteq> F \<Longrightarrow> item_ok F x"
  by (auto simp: item_ok_def split: queuedKind.splits)

text \<open>What the actions of a Node do to the queue.\<close>

definition follows :: "NodeID \<Rightarrow> (NodeID \<times> Action) set \<Rightarrow> randomCluster \<Rightarrow> (u64 \<times> HardState) list \<Rightarrow> randomCluster \<Rightarrow> bool" where
  "follows nid E c ws c' \<longleftrightarrow> rc_nodes c' = rc_nodes c \<and> rc_alive c' = rc_alive c \<and> rc_durable c' = rc_durable c \<and>
     (\<forall>i. queuedWrites i (rc_queue c') = queuedWrites i (rc_queue c) @ (if i = nid then ws else [])) \<and>
     (\<forall>x\<in>set (rc_queue c'). x \<in> set (rc_queue c) \<or> item_ok E x) \<and>
     (\<forall>p\<in>set (rc_leaders c'). p \<in> set (rc_leaders c) \<or> (snd p, BecameLeader (fst p)) \<in> E)"

lemma follows_refl: "follows nid E c [] c"
  by (auto simp: follows_def)

lemma follows_trans: "follows nid E c ws c' \<Longrightarrow> follows nid E c' vs c'' \<Longrightarrow> follows nid E c (ws @ vs) c''"
  unfolding follows_def by auto

lemma follows_enqueue:
  assumes "item_ok E x" "\<And>i. queuedWrites i [x] = (if i = nid then ws else [])"
  shows "follows nid E c ws (enqueue x c)"
  using assms by (auto simp: follows_def enqueue_def)

lemma follows_enqueueTimer:
  assumes "local_event e"
  shows "follows nid E c [] (enqueueTimer to e c)"
  using assms by (auto simp: follows_def enqueueTimer_def enqueue_def queuedWrites_filter queuedWrites_Cons item_ok_def)

lemma set_update_subset: "set (AList.update k v al) \<subseteq> insert (k, v) (set al)"
  by (induction al) auto

lemma consumeAction_follows:
  assumes "(nid, a) \<in> E"
  shows "follows nid E c (hard_writes [a]) (consumeAction nid a c)"
proof (cases a)
  case (BecameLeader t)
  then show ?thesis
    using assms set_update_subset [of t nid "rc_leaders c"] by (auto simp: follows_def split: option.splits)
next
  case (ApplyEntry e)
  then show ?thesis by (auto simp: follows_def apply_sim_def Let_def split: option.splits)
next
  case ResetElectionTimer
  then show ?thesis by (simp add: follows_enqueueTimer)
next
  case ResetHeartbeatTimer
  then show ?thesis by (simp add: follows_enqueueTimer)
next
  case ResetCheckQuorumTimer
  then show ?thesis by (simp add: follows_enqueueTimer)
qed (use assms in \<open>auto simp: enqueueMessage_def queuedWrites_Cons item_ok_def follows_refl intro!: follows_enqueue exI [of _ nid] exI [of _ a]\<close>)

lemma consumeActions_follows:
  assumes "\<forall>a\<in>set as. (nid, a) \<in> E"
  shows "follows nid E c (hard_writes as) (consumeActions nid as c)"
  using assms
proof (induction as arbitrary: c)
  case (Cons a as)
  have "follows nid E c (hard_writes [a] @ hard_writes as) (consumeActions nid as (consumeAction nid a c))"
    by (rule follows_trans [OF consumeAction_follows Cons.IH]) (use Cons.prems in auto)
  then show ?case by (simp add: consumeActions_def hard_writes_Cons [symmetric])
qed (simp add: consumeActions_def follows_refl)

text \<open>After a step of the core the clusters still agree.\<close>

lemma tracks_emit:
  assumes s: "\<forall>i. rc_alive c i \<longrightarrow> i \<in> set threeNodeIDs \<and> (i \<noteq> nid \<longrightarrow> c_node s i = rc_nodes c i) \<and> c_queue s i = queuedWrites i (rc_queue c)"
    "\<forall>i. \<not> rc_alive c i \<longrightarrow> queuedWrites i (rc_queue c) = []"
    "\<forall>i\<in>set threeNodeIDs. c_disk s i = d_hard (rc_durable c i)"
    "\<forall>x\<in>set (rc_queue c). item_ok (c_emitted s) x"
    "\<forall>(t, i)\<in>set (rc_leaders c). (i, BecameLeader t) \<in> c_emitted s"
    and nid: "rc_alive c nid"
  shows "tracks (consumeActions nid as (c\<lparr>rc_nodes := (rc_nodes c)(nid := n)\<rparr>)) (emit nid n as s)"
proof -
  let ?c = "c\<lparr>rc_nodes := (rc_nodes c)(nid := n)\<rparr>"
  let ?E = "c_emitted (emit nid n as s)"
  have sub: "c_emitted s \<subseteq> ?E" "\<forall>a\<in>set as. (nid, a) \<in> ?E" by (auto simp: emit_def)
  have f: "follows nid ?E ?c (hard_writes as) (consumeActions nid as ?c)"
    by (rule consumeActions_follows [OF sub(2)])
  have q: "\<forall>x\<in>set (rc_queue (consumeActions nid as ?c)). item_ok ?E x"
    using f s(4) item_ok_mono [OF _ sub(1)] unfolding follows_def by simp blast
  have l: "\<forall>p\<in>set (rc_leaders (consumeActions nid as ?c)). (snd p, BecameLeader (fst p)) \<in> ?E"
    using f s(5) sub(1) unfolding follows_def by (simp add: case_prod_beta) blast
  show ?thesis
    unfolding tracks_def using f s(1,2,3) nid q l by (auto simp: follows_def emit_def)
qed

lemma tracks_cong:
  assumes "tracks c s" "rc_alive c' = rc_alive c" "rc_nodes c' = rc_nodes c" "rc_durable c' = rc_durable c"
    "rc_queue c' = rc_queue c" "rc_leaders c' = rc_leaders c"
  shows "tracks c' s"
  using assms by (simp add: tracks_def)

lemma queuedWrites_none: "(\<And>x. x \<in> set q \<Longrightarrow> \<not> (q_kind x = queuedPersistence \<and> q_to x = i)) \<Longrightarrow> queuedWrites i q = []"
  by (induction q) (auto simp: queuedWrites_Cons)

lemma queue_split: "k < length q \<Longrightarrow> q = take k q @ q ! k # drop (k + 1) q"
  using id_take_nth_drop [of k q] by simp

lemma queuedWrites_removed:
  assumes "k < length q" "q_kind (q ! k) \<noteq> queuedPersistence \<or> q_to (q ! k) \<noteq> i"
  shows "queuedWrites i (take k q @ drop (k + 1) q) = queuedWrites i q"
proof -
  have "queuedWrites i q = queuedWrites i (take k q @ q ! k # drop (k + 1) q)" using queue_split [OF assms(1)] by simp
  with assms(2) show ?thesis by (auto simp: queuedWrites_Cons simp del: queuedWrites_append) (auto simp: queuedWrites_Cons)
qed

lemma eligible_first:
  assumes "k \<in> set (eligibleEvents c)" "q_kind (rc_queue c ! k) = queuedPersistence"
  shows "queuedWrites (q_to (rc_queue c ! k)) (take k (rc_queue c)) = []"
proof -
  let ?q = "rc_queue c" and ?i = "q_to (rc_queue c ! k)"
  let ?P = "\<lambda>j. q_kind (?q ! j) = queuedPersistence \<and> q_to (?q ! j) = ?i"
  have k: "k < length ?q" using assms(1) by (auto simp: eligibleEvents_def)
  have "firstPersistence ?q ?i \<noteq> None"
    using k assms(2) by (auto simp: firstPersistence_def find_None_iff)
  then have f: "firstPersistence ?q ?i = Some k" using assms(1) by (auto simp: eligibleEvents_def)
  have "\<not> ?P j" if "j < k" for j
    using f that k unfolding firstPersistence_def find_Some_iff by auto
  then have "\<not> (q_kind x = queuedPersistence \<and> q_to x = ?i)" if "x \<in> set (take k ?q)" for x
    using that k by (auto simp: in_set_conv_nth)
  then show ?thesis by (rule queuedWrites_none)
qed

lemma eligible_in_range: "k \<in> set (eligibleEvents c) \<Longrightarrow> k < length (rc_queue c)"
  by (auto simp: eligibleEvents_def)

lemma in_removed: "x \<in> set (take k q @ drop (k + 1) q) \<Longrightarrow> x \<in> set q"
  by (auto dest: in_set_takeD in_set_dropD)

text \<open>An item that is not a completion of its Node can be dropped at any time.\<close>

lemma tracks_remove:
  assumes "tracks c s" "k < length (rc_queue c)" "q_kind (rc_queue c ! k) \<noteq> queuedPersistence \<or> \<not> rc_alive c (q_to (rc_queue c ! k))"
  shows "tracks (remove_item k c) s"
proof -
  have "queuedWrites i (rc_queue (remove_item k c)) = queuedWrites i (rc_queue c)"
    if "rc_alive c i \<or> q_kind (rc_queue c ! k) \<noteq> queuedPersistence" for i
    unfolding remove_item_def using that assms(3) queuedWrites_removed [OF assms(2), of i] by auto
  moreover have "queuedWrites i (rc_queue (remove_item k c)) = []" if "queuedWrites i (rc_queue c) = []" for i
  proof -
    have "queuedWrites i (take k (rc_queue c) @ rc_queue c ! k # drop (k + 1) (rc_queue c)) = []"
      using that queue_split [OF assms(2)] by simp
    then show ?thesis by (simp add: remove_item_def queuedWrites_Cons)
  qed
  ultimately show ?thesis
    using assms(1) unfolding tracks_def by (auto simp: remove_item_def dest: in_set_takeD in_set_dropD)
qed

definition advances :: "Cluster \<Rightarrow> Cluster \<Rightarrow> bool" where
  "advances s s' \<longleftrightarrow> s' = s \<or> cluster_step threeNodeIDs s s'"

lemma stepNode_emit:
  assumes "stepNode nid e c = Some c'" "rc_alive c nid" "tracks c s" "c_node s nid = rc_nodes c nid"
    "\<And>n as. Step (c_node s nid) e = Some (n, as) \<Longrightarrow> cluster_step threeNodeIDs s (emit nid n as s)"
  shows "\<exists>s'. advances s s' \<and> tracks c' s'"
proof -
  from assms(1) obtain n as where n: "Step (rc_nodes c nid) e = Some (n, as)"
    "c' = consumeActions nid as (c\<lparr>rc_nodes := (rc_nodes c)(nid := n)\<rparr>)" by (auto simp: stepNode_def)
  have "tracks c' (emit nid n as s)"
    unfolding n(2) by (rule tracks_emit) (use assms(2,3) in \<open>auto simp: tracks_def\<close>)
  moreover have "cluster_step threeNodeIDs s (emit nid n as s)" using assms(4,5) n(1) by simp
  ultimately show ?thesis by (auto simp: advances_def)
qed

text \<open>The oldest completion of a Node: the write reaches the disk and the core is told.\<close>

lemma queuedWrites_first:
  assumes "k \<in> set (eligibleEvents c)" "q_kind (rc_queue c ! k) = queuedPersistence" "q_persistence (rc_queue c ! k) = Some a"
    "i = q_to (rc_queue c ! k)"
  shows "queuedWrites i (rc_queue c) = hard_writes [a] @ queuedWrites i (rc_queue (remove_item k c))"
proof -
  have k: "k < length (rc_queue c)" by (rule eligible_in_range [OF assms(1)])
  have "queuedWrites i (rc_queue c) = queuedWrites i (take k (rc_queue c) @ rc_queue c ! k # drop (k + 1) (rc_queue c))"
    using queue_split [OF k] by simp
  with eligible_first [OF assms(1,2)] assms(2-4) show ?thesis by (simp add: remove_item_def queuedWrites_Cons)
qed

lemma other_completion:
  assumes "persistenceCompletion a = Some e" "\<And>pid t v. a \<noteq> PersistHardState pid t v"
  shows "local_event e \<and> hard_writes [a] = [] \<and> (\<forall>d. d_hard (stored a d) = d_hard d)"
  using assms by (cases a) (auto simp: Let_def)

lemma persistence_step:
  assumes t: "tracks c s" and k: "k \<in> set (eligibleEvents c)" and kind: "q_kind (rc_queue c ! k) = queuedPersistence"
    and al: "rc_alive c (q_to (rc_queue c ! k))"
    and st: "stepNode (q_to (rc_queue c ! k)) (q_event (rc_queue c ! k)) 
      (record_event kd nid (completePersistence (rc_queue c ! k) ((remove_item k c)\<lparr>rc_step := m\<rparr>))) = Some c'"
  shows "\<exists>s'. advances s s' \<and> tracks c' s'"
proof -
  let ?x = "rc_queue c ! k" and ?i = "q_to (rc_queue c ! k)"
  have kl: "k < length (rc_queue c)" by (rule eligible_in_range [OF k])
  then have "item_ok (c_emitted s) ?x" using t by (simp add: tracks_def)
  with kind obtain a where a: "q_persistence ?x = Some a" "persistenceCompletion a = Some (q_event ?x)"
    by (auto simp: item_ok_def)
  let ?d = "record_event kd nid (completePersistence ?x ((remove_item k c)\<lparr>rc_step := m\<rparr>))"
  from st obtain n as where n: "Step (rc_nodes c ?i) (q_event ?x) = Some (n, as)"
    "c' = consumeActions ?i as (?d\<lparr>rc_nodes := (rc_nodes ?d)(?i := n)\<rparr>)"
    by (auto simp: stepNode_def completePersistence_def a remove_item_def record_event_def)
  have node: "?i \<in> set threeNodeIDs" "c_node s ?i = rc_nodes c ?i" using t al by (auto simp: tracks_def)
  have w: "c_queue s ?i = hard_writes [a] @ queuedWrites ?i (rc_queue (remove_item k c))"
    using queuedWrites_first [OF k kind a(1) refl] t al by (simp add: tracks_def)
  have other: "queuedWrites j (rc_queue (remove_item k c)) = queuedWrites j (rc_queue c)" if "j \<noteq> ?i" for j
    using queuedWrites_removed [OF kl, of j] that by (simp add: remove_item_def)
  have dead: "queuedWrites j (rc_queue (remove_item k c)) = []" if "\<not> rc_alive c j" for j
    using that al other [of j] t unfolding tracks_def by metis
  have d: "rc_queue ?d = rc_queue (remove_item k c)" "rc_alive ?d = rc_alive c" "rc_nodes ?d = rc_nodes c"
    "rc_leaders ?d = rc_leaders c" "rc_durable ?d = (rc_durable c)(?i := stored a (rc_durable c ?i))"
    by (simp_all add: remove_item_def completePersistence_def a(1) record_event_def)
  have kept: "\<forall>x\<in>set (rc_queue (remove_item k c)). item_ok (c_emitted s) x"
    using t by (auto simp: tracks_def remove_item_def dest: in_set_takeD in_set_dropD)
  have rest: "\<forall>j. rc_alive c j \<longrightarrow> j \<in> set threeNodeIDs \<and> c_node s j = rc_nodes c j \<and>
      (j \<noteq> ?i \<longrightarrow> c_queue s j = queuedWrites j (rc_queue (remove_item k c)))"
    "\<forall>j\<in>set threeNodeIDs. c_disk s j = d_hard (rc_durable c j)"
    "\<forall>(t, i)\<in>set (rc_leaders c). (i, BecameLeader t) \<in> c_emitted s"
    using t other by (simp_all add: tracks_def)
  show ?thesis
  proof (cases "\<exists>pid h v. a = PersistHardState pid h v")
    case True
    then obtain pid h v where h: "a = PersistHardState pid h v" by blast
    have ev: "q_event ?x = HardStatePersisted pid" using a(2) h by simp
    have step: "cluster_step threeNodeIDs s (emit ?i n as (write_hard ?i s))"
      by (rule persist_step [where h = "\<lparr>hs_Term = h, hs_VotedFor = v\<rparr>" and pid = pid, OF node(1)])
         (use node w h n(1) [unfolded ev] in simp_all)
    have "tracks c' (emit ?i n as (write_hard ?i s))"
      unfolding n(2)
      by (rule tracks_emit; unfold d) (use rest kept dead al w h in \<open>auto simp: write_hard_def\<close>)
    with step show ?thesis unfolding advances_def by blast
  next
    case False
    have e: "local_event (q_event ?x)" "hard_writes [a] = []" "\<And>d. d_hard (stored a d) = d_hard d"
      using other_completion [OF a(2)] False by blast+
    have step: "cluster_step threeNodeIDs s (emit ?i n as s)"
      by (rule local_step) (use node n(1) e in auto)
    have "tracks c' (emit ?i n as s)"
      unfolding n(2)
      by (rule tracks_emit; unfold d) (use rest kept dead al w e(2,3) in auto)
    with step show ?thesis unfolding advances_def by blast
  qed
qed

text \<open>One scheduler step is at most one step of the cluster.\<close>

lemma runItem_refines:
  assumes t: "tracks c s" and k: "k \<in> set (eligibleEvents c)" and r: "runItem k c = Some c'"
  shows "\<exists>s'. advances s s' \<and> tracks c' s'"
proof -
  let ?x = "rc_queue c ! k" and ?i = "q_to (rc_queue c ! k)"
  let ?c = "(remove_item k c)\<lparr>rc_step := rc_step c + 1\<rparr>"
  have kl: "k < length (rc_queue c)" by (rule eligible_in_range [OF k])
  have al: "rc_alive (remove_item k c) = rc_alive c" "rc_nodes (remove_item k c) = rc_nodes c" by (simp_all add: remove_item_def)
  consider (dead) "\<not> rc_alive c ?i" | (kept) "rc_alive c ?i" "q_kind ?x \<noteq> queuedPersistence" | (written) "rc_alive c ?i" "q_kind ?x = queuedPersistence"
    by blast
  then show ?thesis
  proof cases
    case dead
    then have "c' = record_event ''discard'' ?i ?c" using r by (simp add: runItem_def Let_def al)
    then have "tracks c' s" using tracks_remove [OF t kl] dead by (auto intro: tracks_cong simp: record_event_def)
    then show ?thesis by (auto simp: advances_def)
  next
    case kept
    have t1: "tracks (remove_item k c) s" using tracks_remove [OF t kl] kept by blast
    show ?thesis
    proof (cases "q_kind ?x = queuedMessage \<and> \<not> rc_connected c (q_from ?x) ?i")
      case True
      then have "tracks c' s" using r kept
        by (auto simp: runItem_def Let_def al remove_item_def record_event_def intro: tracks_cong [OF t1])
      then show ?thesis by (auto simp: advances_def)
    next
      case False
      let ?d = "record_event (kindName (q_kind ?x)) ?i ?c"
      have st: "stepNode ?i (q_event ?x) ?d = Some c'"
        using r kept False by (auto simp: runItem_def Let_def al remove_item_def)
      have t2: "tracks ?d s" by (rule tracks_cong [OF t1]) (simp_all add: record_event_def)
      have i: "item_ok (c_emitted s) ?x" "?i \<in> set threeNodeIDs" "c_node s ?i = rc_nodes c ?i"
        using t kl kept(1) by (simp_all add: tracks_def)
      have "cluster_step threeNodeIDs s (emit ?i n as s)" if "Step (c_node s ?i) (q_event ?x) = Some (n, as)" for n as
        using i kept(2) that by (auto simp: item_ok_def split: queuedKind.splits intro: local_step deliver_step)
      from stepNode_emit [OF st _ t2 _ this] i(3) kept(1) show ?thesis by (simp add: record_event_def remove_item_def)
    qed
  next
    case written
    then have "stepNode ?i (q_event ?x) (record_event ''persistence'' ?i (completePersistence ?x ?c)) = Some c'"
      using r by (simp add: runItem_def Let_def al)
    from persistence_step [OF t k written(2,1) this] show ?thesis .
  qed
qed

subsection \<open>Every scheduler operation keeps the correspondence\<close>

text \<open>The simulated cluster is one that the transition system reaches in at most \<open>b\<close> steps.\<close>

definition simulates :: "nat \<Rightarrow> randomCluster \<Rightarrow> bool" where
  "simulates b c \<longleftrightarrow> (\<exists>k s. reach threeNodeIDs k s \<and> k \<le> b \<and> tracks c s) \<and> rc_invariantErr c \<noteq> Some electionSafety"

definition random_source :: "Random \<Rightarrow> bool" where
  "random_source intn \<longleftrightarrow> (\<forall>d n. 0 < n \<longrightarrow> intn d n < n)"

lemma simulates_mono: "simulates b c \<Longrightarrow> b \<le> b' \<Longrightarrow> simulates b' c"
  unfolding simulates_def by (meson le_trans)

lemma simulates_cong:
  assumes "simulates b c" "rc_alive c' = rc_alive c" "rc_nodes c' = rc_nodes c" "rc_durable c' = rc_durable c"
    "rc_queue c' = rc_queue c" "rc_leaders c' = rc_leaders c" "rc_invariantErr c' = rc_invariantErr c"
  shows "simulates b c'"
  using assms tracks_cong [OF _ assms(2-6)] unfolding simulates_def by auto

lemma simulates_advance:
  assumes "simulates b c" "\<And>s. tracks c s \<Longrightarrow> \<exists>s'. advances s s' \<and> tracks c' s'" "rc_invariantErr c' \<noteq> Some electionSafety"
  shows "simulates (Suc b) c'"
proof -
  from assms(1) obtain k s where k: "reach threeNodeIDs k s" "k \<le> b" "tracks c s" by (auto simp: simulates_def)
  from assms(2) [OF k(3)] obtain s' where s: "advances s s'" "tracks c' s'" by blast
  then have "reach threeNodeIDs k s' \<or> reach threeNodeIDs (Suc k) s'" using k(1) by (auto simp: advances_def intro: reach_step)
  with k(2) s(2) assms(3) show ?thesis unfolding simulates_def by (meson Suc_le_mono le_SucI)
qed

lemma consumeAction_err: "rc_invariantErr c \<noteq> Some electionSafety \<Longrightarrow> rc_invariantErr (consumeAction nid a c) \<noteq> Some electionSafety"
  by (cases a) (auto simp: enqueueMessage_def enqueue_def enqueueTimer_def apply_sim_def Let_def split: option.splits)

lemma consumeActions_err: "rc_invariantErr c \<noteq> Some electionSafety \<Longrightarrow> rc_invariantErr (consumeActions nid as c) \<noteq> Some electionSafety"
  unfolding consumeActions_def by (induction as arbitrary: c) (simp_all add: consumeAction_err)

lemma stepNode_err: "stepNode nid e c = Some c' \<Longrightarrow> rc_invariantErr c \<noteq> Some electionSafety \<Longrightarrow> rc_invariantErr c' \<noteq> Some electionSafety"
  by (auto simp: stepNode_def consumeActions_err)

lemma runItem_err:
  assumes "runItem k c = Some c'" "rc_invariantErr c \<noteq> Some electionSafety"
  shows "rc_invariantErr c' \<noteq> Some electionSafety"
proof -
  let ?x = "rc_queue c ! k" and ?c = "(remove_item k c)\<lparr>rc_step := rc_step c + 1\<rparr>"
  have e: "rc_invariantErr ?c = rc_invariantErr c" "\<And>m. rc_invariantErr (record_event m (q_to ?x) ?c) = rc_invariantErr c"
    "\<And>m. rc_invariantErr (record_event m (q_to ?x) (completePersistence ?x ?c)) = rc_invariantErr c"
    by (simp_all add: remove_item_def record_event_def completePersistence_def split: option.splits)
  show ?thesis
    using assms e
    by (auto simp: runItem_def Let_def record_event_def split: if_splits dest!: stepNode_err)
qed

lemma healthyEvent_eligible: "eligible \<noteq> [] \<Longrightarrow> healthyEvent eligible c \<in> set eligible"
proof -
  assume ne: "eligible \<noteq> []"
  let ?l = "concat (map (\<lambda>preferred. filter (\<lambda>i. q_kind (rc_queue c ! i) = preferred) eligible)
     [queuedPersistence, queuedMessage, queuedClient, queuedTimer])"
  have "set ?l \<subseteq> set eligible" by auto
  then show ?thesis
  proof (cases ?l)
    case Nil
    then show ?thesis unfolding healthyEvent_def Nil using ne by simp
  next
    case (Cons i r)
    have "i \<in> set ?l" unfolding Cons by simp
    with \<open>set ?l \<subseteq> set eligible\<close> show ?thesis unfolding healthyEvent_def Cons by auto
  qed
qed

lemma runOne_simulates:
  assumes s: "simulates b c" and i: "random_source intn" and r: "runOne intn choice c = Some (again, c')"
  shows "simulates (Suc b) c'"
proof (cases "eligibleEvents c = []")
  case True
  then have "c' = c\<lparr>rc_step := rc_step c + 1\<rparr>" using r by (simp add: runOne_def Let_def)
  then show ?thesis using simulates_mono [OF simulates_cong [OF s]] by simp
next
  case False
  have in_range: "intn (rc_draws c) (length (eligibleEvents c)) < length (eligibleEvents c)"
    using i False unfolding random_source_def by simp
  obtain k d where k: "k \<in> set (eligibleEvents c)" "runItem k (c\<lparr>rc_draws := d\<rparr>) = Some c'"
  proof (cases choice)
    case True
    with r False have "runItem (eligibleEvents c ! intn (rc_draws c) (length (eligibleEvents c))) (c\<lparr>rc_draws := rc_draws c + 1\<rparr>) = Some c'"
      by (simp add: runOne_def Let_def draw_def)
    with that in_range show ?thesis by (meson nth_mem)
  next
    case no_choice: False
    with r False have "runItem (healthyEvent (eligibleEvents c) c) (c\<lparr>rc_draws := rc_draws c\<rparr>) = Some c'"
      by (simp add: runOne_def Let_def)
    with that healthyEvent_eligible [OF False] show ?thesis by blast
  qed
  have s1: "simulates b (c\<lparr>rc_draws := d\<rparr>)" by (rule simulates_cong [OF s]) simp_all
  have k1: "k \<in> set (eligibleEvents (c\<lparr>rc_draws := d\<rparr>))" using k(1) by (simp add: eligibleEvents_def)
  show ?thesis
    by (rule simulates_advance [OF s1 runItem_refines [OF _ k1 k(2)]])
       (use runItem_err [OF k(2)] s1 in \<open>auto simp: simulates_def\<close>)
qed

text \<open>Changes of the queue that only concern timers, client calls, delays and the order of messages.\<close>

definition alike :: "queuedEvent \<Rightarrow> queuedEvent \<Rightarrow> bool" where
  "alike x y \<longleftrightarrow> q_kind x = q_kind y \<and> q_to x = q_to y \<and> q_event x = q_event y \<and> q_persistence x = q_persistence y"

definition unforced :: "queuedEvent \<Rightarrow> bool" where
  "unforced x \<longleftrightarrow> (q_kind x = queuedTimer \<or> q_kind x = queuedClient) \<and> local_event (q_event x)"

lemma item_ok_alike: "alike x y \<Longrightarrow> item_ok E x = item_ok E y"
  unfolding alike_def item_ok_def by (cases "q_kind y") simp_all

lemma item_ok_unforced: "unforced x \<Longrightarrow> item_ok E x"
  by (auto simp: unforced_def item_ok_def)

lemma simulates_queue:
  assumes s: "simulates b c" and w: "\<And>i. queuedWrites i (rc_queue c') = queuedWrites i (rc_queue c)"
    and x: "\<And>x. x \<in> set (rc_queue c') \<Longrightarrow> unforced x \<or> (\<exists>y\<in>set (rc_queue c). alike x y)"
    and e: "rc_alive c' = rc_alive c" "rc_nodes c' = rc_nodes c" "rc_durable c' = rc_durable c" "rc_leaders c' = rc_leaders c"
      "rc_invariantErr c' = rc_invariantErr c"
  shows "simulates b c'"
proof -
  have "tracks c' s" if t: "tracks c s" for s
  proof -
    have "item_ok (c_emitted s) x" if "x \<in> set (rc_queue c')" for x
      using x [OF that] t unfolding tracks_def by (metis item_ok_alike item_ok_unforced)
    with t show ?thesis by (simp add: tracks_def w e)
  qed
  with s e(5) show ?thesis unfolding simulates_def by metis
qed

lemma queuedWrites_update:
  assumes "k < length q" "q_kind (q ! k) \<noteq> queuedPersistence" "q_kind y \<noteq> queuedPersistence"
  shows "queuedWrites i (q[k := y]) = queuedWrites i q"
proof -
  have "queuedWrites i q = queuedWrites i (take k q @ q ! k # drop (k + 1) q)" using queue_split [OF assms(1)] by simp
  then show ?thesis using assms by (simp add: upd_conv_take_nth_drop queuedWrites_Cons)
qed

lemma queuedWrites_delay:
  assumes "k < length q"
  shows "queuedWrites i (q[k := (q ! k)\<lparr>q_availableAt := t\<rparr>]) = queuedWrites i q"
proof -
  have "queuedWrites i q = queuedWrites i (take k q @ q ! k # drop (k + 1) q)" using queue_split [OF assms] by simp
  then show ?thesis using assms by (simp add: upd_conv_take_nth_drop queuedWrites_Cons)
qed

lemma alike_refl [simp]: "alike x x"
  by (simp add: alike_def)

lemma enqueueTimer_simulates: "simulates b c \<Longrightarrow> local_event e \<Longrightarrow> simulates b (enqueueTimer to e c)"
  by (rule simulates_queue)
     (auto simp: enqueueTimer_def enqueue_def queuedWrites_filter queuedWrites_Cons unforced_def intro!: bexI [of "alike _"])

lemma enqueueClient_simulates: "simulates b c \<Longrightarrow> local_event e \<Longrightarrow> simulates b (enqueueClient to e c)"
  by (rule simulates_queue) (auto simp: enqueueClient_def enqueue_def queuedWrites_Cons unforced_def intro!: bexI [of "alike _"])

lemma record_simulates: "simulates b c \<Longrightarrow> simulates b (record_event kd nid c)"
  by (erule simulates_cong) (simp_all add: record_event_def)

lemma indices_spec: "i \<in> set (indices kd c) \<Longrightarrow> i < length (rc_queue c) \<and> q_kind (rc_queue c ! i) = kd"
  by (auto simp: indices_def)

lemma delayItem_simulates:
  assumes "simulates b c" "i < length (rc_queue c)"
  shows "simulates b (delayItem i c)"
proof (rule simulates_queue [OF assms(1)])
  fix x assume "x \<in> set (rc_queue (delayItem i c))"
  then have "x \<in> insert ((rc_queue c ! i)\<lparr>q_availableAt := rc_step c + 4\<rparr>) (set (rc_queue c))"
    using set_update_subset_insert by (fastforce simp: delayItem_def)
  then show "unforced x \<or> (\<exists>y\<in>set (rc_queue c). alike x y)"
    using nth_mem [OF assms(2)] by (auto simp: alike_def)
qed (use assms(2) in \<open>simp_all add: delayItem_def queuedWrites_delay\<close>)

lemma delayPersistence_simulates: "simulates b c \<Longrightarrow> simulates b (delayPersistence c)"
proof (cases "indices queuedPersistence c")
  case (Cons i r)
  assume s: "simulates b c"
  have "i < length (rc_queue c)" using indices_spec [of i queuedPersistence c] Cons by simp
  from delayItem_simulates [OF s this] Cons show ?thesis
    by (auto simp: delayPersistence_def intro!: record_simulates elim!: simulates_cong)
qed (simp add: delayPersistence_def)

lemma delayAndDuplicate_simulates: "simulates b c \<Longrightarrow> simulates b (delayAndDuplicate c)"
proof (cases "indices queuedMessage c")
  case (Cons i r)
  assume s: "simulates b c"
  have i: "i < length (rc_queue c)" "q_kind (rc_queue c ! i) = queuedMessage" using indices_spec [of i queuedMessage c] Cons by simp_all
  let ?d = "delayItem i c"
  have s1: "simulates b ?d" by (rule delayItem_simulates [OF s i(1)])
  have al: "\<exists>y\<in>set (rc_queue ?d). alike (rc_queue c ! i) y"
    using i(1) by (intro bexI [of _ "rc_queue ?d ! i"]) (simp_all add: delayItem_def alike_def set_update_memI)
  have "simulates b (enqueue (rc_queue c ! i) ?d)"
  proof (rule simulates_queue [OF s1])
    fix x assume "x \<in> set (rc_queue (enqueue (rc_queue c ! i) ?d))"
    then have "x \<in> set (rc_queue ?d) \<or> x = rc_queue c ! i" by (auto simp: enqueue_def)
    then show "unforced x \<or> (\<exists>y\<in>set (rc_queue ?d). alike x y)" using al alike_refl by blast
  qed (use i(2) in \<open>simp_all add: enqueue_def queuedWrites_Cons\<close>)
  then show ?thesis
    using Cons by (auto simp: delayAndDuplicate_def Let_def enqueue_def record_event_def elim!: simulates_cong)
qed (simp add: delayAndDuplicate_def)

lemma reorderMessages_simulates: "simulates b c \<Longrightarrow> simulates b (reorderMessages c)"
proof (cases "indices queuedMessage c")
  case (Cons i r)
  assume s: "simulates b c"
  show ?thesis
  proof (cases r)
    case Nil
    with s Cons show ?thesis by (simp add: reorderMessages_def)
  next
    case (Cons j r')
    have i: "i < length (rc_queue c)" "q_kind (rc_queue c ! i) = queuedMessage" "j < length (rc_queue c)" "q_kind (rc_queue c ! j) = queuedMessage"
      using indices_spec [of _ queuedMessage c] \<open>indices queuedMessage c = i # r\<close> Cons by simp_all
    let ?c = "reorderMessages c"
    have c: "?c = record_event ''message-reorder'' ''''
      (c\<lparr>rc_queue := (rc_queue c)[i := rc_queue c ! j, j := rc_queue c ! i], rc_faults := (rc_faults c)\<lparr>fc_MessageReorder := True\<rparr>\<rparr>)"
      using \<open>indices queuedMessage c = i # r\<close> Cons by (simp add: reorderMessages_def)
    have q: "(rc_queue c)[i := rc_queue c ! j] ! j = rc_queue c ! j" using i by (cases "i = j") auto
    show ?thesis
    proof (rule simulates_queue [OF s])
      fix k show "queuedWrites k (rc_queue ?c) = queuedWrites k (rc_queue c)"
        using i q by (simp add: c record_event_def queuedWrites_update)
    next
      fix x assume "x \<in> set (rc_queue ?c)"
      then have "x \<in> set (rc_queue c)" using i by (simp add: c record_event_def set_swap)
      then show "unforced x \<or> (\<exists>y\<in>set (rc_queue c). alike x y)" by (auto intro: bexI [of _ x])
    qed (simp_all add: c record_event_def)
  qed
qed (simp add: reorderMessages_def)

lemma dropMessage_simulates: "simulates b c \<Longrightarrow> simulates b (dropMessage c)"
proof (cases "indices queuedMessage c")
  case (Cons i r)
  assume s: "simulates b c"
  have i: "i < length (rc_queue c)" "q_kind (rc_queue c ! i) \<noteq> queuedPersistence" using indices_spec [of i queuedMessage c] Cons by simp_all
  have "simulates b (remove_item i c)"
    using s tracks_remove [OF _ i(1)] i(2) unfolding simulates_def by (auto simp: remove_item_def)
  then show ?thesis using Cons by (auto simp: dropMessage_def record_event_def elim!: simulates_cong)
qed (simp add: dropMessage_def)

lemma crash_simulates: "simulates b c \<Longrightarrow> simulates b (crash nid c)"
proof -
  assume s: "simulates b c"
  let ?q = "filter (\<lambda>item. \<not> (q_to item = nid \<and> q_kind item \<noteq> queuedMessage)) (rc_queue c)"
  have c: "rc_alive (crash nid c) = (rc_alive c)(nid := False)" "rc_nodes (crash nid c) = rc_nodes c" "rc_durable (crash nid c) = rc_durable c"
    "rc_leaders (crash nid c) = rc_leaders c" "rc_queue (crash nid c) = ?q" "rc_invariantErr (crash nid c) = rc_invariantErr c"
    by (simp_all add: crash_def record_event_def)
  have w: "queuedWrites i ?q = (if i = nid then [] else queuedWrites i (rc_queue c))" for i
  proof (cases "i = nid")
    case True
    then show ?thesis by (simp, intro queuedWrites_none) auto
  qed (auto intro: queuedWrites_filter)
  have "tracks (crash nid c) s" if "tracks c s" for s
    using that unfolding tracks_def c w by auto
  with s c(6) show ?thesis unfolding simulates_def by metis
qed

text \<open>A restart is a crash that finds what reached the disk, followed by the recovery of the committed prefix.\<close>

lemma restart_refines:
  assumes t: "tracks c s" and m: "nid \<in> set threeNodeIDs" and dead: "\<not> rc_alive c nid" and r: "restart nid c = Some c'"
  shows "\<exists>s1 s2. cluster_step threeNodeIDs s s1 \<and> cluster_step threeNodeIDs s1 s2 \<and> tracks c' s2"
proof -
  let ?rs = "\<lparr>rs_HardState = d_hard (rc_durable c nid), rs_Log = d_log (rc_durable c nid), rs_CommitIndex = d_commit (rc_durable c nid),
    rs_SnapshotIndex = 0, rs_SnapshotTerm = 0\<rparr>"
  from r obtain node d n as where n: "NewNodeFromRecoveredState nid (peers_of threeNodeIDs nid) ?rs = Some node"
    "d = c\<lparr>rc_nodes := (rc_nodes c)(nid := node), rc_alive := (rc_alive c)(nid := True),
       rc_incarnation := (rc_incarnation c)(nid := rc_incarnation c nid + 1), rc_models := (rc_models c)(nid := newModelState),
       rc_lastState := (rc_lastState c)(nid := None)\<rparr>"
    "Step node RecoverCommitted = Some (n, as)"
    "c' = (let c1 = enqueueTimer nid ElectionTimeout (consumeActions nid as (d\<lparr>rc_nodes := (rc_nodes d)(nid := n)\<rparr>))
       in record_event ''restart'' nid (c1\<lparr>rc_faults := (rc_faults c1)\<lparr>fc_Restart := True\<rparr>\<rparr>))"
    by (auto simp: restart_def stepNode_def Let_def bind_eq_Some_conv simp del: Step.simps)
  let ?s1 = "reboot nid (c_disk s nid) node s"
  have disk: "c_disk s nid = d_hard (rc_durable c nid)" using t m by (simp add: tracks_def)
  have s1: "cluster_step threeNodeIDs s ?s1"
    by (rule crash_step [OF m _ _ n(1)]) (simp_all add: disk)
  have s2: "cluster_step threeNodeIDs ?s1 (emit nid n as ?s1)"
    by (rule local_step [OF m, where e = RecoverCommitted]) (use n(3) in \<open>simp_all add: reboot_def del: Step.simps\<close>)
  have q: "queuedWrites nid (rc_queue c) = []" using t dead by (simp add: tracks_def)
  have "tracks (consumeActions nid as (d\<lparr>rc_nodes := (rc_nodes d)(nid := n)\<rparr>)) (emit nid n as ?s1)"
    by (rule tracks_emit) (use t q m in \<open>auto simp: tracks_def n(2) reboot_def\<close>)
  then have "tracks (enqueueTimer nid ElectionTimeout (consumeActions nid as (d\<lparr>rc_nodes := (rc_nodes d)(nid := n)\<rparr>))) (emit nid n as ?s1)"
    by (auto simp: tracks_def enqueueTimer_def enqueue_def queuedWrites_filter queuedWrites_Cons item_ok_def)
  then have "tracks c' (emit nid n as ?s1)"
    unfolding n(4) Let_def by (rule tracks_cong) (simp_all add: record_event_def)
  with s1 s2 show ?thesis by blast
qed

lemma restart_simulates:
  assumes s: "simulates b c" and m: "nid \<in> set threeNodeIDs" and dead: "\<not> rc_alive c nid" and r: "restart nid c = Some c'"
  shows "simulates (b + 2) c'"
proof -
  from s obtain k s0 where k: "reach threeNodeIDs k s0" "k \<le> b" "tracks c s0" by (auto simp: simulates_def)
  from restart_refines [OF k(3) m dead r] obtain s1 s2 where
    "cluster_step threeNodeIDs s0 s1" "cluster_step threeNodeIDs s1 s2" "tracks c' s2" by blast
  then have "reach threeNodeIDs (Suc (Suc k)) s2" using k(1) by (meson reach_step)
  moreover have "rc_invariantErr c' \<noteq> Some electionSafety"
    using r s by (auto simp: restart_def bind_eq_Some_conv Let_def record_event_def enqueueTimer_def enqueue_def simulates_def dest!: stepNode_err)
  ultimately show ?thesis using k(2) \<open>tracks c' s2\<close> unfolding simulates_def by (intro conjI exI [of _ "Suc (Suc k)"] exI [of _ s2]) auto
qed

subsection \<open>The election check never fails\<close>

lemma simulates_one_leader:
  assumes "simulates b c" "b < 2 ^ 64"
  shows "\<not> twoLeaders c"
proof
  assume "twoLeaders c"
  then obtain t i j where l: "(t, i) \<in> set (rc_leaders c)" "rc_alive c j" "n_role (rc_nodes c j) = Leader" "n_term (rc_nodes c j) = t" "j \<noteq> i"
    by (auto simp: twoLeaders_def list_ex_iff)
  from assms obtain k s where k: "reach threeNodeIDs k s" "k < 2 ^ 64" "tracks c s" by (auto simp: simulates_def)
  have j: "j \<in> set threeNodeIDs" "c_node s j = rc_nodes c j" using k(3) l(2) by (auto simp: tracks_def)
  have "(i, BecameLeader t) \<in> c_emitted s" using k(3) l(1) by (auto simp: tracks_def)
  moreover have "(j, BecameLeader t) \<in> c_emitted s"
    using reach_inv [OF k(1) threeNodeIDs_membership k(2)] j l(3,4) by (auto simp: cluster_inv_def node_inv_def role_ok_def)
  ultimately show False
    using elected_unique [OF reach_emitted [OF threeNodeIDs_membership k(1,2)]] l(5) by metis
qed

text \<open>The checks only remember the states they saw.\<close>

definition seen_only :: "randomCluster \<Rightarrow> randomCluster \<Rightarrow> bool" where
  "seen_only c c' \<longleftrightarrow> c'\<lparr>rc_lastState := rc_lastState c\<rparr> = c"

lemma seen_only_simulates:
  assumes "seen_only c c'" "simulates b c"
  shows "simulates b c'"
  by (rule simulates_cong [OF assms(2)]) (subst assms(1) [unfolded seen_only_def, symmetric], simp)+

lemma seen_only_refl [simp]: "seen_only c c"
  by (simp add: seen_only_def)

lemma seen_only_trans: "seen_only c c1 \<Longrightarrow> seen_only c1 c2 \<Longrightarrow> seen_only c c2"
  unfolding seen_only_def by (metis randomCluster.update_convs(12) randomCluster.surjective)

lemma checkNode_result: "checkNode nid c = Some (e, c') \<Longrightarrow> e \<noteq> Some electionSafety \<and> seen_only c c'"
  by (auto simp: checkNode_def Let_def bind_eq_Some_conv seen_only_def split: if_splits)

lemma checkNodes_result: "checkNodes ids c = Some (e, c') \<Longrightarrow> e \<noteq> Some electionSafety \<and> seen_only c c'"
proof (induction ids arbitrary: c)
  case (Cons i ids)
  then obtain e1 c1 where c1: "checkNode i c = Some (e1, c1)" by (auto split: option.splits)
  show ?case
  proof (cases e1)
    case None
    with Cons c1 checkNode_result [OF c1] show ?thesis using seen_only_trans by fastforce
  qed (use Cons c1 checkNode_result [OF c1] in auto)
qed simp

lemma firstError_in: "firstError es = Some e \<Longrightarrow> Some e \<in> set es"
  by (induction es rule: firstError.induct) auto

definition safe :: "nat \<Rightarrow> Outcome \<Rightarrow> bool" where
  "safe b r \<longleftrightarrow> (\<forall>e c. r = Some (e, c) \<longrightarrow> e \<noteq> Some electionSafety \<and> simulates b c)"

lemma safe_mono: "safe b r \<Longrightarrow> b \<le> b' \<Longrightarrow> safe b' r"
  unfolding safe_def using simulates_mono by blast

lemma assertInvariants_safe:
  assumes "simulates b c" "b < 2 ^ 64"
  shows "safe b (assertInvariants c)"
  unfolding safe_def
proof (intro allI impI)
  fix e c' assume a: "assertInvariants c = Some (e, c')"
  have pair: "checkPair d p \<noteq> Some electionSafety" for d p
    by (auto simp: checkPair_def split: prod.splits)
  have "e \<noteq> Some electionSafety \<and> seen_only c c'"
  proof (cases "rc_invariantErr c")
    case (Some err)
    with a assms(1) show ?thesis by (auto simp: assertInvariants_def simulates_def)
  next
    case None
    with a simulates_one_leader [OF assms] obtain e1 c1 where c1: "checkNodes threeNodeIDs c = Some (e1, c1)"
      by (auto simp: assertInvariants_def split: option.splits)
    note r = checkNodes_result [OF c1]
    show ?thesis
    proof (cases e1)
      case e1: None
      let ?p = "firstError (map (checkPair c1) (pairsOf threeNodeIDs))"
      have "?p \<noteq> Some electionSafety" using firstError_in [of _ electionSafety] pair by fastforce
      moreover have "e = (case ?p of Some err \<Rightarrow> Some err | None \<Rightarrow>
          if list_ex (\<lambda>(index, entry). copies c1 index entry < 2) (rc_committed c1) then Some durabilityLost else None) \<and> c' = c1"
        using a None simulates_one_leader [OF assms] c1 e1 by (auto simp: assertInvariants_def split: option.splits if_splits)
      ultimately show ?thesis using r by (auto split: option.splits)
    qed (use a None simulates_one_leader [OF assms] c1 r in \<open>auto simp: assertInvariants_def\<close>)
  qed
  then show "e \<noteq> Some electionSafety \<and> simulates b c'"
    using seen_only_simulates [OF _ assms(1)] by blast
qed

lemma continue_safe:
  assumes "safe b r" "\<And>c. simulates b c \<Longrightarrow> safe b' (f c)" "b \<le> b'"
  shows "safe b' (continue r f)"
proof (cases r)
  case (Some p)
  obtain e c where p: "p = (e, c)" by (cases p)
  have s: "e \<noteq> Some electionSafety" "simulates b c" using assms(1) Some p by (auto simp: safe_def)
  show ?thesis
  proof (cases e)
    case None
    with Some p assms(2) [OF s(2)] show ?thesis by (simp add: continue_def)
  next
    case (Some err)
    with \<open>r = Some p\<close> p s simulates_mono [OF s(2) assms(3)] show ?thesis by (simp add: continue_def safe_def)
  qed
qed (simp add: continue_def safe_def)

lemma round_safe:
  assumes s: "simulates b c" and i: "random_source intn" and b: "Suc b + n < 2 ^ 64"
    and go: "\<And>c1. simulates (Suc b) c1 \<Longrightarrow> safe (Suc b + n) (f c1)" and stop: "\<And>c1. simulates (Suc b) c1 \<Longrightarrow> safe (Suc b + n) (g c1)"
  shows "safe (Suc b + n) (case runOne intn choice c of
      None \<Rightarrow> None | Some (False, c) \<Rightarrow> g c | Some (True, c) \<Rightarrow> continue (assertInvariants c) f)"
proof (cases "runOne intn choice c")
  case (Some p)
  obtain again c1 where p: "p = (again, c1)" by (cases p)
  have s1: "simulates (Suc b) c1" using runOne_simulates [OF s i] Some p by blast
  have "safe (Suc b + n) (continue (assertInvariants c1) f)"
    by (rule continue_safe [OF assertInvariants_safe [OF s1] go]) (use b in auto)
  with Some p stop [OF s1] show ?thesis by (cases again) simp_all
qed (simp add: safe_def)

lemma safe_result: "simulates b c \<Longrightarrow> e \<noteq> Some electionSafety \<Longrightarrow> b \<le> b' \<Longrightarrow> safe b' (Some (e, c))"
  by (auto simp: safe_def intro: simulates_mono)

lemma drainUntil_safe:
  assumes "random_source intn"
  shows "simulates b c \<Longrightarrow> b + n < 2 ^ 64 \<Longrightarrow> safe (b + n) (drainUntil intn isDone n c)"
proof (induction n arbitrary: b c)
  case (Suc n)
  have "safe (Suc b + n) (case runOne intn False c of None \<Rightarrow> None | Some (False, c) \<Rightarrow> Some (Some outOfEvents, c)
      | Some (True, c) \<Rightarrow> continue (assertInvariants c) (drainUntil intn isDone n))"
    by (rule round_safe [OF Suc.prems(1) assms]) (use Suc.IH [of "Suc b"] Suc.prems in \<open>auto intro: safe_result\<close>)
  with Suc.prems show ?case by (auto intro: safe_result)
qed (auto intro: safe_result)

lemma runUntilKind_safe:
  assumes "random_source intn"
  shows "simulates b c \<Longrightarrow> b + n < 2 ^ 64 \<Longrightarrow> safe (b + n) (runUntilKind intn kd n c)"
proof (induction n arbitrary: b c)
  case (Suc n)
  have "safe (Suc b + n) (case runOne intn False c of None \<Rightarrow> None | Some (False, c) \<Rightarrow> Some (None, c)
      | Some (True, c) \<Rightarrow> continue (assertInvariants c) (runUntilKind intn kd n))"
    by (rule round_safe [OF Suc.prems(1) assms]) (use Suc.IH [of "Suc b"] Suc.prems in \<open>auto intro: safe_result\<close>)
  with Suc.prems show ?case by (auto intro: safe_result)
qed (auto intro: safe_result)

lemma deliverThroughPartition_safe:
  assumes "random_source intn"
  shows "simulates b c \<Longrightarrow> b + n < 2 ^ 64 \<Longrightarrow> safe (b + n) (deliverThroughPartition intn to n c)"
proof (induction n arbitrary: b c)
  case (Suc n)
  have "safe (Suc b + n) (case runOne intn False c of None \<Rightarrow> None | Some (False, c) \<Rightarrow> Some (Some notBlocked, c)
      | Some (True, c) \<Rightarrow> continue (assertInvariants c) (\<lambda>c.
          if list_ex (\<lambda>event. te_Kind event = ''message-drop'' \<and> te_Node event = to) (drop m (rc_trace c))
          then Some (None, c) else deliverThroughPartition intn to n c))" for m
    by (rule round_safe [OF Suc.prems(1) assms]) (use Suc.IH [of "Suc b"] Suc.prems in \<open>auto intro: safe_result\<close>)
  with Suc.prems show ?case by (auto simp: Let_def)
qed (auto intro: safe_result)

lemma bootstrapLoop_safe:
  assumes i: "random_source intn"
  shows "simulates b c \<Longrightarrow> b + n + 10000 < 2 ^ 64 \<Longrightarrow> safe (b + n + 10000) (bootstrapLoop intn n c)"
proof (induction n arbitrary: b c)
  case (Suc n)
  let ?l = "leader_sim c"
  have drain: "safe (b + 10000) (continue (drainUntil intn (sessionOpened ?l) 5000 (enqueueClient ?l (EvProposeSession p) c))
      (\<lambda>c. drainUntil intn (acknowledged ?l) 5000 (enqueueClient ?l (EvProposeSet q) c)))" for p q
    by (rule continue_safe [OF drainUntil_safe [OF i enqueueClient_simulates [OF Suc.prems(1)]]])
       (use Suc.prems(2) drainUntil_safe [OF i enqueueClient_simulates, of "b + 5000" _ _ 5000] in \<open>auto simp: add.commute\<close>)
  have "safe (Suc b + (n + 10000)) (case runOne intn False c of None \<Rightarrow> None | Some (False, c) \<Rightarrow> Some (Some outOfEvents, c)
      | Some (True, c) \<Rightarrow> continue (assertInvariants c) (bootstrapLoop intn n))"
    by (rule round_safe [OF Suc.prems(1) i]) (use Suc.IH [of "Suc b"] Suc.prems in \<open>auto intro: safe_result simp: add.assoc\<close>)
  with safe_mono [OF drain] show ?case by (simp add: Let_def add.assoc)
qed (auto intro: safe_result)

lemma drawNode_member:
  assumes "random_source intn"
  shows "fst (drawNode intn c) \<in> set threeNodeIDs"
proof -
  have "intn (rc_draws c) (length threeNodeIDs) < length threeNodeIDs"
    using assms unfolding random_source_def by (simp add: threeNodeIDs_def)
  then show ?thesis by (simp add: drawNode_def draw_def)
qed

lemma drawNode_simulates: "simulates b c \<Longrightarrow> simulates b (snd (drawNode intn c))"
  by (erule simulates_cong) (simp_all add: drawNode_def draw_def)

lemma bootstrap_safe:
  assumes "random_source intn" "simulates b c" "b + 15000 < 2 ^ 64"
  shows "safe (b + 15000) (bootstrap intn c)"
proof -
  have "simulates b (enqueueTimer (fst (drawNode intn c)) ElectionTimeout (snd (drawNode intn c)))"
    by (simp add: enqueueTimer_simulates drawNode_simulates [OF assms(2)])
  from bootstrapLoop_safe [OF assms(1) this, of 5000] assms(3) show ?thesis
    by (simp add: bootstrap_def split_beta add.commute)
qed

lemma connect_simulates: "simulates b c \<Longrightarrow> simulates b (connect from to up c)"
  by (erule simulates_cong) (simp_all add: connect_def)

lemma seen_only_alive: "seen_only c c' \<Longrightarrow> rc_alive c' = rc_alive c"
  unfolding seen_only_def by (metis randomCluster.select_convs(3) randomCluster.surjective randomCluster.update_convs(12))

lemma assertInvariants_alive: "assertInvariants c = Some (e, c') \<Longrightarrow> rc_alive c' = rc_alive c"
  by (auto simp: assertInvariants_def split: option.splits if_splits dest!: checkNodes_result seen_only_alive)

lemma crashAndRestart_safe:
  assumes i: "random_source intn" and s: "simulates b c" and b: "b + 2 < 2 ^ 64"
  shows "safe (b + 2) (crashAndRestart intn from to c)"
proof -
  let ?v = "fst (drawNode intn c)" and ?c = "crash (fst (drawNode intn c)) (snd (drawNode intn c))"
  have m: "?v \<in> set threeNodeIDs" by (rule drawNode_member [OF i])
  have s1: "simulates b ?c" by (rule crash_simulates [OF drawNode_simulates [OF s]])
  have restart: "safe (b + 2) (case restart ?v d of None \<Rightarrow> None
      | Some c \<Rightarrow> continue (assertInvariants c) (\<lambda>c. assertInvariants (record_event ''heal'' from (connect from to True c))))"
    if "simulates b d" "\<not> rc_alive d ?v" for d
  proof (cases "restart ?v d")
    case (Some c1)
    have "simulates (b + 2) c1" by (rule restart_simulates [OF that(1) m that(2) Some])
    then have "safe (b + 2) (continue (assertInvariants c1) (\<lambda>c. assertInvariants (record_event ''heal'' from (connect from to True c))))"
      by (intro continue_safe [OF assertInvariants_safe] assertInvariants_safe record_simulates connect_simulates) (use b in auto)
    with Some show ?thesis by simp
  qed (simp add: safe_def)
  have dead: "\<not> rc_alive ?c ?v" by (simp add: crash_def record_event_def)
  have a: "safe b (assertInvariants ?c)" by (rule assertInvariants_safe [OF s1]) (use b in simp)
  have "safe (b + 2) (continue (assertInvariants ?c) (\<lambda>d. case restart ?v d of None \<Rightarrow> None
      | Some c \<Rightarrow> continue (assertInvariants c) (\<lambda>c. assertInvariants (record_event ''heal'' from (connect from to True c)))))"
  proof (cases "assertInvariants ?c")
    case (Some p)
    obtain e d where p: "p = (e, d)" by (cases p)
    have d: "simulates b d" "\<not> rc_alive d ?v" "e \<noteq> Some electionSafety"
      using a dead Some p assertInvariants_alive [of ?c e d] by (auto simp: safe_def)
    show ?thesis
    proof (cases e)
      case None
      with Some p restart [OF d(1,2)] show ?thesis by (simp add: continue_def)
    next
      case (Some err)
      with \<open>assertInvariants ?c = Some p\<close> p d show ?thesis by (simp add: continue_def safe_result)
    qed
  qed (simp add: continue_def safe_def)
  then show ?thesis by (simp add: crashAndRestart_def split_beta)
qed

lemma faultFrontier_safe:
  assumes i: "random_source intn" and s: "simulates b c" and b: "b + 102 < 2 ^ 64"
  shows "safe (b + 102) (faultFrontier intn leader c)"
proof -
  let ?to = "case find (\<lambda>nid. nid \<noteq> leader) threeNodeIDs of Some nid \<Rightarrow> nid | None \<Rightarrow> ''''"
  let ?d = "dropMessage (reorderMessages (delayAndDuplicate c))"
  let ?c = "record_event ''partition'' leader ((connect leader ?to False ?d)\<lparr>rc_faults := (rc_faults ?d)\<lparr>fc_Asymmetric := True\<rparr>\<rparr>)"
  have "simulates b ?d" by (intro dropMessage_simulates reorderMessages_simulates delayAndDuplicate_simulates s)
  then have c: "simulates b ?c"
    by (intro record_simulates, elim simulates_cong) (simp_all add: connect_def)
  have part: "safe (b + 102) (continue (deliverThroughPartition intn ?to 100 (enqueueTimer leader HeartbeatTimeout d)) (crashAndRestart intn leader ?to))"
    if "simulates b d" for d
    by (rule continue_safe [OF deliverThroughPartition_safe [OF i enqueueTimer_simulates [OF that]]])
       (use b crashAndRestart_safe [OF i, of "b + 100"] in \<open>auto simp: add.commute\<close>)
  have "safe (b + 102) (continue (assertInvariants ?c) (\<lambda>c.
      continue (deliverThroughPartition intn ?to 100 (enqueueTimer leader HeartbeatTimeout c)) (crashAndRestart intn leader ?to)))"
    by (rule continue_safe [OF assertInvariants_safe [OF c] part]) (use b in auto)
  then show ?thesis by (simp add: faultFrontier_def Let_def safe_def)
qed

lemma injectFaultFrontier_safe:
  assumes i: "random_source intn" and s: "simulates b c" and b: "b + 302 < 2 ^ 64"
  shows "safe (b + 302) (injectFaultFrontier intn c)"
proof -
  have work: "safe (b + 302) (continue (runUntilKind intn queuedMessage 100 (enqueueTimer l HeartbeatTimeout (delayPersistence d))) (faultFrontier intn l))"
    if "simulates (b + 100) d" for d l
    by (rule continue_safe [OF runUntilKind_safe [OF i enqueueTimer_simulates [OF delayPersistence_simulates [OF that]]]])
       (use b faultFrontier_safe [OF i, of "b + 200"] in \<open>auto simp: add.assoc\<close>)
  show ?thesis
    unfolding injectFaultFrontier_def Let_def
    by (rule continue_safe [OF runUntilKind_safe [OF i enqueueClient_simulates [OF s]] work]) (use b in auto)
qed

lemma enqueueRandomWork_simulates: "simulates b c \<Longrightarrow> simulates b (enqueueRandomWork intn c)"
  by (auto simp: enqueueRandomWork_def Let_def split_beta intro!: enqueueTimer_simulates drawNode_simulates)

lemma continue_return: "continue r (\<lambda>c. Some (None, c)) = r"
  by (auto simp: continue_def split: option.splits)

lemma randomLoop_safe:
  assumes i: "random_source intn"
  shows "simulates b c \<Longrightarrow> b + (steps - rc_step c) < 2 ^ 64 \<Longrightarrow> safe (b + (steps - rc_step c)) (randomLoop intn steps c)"
proof (induction "steps - rc_step c" arbitrary: b c)
  case 0
  then show ?case by (subst randomLoop.simps) (simp add: safe_result)
next
  case (Suc n)
  let ?w = "enqueueRandomWork intn c"
  have lt: "rc_step c < steps" using Suc.hyps(2) by simp
  show ?case
  proof (cases "randomRound intn c")
    case None
    with lt show ?thesis by (subst randomLoop.simps) (simp add: safe_def)
  next
    case (Some p)
    obtain e c1 where p: "p = (e, c1)" by (cases p)
    have n: "n = steps - rc_step c1" using randomRound_step [of intn c e c1] Some p Suc.hyps(2) by simp
    have "safe (Suc b + 0) (case runOne intn True ?w of None \<Rightarrow> None
        | Some (False, c) \<Rightarrow> (let (nid, c) = drawNode intn c in Some (None, enqueueTimer nid ElectionTimeout c))
        | Some (True, c) \<Rightarrow> continue (assertInvariants c) (\<lambda>c. Some (None, c)))"
      by (rule round_safe [OF enqueueRandomWork_simulates [OF Suc.prems(1)] i])
         (use Suc.prems(2) Suc.hyps(2) in \<open>auto simp: split_beta intro!: safe_result enqueueTimer_simulates drawNode_simulates\<close>)
    then have r: "safe (Suc b) (randomRound intn c)" unfolding continue_return randomRound_def by simp
    then have s1: "e \<noteq> Some electionSafety" "simulates (Suc b) c1" using Some p by (auto simp: safe_def)
    have bound: "b + (steps - rc_step c) = Suc b + (steps - rc_step c1)" using n Suc.hyps(2) by simp
    have "safe (Suc b + (steps - rc_step c1)) (randomLoop intn steps c1)"
      by (rule Suc.hyps(1) [OF n s1(2)]) (use Suc.prems(2) bound in simp)
    with Some p lt s1 show ?thesis
      unfolding bound by (subst randomLoop.simps) (cases e; simp add: safe_result)
  qed
qed

lemma newRandomCluster_simulates: "simulates 0 newRandomCluster"
proof -
  have "tracks newRandomCluster (init threeNodeIDs)"
    by (auto simp: tracks_def newRandomCluster_def init_def)
  then show ?thesis unfolding simulates_def by (auto simp: newRandomCluster_def intro: reach_init)
qed

lemma RunRandomized_safe:
  assumes i: "random_source intn" and b: "nat steps + 15302 < 2 ^ 64"
  shows "safe (nat steps + 15302) (RunRandomized intn steps)"
proof -
  have loop: "safe (nat steps + 15302) (randomLoop intn (nat steps) c)" if "simulates 15302 c" for c
    by (rule safe_mono [OF randomLoop_safe [OF i that]]) (use b in auto)
  have "safe (nat steps + 15302) (continue (injectFaultFrontier intn c) (randomLoop intn (nat steps)))" if "simulates 15000 c" for c
    by (rule continue_safe [OF injectFaultFrontier_safe [OF i that]]) (use b loop in auto)
  then have "safe (nat steps + 15302) (continue (bootstrap intn newRandomCluster) (\<lambda>c. continue (injectFaultFrontier intn c) (randomLoop intn (nat steps))))"
    by (intro continue_safe [OF bootstrap_safe [OF i newRandomCluster_simulates]]) (use b in auto)
  then show ?thesis
    using newRandomCluster_simulates by (auto simp: RunRandomized_def intro: safe_result)
qed

text \<open>C39. The seeded simulation is a run of the asynchronous cluster, so its election check can never fail.
  Whatever numbers the random source returns, every scheduling decision of \<^verbatim>\<open>RunRandomized\<close>, the delays,
  drops, duplicates and reorderings, the asymmetric partition, the crash and the restart included, is a step
  that the transition system allows: a run of at most \<open>steps\<close> scheduler steps ends in a cluster whose cores,
  disks, queued writes and messages are those of a reachable cluster, no two live Nodes are Leader of one Term,
  and the error it reports, if any, is not a violation of election safety. The loop is a total function, so the
  result is absent only where a core panics.\<close>

theorem randomized_runs_are_cluster_runs:
  assumes "random_source intn" and "steps < 2 ^ 63"
  shows "case RunRandomized intn steps of
      None \<Rightarrow> True
    | Some (e, c) \<Rightarrow> e \<noteq> Some electionSafety \<and> \<not> twoLeaders c \<and>
        (\<exists>k s. reach threeNodeIDs k s \<and> k \<le> nat steps + 15302 \<and> tracks c s)"
proof -
  have b: "nat steps + 15302 < 2 ^ 64" using assms(2) by simp
  note r = RunRandomized_safe [OF assms(1) b]
  show ?thesis
    using r simulates_one_leader [OF _ b] unfolding safe_def by (auto simp: simulates_def split: option.splits)
qed

theorem randomized_runs_are_cluster_runs_witness:
  "random_source (\<lambda>d n. (7919 * d + 13) mod n) \<and>
   (case RunRandomized (\<lambda>d n. (7919 * d + 13) mod n) 1200 of
      None \<Rightarrow> True | Some (e, c) \<Rightarrow> e \<noteq> Some electionSafety \<and> \<not> twoLeaders c)"
proof -
  have i: "random_source (\<lambda>d n. (7919 * d + 13) mod n)" by (simp add: random_source_def)
  from randomized_runs_are_cluster_runs [OF i, of 1200] i show ?thesis by (auto split: option.splits)
qed

end
