(* ===== verification/Scripted_Election.thy ===== *)
theory Scripted_Election
  imports Election_Safety Raft_Properties "HOL-Library.List_Lexorder" "HOL-Library.Char_ord"
begin

text \<open>
  The scripted three-Node runtime, \<^verbatim>\<open>src/internal/simulation/election.go\<close>: timers fire when the script says so,
  and every event is processed, with all the messages and completions it causes, before the next one. The
  election clock is an argument, a function of the number of timeouts drawn so far. Durations are integers
  (nanoseconds). The loop over the queue has a bound on the number of events; running out of it, like a
  panic of a core, is \<open>None\<close>.
\<close>

subsection \<open>Timing\<close>

record Timing =
  tm_HeartbeatInterval :: int
  tm_ElectionTimeoutMin :: int
  tm_ElectionTimeoutMax :: int
  tm_CheckQuorumWindow :: int

definition millisecond :: int where
  "millisecond = 1000000"

definition DefaultTiming :: Timing where
  "DefaultTiming = \<lparr>tm_HeartbeatInterval = 100 * millisecond, tm_ElectionTimeoutMin = 500 * millisecond,
     tm_ElectionTimeoutMax = 1000 * millisecond, tm_CheckQuorumWindow = 1000 * millisecond\<rparr>"

datatype TimingProblem = heartbeatNotPositive | minimumTooShort | maximumBelowMinimum | windowTooShort

definition Timing_Validate :: "Timing \<Rightarrow> TimingProblem list" where
  "Timing_Validate t =
     (if tm_HeartbeatInterval t \<le> 0 then [heartbeatNotPositive] else []) @
     (if tm_ElectionTimeoutMin t \<le> tm_HeartbeatInterval t then [minimumTooShort] else []) @
     (if tm_ElectionTimeoutMax t < tm_ElectionTimeoutMin t then [maximumBelowMinimum] else []) @
     (if tm_CheckQuorumWindow t < tm_ElectionTimeoutMin t then [windowTooShort] else [])"

text \<open>A clock: the timeout for a number of draws and a range. The seeded clock adds a random number;
  \<open>int63n\<close> is \<^verbatim>\<open>rand.Int63n\<close>.\<close>

type_synonym Clock = "nat \<Rightarrow> int \<Rightarrow> int \<Rightarrow> int"

definition seeded_ElectionTimeout :: "(nat \<Rightarrow> int \<Rightarrow> int) \<Rightarrow> Clock" where
  "seeded_ElectionTimeout int63n k minimum maximum =
     (let span = maximum - minimum in
      if span = 0 then minimum else minimum + int63n k (span + 1))"

subsection \<open>The cluster\<close>

record TraceStep =
  ts_Node :: NodeID
  ts_Event :: Event
  ts_Actions :: "Action list"

record ScriptedCluster =
  sc_nodes :: "NodeID \<rightharpoonup> Node"
  sc_connected :: "NodeID \<Rightarrow> NodeID \<Rightarrow> bool"
  sc_timing :: Timing
  sc_electionTimeouts :: "NodeID \<Rightarrow> int"
  sc_heartbeatTimeouts :: "NodeID \<Rightarrow> int"
  sc_quorumTimeouts :: "NodeID \<Rightarrow> int"
  sc_applied :: "NodeID \<Rightarrow> LogEntry list"
  sc_scheduledElection :: "(NodeID \<times> int) list"
  sc_trace :: "TraceStep list"

type_synonym scheduledEvent = "NodeID \<times> Event"

datatype ScriptError =
    invalidTiming "TimingProblem list"
  | unknownNode NodeID
  | appliedOutOfOrder NodeID u64 nat
  | multipleLeaders u64 "NodeID list"
  | appliedBeyondCommit NodeID
  | appliedCountDiffers NodeID
  | leaderTerms nat

text \<open>The number of timeouts drawn is the length of the record of them.\<close>

definition resetElectionTimer :: "Clock \<Rightarrow> NodeID \<Rightarrow> ScriptedCluster \<Rightarrow> ScriptedCluster" where
  "resetElectionTimer clock nid c =
     (let delay = clock (length (sc_scheduledElection c)) (tm_ElectionTimeoutMin (sc_timing c)) (tm_ElectionTimeoutMax (sc_timing c))
      in c\<lparr>sc_electionTimeouts := (sc_electionTimeouts c)(nid := delay),
           sc_scheduledElection := sc_scheduledElection c @ [(nid, delay)]\<rparr>)"

definition NewCluster :: "Timing \<Rightarrow> Clock \<Rightarrow> ScriptError + ScriptedCluster" where
  "NewCluster timing clock =
     (if Timing_Validate timing \<noteq> [] then Inl (invalidTiming (Timing_Validate timing))
      else Inr (fold (resetElectionTimer clock) threeNodeIDs
        \<lparr>sc_nodes = (\<lambda>nid. if nid \<in> set threeNodeIDs then NewNode nid (peers_of threeNodeIDs nid) else None),
         sc_connected = (\<lambda>from to. from \<in> set threeNodeIDs \<and> to \<in> set threeNodeIDs \<and> to \<noteq> from),
         sc_timing = timing, sc_electionTimeouts = (\<lambda>_. 0), sc_heartbeatTimeouts = (\<lambda>_. 0), sc_quorumTimeouts = (\<lambda>_. 0),
         sc_applied = (\<lambda>_. []), sc_scheduledElection = [], sc_trace = []\<rparr>))"

text \<open>Only Nodes within one group stay connected. Naming an unknown Node together with another one is a panic.\<close>

definition Partition :: "NodeID list list \<Rightarrow> ScriptedCluster \<Rightarrow> ScriptedCluster option" where
  "Partition groups c =
     (if list_ex (\<lambda>group. list_ex (\<lambda>from. from \<notin> set threeNodeIDs \<and> list_ex (\<lambda>to. to \<noteq> from) group) group) groups then None
      else Some (c\<lparr>sc_connected := (\<lambda>from to. from \<noteq> to \<and> list_ex (\<lambda>group. from \<in> set group \<and> to \<in> set group) groups)\<rparr>))"

definition Heal :: "ScriptedCluster \<Rightarrow> ScriptedCluster option" where
  "Heal c = Partition [threeNodeIDs] c"

subsection \<open>Processing one event\<close>

definition sim_deliver :: "NodeID \<Rightarrow> NodeID \<Rightarrow> Event \<Rightarrow> ScriptedCluster \<Rightarrow> scheduledEvent list" where
  "sim_deliver from to event c = (if sc_connected c from to then [(to, event)] else [])"

text \<open>The case distinction on an action: the cluster and the events it adds to the queue.\<close>

fun consume :: "Clock \<Rightarrow> NodeID \<Rightarrow> Action \<Rightarrow> ScriptedCluster \<Rightarrow> ScriptError + ScriptedCluster \<times> scheduledEvent list" where
  "consume clock nid (PersistHardState pid _ _) c = Inr (c, [(nid, HardStatePersisted pid)])"
| "consume clock nid (PersistLogEntries pid _ _) c = Inr (c, [(nid, LogEntriesPersisted pid)])"
| "consume clock nid (PersistCommitIndex pid _) c = Inr (c, [(nid, CommitIndexPersisted pid)])"
| "consume clock nid (SendPreVoteRequest to r) c = Inr (c, sim_deliver nid to (EvPreVoteRequest r) c)"
| "consume clock nid (SendPreVoteResponse to r) c = Inr (c, sim_deliver nid to (EvPreVoteResponse r) c)"
| "consume clock nid (SendVoteRequest to r) c = Inr (c, sim_deliver nid to (EvVoteRequest r) c)"
| "consume clock nid (SendVoteResponse to r) c = Inr (c, sim_deliver nid to (EvVoteResponse r) c)"
| "consume clock nid (SendAppendEntries to r) c =
     Inr (c, if sc_connected c nid to then [(to, EvAppendEntries r)] else [(nid, AppendEntriesFailed to (ae_RequestID r))])"
| "consume clock nid (SendAppendEntriesResponse to r) c = Inr (c, sim_deliver nid to (EvAppendEntriesResponse r) c)"
| "consume clock nid ResetElectionTimer c = Inr (resetElectionTimer clock nid c, [])"
| "consume clock nid ResetHeartbeatTimer c =
     Inr (c\<lparr>sc_heartbeatTimeouts := (sc_heartbeatTimeouts c)(nid := tm_HeartbeatInterval (sc_timing c))\<rparr>, [])"
| "consume clock nid ResetCheckQuorumTimer c =
     Inr (c\<lparr>sc_quorumTimeouts := (sc_quorumTimeouts c)(nid := tm_CheckQuorumWindow (sc_timing c))\<rparr>, [])"
| "consume clock nid (ApplyEntry entry) c =
     (let seen = sc_applied c nid in
      if e_Index entry \<noteq> of_nat (length seen + 1) then Inl (appliedOutOfOrder nid (e_Index entry) (length seen))
      else Inr (c\<lparr>sc_applied := (sc_applied c)(nid := seen @ [entry])\<rparr>, []))"
| "consume clock nid _ c = Inr (c, [])"

fun consumeAll :: "Clock \<Rightarrow> NodeID \<Rightarrow> Action list \<Rightarrow> ScriptedCluster \<Rightarrow> ScriptError + ScriptedCluster \<times> scheduledEvent list" where
  "consumeAll clock nid [] c = Inr (c, [])"
| "consumeAll clock nid (a # as) c = andThen (consume clock nid a c) (\<lambda>(c, caused).
     andThen (consumeAll clock nid as c) (\<lambda>(c, rest). Inr (c, caused @ rest)))"

text \<open>The Leaders of every Term, by identity.\<close>

definition leadersByTerm :: "(NodeID \<rightharpoonup> Node) \<Rightarrow> (u64 \<times> NodeID list) list" where
  "leadersByTerm nodes =
     (let leaders = filter (\<lambda>n. n_role n = Leader) (List.map_filter nodes threeNodeIDs)
      in map (\<lambda>trm. (trm, sort (map n_id (filter (\<lambda>n. n_term n = trm) leaders)))) (remdups (map n_term leaders)))"

definition checkApplied :: "(NodeID \<rightharpoonup> Node) \<Rightarrow> (NodeID \<Rightarrow> LogEntry list) \<Rightarrow> NodeID \<Rightarrow> ScriptError option" where
  "checkApplied nodes seen nid = (case nodes nid of
     None \<Rightarrow> None
   | Some n \<Rightarrow>
       if n_lastApplied n > n_commitIndex n then Some (appliedBeyondCommit nid)
       else if of_nat (length (seen nid)) \<noteq> n_lastApplied n then Some (appliedCountDiffers nid)
       else None)"

definition assertRaftInvariants :: "(NodeID \<rightharpoonup> Node) \<Rightarrow> (NodeID \<Rightarrow> LogEntry list) \<Rightarrow> ScriptError option" where
  "assertRaftInvariants nodes seen =
     (case find (\<lambda>(trm, ids). length ids > 1) (leadersByTerm nodes) of
        Some (trm, ids) \<Rightarrow> Some (multipleLeaders trm ids)
      | None \<Rightarrow>
          (case List.map_filter (checkApplied nodes seen) threeNodeIDs of
             err # _ \<Rightarrow> Some err | [] \<Rightarrow> None))"

text \<open>\<^verbatim>\<open>process\<close>, for at most \<open>fuel\<close> events.\<close>

fun process :: "Clock \<Rightarrow> nat \<Rightarrow> scheduledEvent list \<Rightarrow> ScriptedCluster \<Rightarrow> (ScriptError option \<times> ScriptedCluster) option" where
  "process clock fuel [] c = Some (None, c)"
| "process clock fuel ((nid, event) # queue) c =
     (if fuel = 0 then None
      else (case sc_nodes c nid of
        None \<Rightarrow> Some (Some (unknownNode nid), c)
      | Some node \<Rightarrow>
          (case Step node event of
             None \<Rightarrow> None
           | Some (node, actions) \<Rightarrow>
               let c = c\<lparr>sc_nodes := (sc_nodes c)(nid \<mapsto> node),
                         sc_trace := sc_trace c @ [\<lparr>ts_Node = nid, ts_Event = event, ts_Actions = actions\<rparr>]\<rparr>
               in case consumeAll clock nid actions c of
                    Inl err \<Rightarrow> Some (Some err, c)
                  | Inr (c, caused) \<Rightarrow>
                      (case assertRaftInvariants (sc_nodes c) (sc_applied c) of
                         Some err \<Rightarrow> Some (Some err, c)
                       | None \<Rightarrow> process clock (fuel - 1) (queue @ caused) c))))"

declare process.simps(2) [simp del]

definition FireElectionTimeout :: "Clock \<Rightarrow> nat \<Rightarrow> NodeID \<Rightarrow> ScriptedCluster \<Rightarrow> (ScriptError option \<times> ScriptedCluster) option" where
  "FireElectionTimeout clock fuel nid = process clock fuel [(nid, ElectionTimeout)]"

definition FireHeartbeatTimeout :: "Clock \<Rightarrow> nat \<Rightarrow> NodeID \<Rightarrow> ScriptedCluster \<Rightarrow> (ScriptError option \<times> ScriptedCluster) option" where
  "FireHeartbeatTimeout clock fuel nid = process clock fuel [(nid, HeartbeatTimeout)]"

definition FireCheckQuorumTimeout :: "Clock \<Rightarrow> nat \<Rightarrow> NodeID \<Rightarrow> ScriptedCluster \<Rightarrow> (ScriptError option \<times> ScriptedCluster) option" where
  "FireCheckQuorumTimeout clock fuel nid = process clock fuel [(nid, CheckQuorumTimeout)]"

definition script_ProposeSession :: "Clock \<Rightarrow> nat \<Rightarrow> NodeID \<Rightarrow> ProposeSession \<Rightarrow> ScriptedCluster \<Rightarrow> (ScriptError option \<times> ScriptedCluster) option" where
  "script_ProposeSession clock fuel nid proposal = process clock fuel [(nid, EvProposeSession proposal)]"

definition script_ProposeSet :: "Clock \<Rightarrow> nat \<Rightarrow> NodeID \<Rightarrow> ProposeSet \<Rightarrow> ScriptedCluster \<Rightarrow> (ScriptError option \<times> ScriptedCluster) option" where
  "script_ProposeSet clock fuel nid proposal = process clock fuel [(nid, EvProposeSet proposal)]"

subsection \<open>The first election\<close>

text \<open>The Node whose timeout is shortest; ties go to the smaller identity.\<close>

definition earlier :: "(NodeID \<Rightarrow> int) \<Rightarrow> NodeID \<Rightarrow> NodeID \<times> int \<Rightarrow> NodeID \<times> int" where
  "earlier timeouts nid best = (case best of (selected, shortest) \<Rightarrow>
     let delay = timeouts nid in
     if selected = '''' \<or> delay < shortest \<or> (delay = shortest \<and> nid < selected) then (nid, delay) else (selected, shortest))"

definition shortestTimeout :: "(NodeID \<Rightarrow> int) \<Rightarrow> NodeID" where
  "shortestTimeout timeouts = fst (fold (earlier timeouts) threeNodeIDs ('''', 0))"

definition FireNextElectionTimeout :: "Clock \<Rightarrow> nat \<Rightarrow> ScriptedCluster \<Rightarrow> (ScriptError option \<times> ScriptedCluster) option" where
  "FireNextElectionTimeout clock fuel c = FireElectionTimeout clock fuel (shortestTimeout (sc_electionTimeouts c)) c"

record ElectionResult =
  er_Leader :: NodeID
  er_Term :: u64
  er_Trace :: "TraceStep list"

definition RunElection :: "Clock \<Rightarrow> nat \<Rightarrow> (ScriptError + ElectionResult) option" where
  "RunElection clock fuel = (case NewCluster DefaultTiming clock of
     Inl err \<Rightarrow> Some (Inl err)
   | Inr c \<Rightarrow>
       (case FireNextElectionTimeout clock fuel c of
          None \<Rightarrow> None
        | Some (Some err, c) \<Rightarrow> Some (Inl err)
        | Some (None, c) \<Rightarrow>
            (case leadersByTerm (sc_nodes c) of
               [(trm, ids)] \<Rightarrow> Some (Inr \<lparr>er_Leader = hd ids, er_Term = trm, er_Trace = sc_trace c\<rparr>)
             | leaders \<Rightarrow> Some (Inl (leaderTerms (length leaders))))))"

end
