(* ===== verification/Spec2Isabelle.thy ===== *)
theory Spec2Isabelle
  imports Election_Safety Raft_Properties Config Linearizability Client_Library Answers Simulation_Safety Scripted_Election
begin

text \<open>
  Verification development of Ternion, a replicated key-value store: three Nodes run Raft, Clients open
  Sessions and send numbered mutations, and every acknowledged mutation is on the disks of a quorum. Sources
  are named relative to \<^verbatim>\<open>src/\<close>.

  \<^bold>\<open>The program and its parts.\<close> A Client (\<^verbatim>\<open>client/client.go\<close>, used by \<^verbatim>\<open>internal/cli\<close>) calls a Node and follows
  Leader hints. The request handlers (\<^verbatim>\<open>internal/node/set.go\<close>, \<^verbatim>\<open>get.go\<close>, \<^verbatim>\<open>delete.go\<close>, \<^verbatim>\<open>session.go\<close>, \<^verbatim>\<open>node.go\<close>)
  validate a request and put it into the channel of the runtime loop. The loop (\<^verbatim>\<open>runtime_loop.go\<close>) owns the
  consensus core (\<^verbatim>\<open>internal/raft/raft.go\<close>), passes it one event at a time through \<^verbatim>\<open>raftRuntime.step\<close>
  (\<^verbatim>\<open>raft_runtime.go\<close>), which completes every write the core asks for in the write-ahead log (\<^verbatim>\<open>internal/wal\<close>)
  before it hands on the remaining actions: messages to the transport (\<^verbatim>\<open>peer.go\<close>), committed entries and read
  results to the command coordinator (\<^verbatim>\<open>command_coordinator.go\<close>), which applies them to the session machine
  (\<^verbatim>\<open>session.go\<close>) and answers the waiting requests. Snapshots of the machine are files (\<^verbatim>\<open>internal/snapshot\<close>) that
  let the log be compacted and slow Nodes catch up. \<^verbatim>\<open>internal/simulation\<close> drives the same core under a
  scripted and a randomized scheduler, and \<^verbatim>\<open>internal/linearizability\<close> checks recorded histories.

  \<^bold>\<open>Theories and what they model.\<close>
  \<^item> \<^verbatim>\<open>Ternion_Prelude\<close>: Go's integers, slices, maps and fallible steps.
  \<^item> \<^verbatim>\<open>Raft_Types\<close>, \<^verbatim>\<open>Raft_Log\<close>, \<^verbatim>\<open>Raft_Core\<close>: the consensus core. The record \<open>Node\<close> has a field \<open>n_f\<close> for every
    field \<^verbatim>\<open>f\<close> of the Go struct, \<open>Event\<close> and \<open>Action\<close> a constructor per implementing struct, and there is a
    definition of the same name for every method, up to \<open>Step\<close>.
  \<^item> \<^verbatim>\<open>Raft_Election\<close>, \<^verbatim>\<open>Raft_Invariants\<close>, \<^verbatim>\<open>Raft_Properties\<close>: the effect of one step on the election state, the
    invariant \<open>wf_node\<close> of one Node, and the properties of one Node.
  \<^item> \<^verbatim>\<open>Quorums\<close>, \<^verbatim>\<open>Raft_Cluster\<close>, \<^verbatim>\<open>Election_Safety\<close>: the quorum contract as a locale, interpreted with the majorities
    the code counts; a transition system of Nodes, disks and a network that loses, delays, duplicates and
    reorders; and the inductive invariant behind election safety.
  \<^item> \<^verbatim>\<open>Codec\<close>, \<^verbatim>\<open>Wal_Format\<close>, \<^verbatim>\<open>Wal\<close>: byte order, checksums, the record format, recovery and the operations of
    \<^verbatim>\<open>internal/wal/wal.go\<close>. The handle \<open>WAL\<close> carries the directory, a list of numbered segments.
  \<^item> \<^verbatim>\<open>Snapshot_File\<close>: \<^verbatim>\<open>internal/snapshot/snapshot.go\<close>, with files and directories that know which bytes and which
    entries are synced; a loss of power keeps those and any of the others.
  \<^item> \<^verbatim>\<open>Sessions\<close>: \<open>applyEntry\<close> and the Snapshot functions of the session machine.
  \<^item> \<^verbatim>\<open>Coordinator\<close>, \<^verbatim>\<open>Peer\<close>, \<^verbatim>\<open>Runtime\<close>: the coordinator, the peer protocol with its transport, and the runtime loop,
    whose body is the function \<open>iteration\<close> of the state \<open>loopState\<close>.
  \<^item> \<^verbatim>\<open>Durability\<close>, \<^verbatim>\<open>Durable_Runtime\<close>: the core, \<^verbatim>\<open>raftRuntime.step\<close> and the write-ahead log together.
  \<^item> \<^verbatim>\<open>Answers\<close>: the core, \<^verbatim>\<open>raftRuntime.step\<close>, the coordinator and the loop together; \<open>runLoop\<close> is the loop of \<^verbatim>\<open>runRaft\<close>.
  \<^item> \<^verbatim>\<open>Node_Api\<close>, \<^verbatim>\<open>Client_Library\<close>, \<^verbatim>\<open>Config\<close>: the request handlers, the Client with the command line tool, and
    the validation of a configuration.
  \<^item> \<^verbatim>\<open>Simulation\<close>, \<^verbatim>\<open>Simulation_Safety\<close>, \<^verbatim>\<open>Scripted_Election\<close>: \<^verbatim>\<open>internal/simulation/randomized.go\<close> and \<^verbatim>\<open>election.go\<close>.
  \<^item> \<^verbatim>\<open>Linearizability\<close>: the history recorder and the checker.

  \<^bold>\<open>What is shown.\<close>
  \<^item> Elections: over every run of the cluster a Node supports one candidate per Term, also across crashes, no
    vote leaves a Node before it is on disk, and a Term has at most one Leader.
  \<^item> One Node: \<open>Step\<close> never panics on a well-formed Node and keeps it well-formed; committed entries are never
    replaced; a Leader commits by the counting rule of Raft; a follower holds the entries of an accepted request;
    entries are applied once and in order; requests and batches are well-formed and bounded.
  \<^item> Storage: reopening the log yields what the operations saved, across rotation and torn writes; a Snapshot file
    is installed atomically, read back only intact, and chosen as documented. In histories without Snapshots every
    write the core asks for succeeds, the persistence loop ends, and a Node that stops between two events restarts
    where it was.
  \<^item> The state machine: mutations take effect once and in order, retries repeat the first answer, the session
    limit holds, and a Snapshot restores a machine that behaves alike.
  \<^item> The edges: a message sent is the message received, a proposal is settled by the coordinator or becomes one entry
    that the log and a batch can hold, every request is answered once, the Client finds the Leader, and accepted
    configurations are characterised.
  \<^item> The tools: the checker decides linearizability of the recorded history, and every randomized run is a run of
    the cluster, so that it can never report two Leaders of one Term.
  \<^item> Defects: situations in which a Node cannot restart from files it wrote itself, and histories that the checker
    judges differently from its documentation, are theorems, with a concrete instance each.

  \<^bold>\<open>Bounds.\<close> Words are 64 bits wide and wrap; election safety is proved for runs of fewer than \<open>2^64 - 1\<close> steps, so
  that no Term and no persistence identifier wraps. The loop of \<open>stepLoop\<close> is a partial function that is
  shown to return; the search of the linearizability checker, the loops over frames and the randomized loop
  are total by measures. The attempts of the Client (128) and of the simulation (5000 and 100) are those of
  the source. The queue of the scripted runtime is processed with a bound on the number of events as an argument.

  \<^bold>\<open>Not modelled.\<close> \<^verbatim>\<open>encoding/json\<close>, gRPC, the operating system, the clock and random sources are arguments,
  with what the code relies on as hypotheses. Goroutines, listeners and servers (\<^verbatim>\<open>Run\<close> of \<^verbatim>\<open>node.go\<close>), metrics, log
  output, the test-only mutation observer, YAML decoding, flag parsing and the \<^verbatim>\<open>main\<close> packages have no
  effect on the state or are third-party code; the benchmark measures wall-clock time with floating-point statistics;
  \<^verbatim>\<open>gen/\<close> is generated from the protocol definition.
\<close>

end
